(* ===== verification/Prelude.thy ===== *)
theory Prelude
  imports Main "HOL-Library.Word" "HOL-Library.Multiset"
begin

text \<open>
  Shared vocabulary of the development: the machine types of the C++ code, the collections of
  simplification and introduction rules, the generic lemmas on lists, multisets and words, and
  the two interfaces every stateful component is checked against: \<open>event_machine\<close> (a step
  relation with an inductive invariant) and \<open>simulation\<close> (a concrete machine whose steps are
  runs of an abstract one).
\<close>

section \<open>Machine types\<close>

type_synonym byte = "8 word"
type_synonym u32 = "32 word"
type_synonym u64 = "64 word"
type_synonym size_t = "64 word"
type_synonym bytes = "byte list"

text \<open>
  The size of a container as a \<open>size_t\<close>. The supported platforms (macOS, Linux) have 64-bit
  sizes. A standard container never holds \<open>2 ^ 64\<close> elements, so the conversion is exact for
  every container that can exist; where that matters, the bound is a hypothesis.
\<close>

definition vsize :: "'a list \<Rightarrow> size_t" where
  "vsize xs = of_nat (length xs)"

lemma unat_vsize: "length xs < 2 ^ 64 \<Longrightarrow> unat (vsize xs) = length xs"
  by (simp add: vsize_def unat_of_nat)

lemma vsize_Nil [simp]: "vsize [] = 0"
  by (simp add: vsize_def)

section \<open>Collections\<close>

named_theorems step_simps \<open>equations of the handlers that a step executes\<close>
named_theorems inv_intros \<open>preservation of an invariant by one operation\<close>

section \<open>Lists and multisets\<close>

lemma filter_eq_single_count:
  "count_list xs x = length (filter (\<lambda>y. y = x) xs)"
  by (induction xs) auto

lemma count_list_append [simp]: "count_list (xs @ ys) x = count_list xs x + count_list ys x"
  by (induction xs) auto

lemma sorted_wrt_insert_middle:
  assumes "sorted_wrt R (xs @ ys)" and "\<And>x. x \<in> set xs \<Longrightarrow> R x e" and "\<And>y. y \<in> set ys \<Longrightarrow> R e y"
  shows "sorted_wrt R (xs @ e # ys)"
  using assms by (auto simp: sorted_wrt_append)

lemma takeWhile_dropWhile_insert_set:
  "set (takeWhile P xs @ e # dropWhile P xs) = insert e (set xs)"
proof -
  have "set (takeWhile P xs @ dropWhile P xs) = set xs"
    by (simp only: takeWhile_dropWhile_id)
  then have "set (takeWhile P xs) \<union> set (dropWhile P xs) = set xs"
    by (simp only: set_append)
  then show ?thesis
    by (simp only: set_append list.set Un_insert_right)
qed

lemma mset_takeWhile_dropWhile:
  "mset (takeWhile P xs) + mset (dropWhile P xs) = mset xs"
  by (metis mset_append takeWhile_dropWhile_id)

section \<open>Keyed lists\<close>

text \<open>
  An \<^verbatim>\<open>std::unordered_map\<close> whose iteration order is visible is an association list with
  distinct keys. \<open>remove_key\<close> is \<^verbatim>\<open>erase\<close> (and \<^verbatim>\<open>extract\<close>) by key.
\<close>

definition remove_key :: "'k \<Rightarrow> ('k \<times> 'v) list \<Rightarrow> ('k \<times> 'v) list" where
  "remove_key k xs = filter (\<lambda>(k', _). k' \<noteq> k) xs"

definition map_keys :: "('k \<times> 'v) list \<Rightarrow> 'k set" where
  "map_keys xs = fst ` set xs"

lemma map_keys_simps [simp]:
  "map_keys [] = {}" "map_keys (x # xs) = insert (fst x) (map_keys xs)"
  "map_keys (xs @ ys) = map_keys xs \<union> map_keys ys"
  "map_keys (remove_key k xs) = map_keys xs - {k}"
  by (force simp: map_keys_def remove_key_def)+

lemma map_of_None_keys: "map_of xs k = None \<longleftrightarrow> k \<notin> map_keys xs"
  by (simp add: map_keys_def map_of_eq_None_iff)

lemma map_of_Some_keys: "map_of xs k = Some v \<Longrightarrow> k \<in> map_keys xs"
  by (metis map_of_None_keys option.distinct(1))

lemma distinct_remove_key: "distinct (map fst xs) \<Longrightarrow> distinct (map fst (remove_key k xs))"
  by (induction xs) (auto simp: remove_key_def)

lemma remove_key_absent: "k \<notin> map_keys xs \<Longrightarrow> remove_key k xs = xs"
  by (induction xs) (auto simp: remove_key_def)

lemma mset_remove_key:
  assumes "distinct (map fst xs)" and "map_of xs k = Some v"
  shows "mset xs = {#(k, v)#} + mset (remove_key k xs)"
  using assms
proof (induction xs)
  case Nil
  then show ?case by simp
next
  case (Cons x xs)
  show ?case
  proof (cases "fst x = k")
    case True
    with Cons.prems have "k \<notin> map_keys xs" by (auto simp: map_keys_def)
    then have "remove_key k xs = xs" by (rule remove_key_absent)
    with True Cons.prems(2) show ?thesis by (cases x) (simp add: remove_key_def)
  next
    case False
    with Cons show ?thesis by (cases x) (auto simp: remove_key_def)
  qed
qed

lemma map_of_remove_key: "map_of (remove_key k xs) k' = (if k' = k then None else map_of xs k')"
  by (induction xs) (auto simp: remove_key_def)

section \<open>Counting in a machine word\<close>

lemma unat_plus_one: "unat (n :: u64) < 2 ^ 64 - 1 \<Longrightarrow> unat (n + 1) = Suc (unat n)"
  by (simp add: unat_word_ariths)

lemma unat_add_le: "unat ((x :: u64) + y) \<le> unat x + unat y"
  by (simp add: unat_word_ariths)

lemma unat_size_t_less: "unat (w :: size_t) < 2 ^ 64"
proof -
  have "unat w < 2 ^ LENGTH(64)" by (rule unsigned_less)
  then show ?thesis by simp
qed

lemma unat_ucast_u32 [simp]: "unat (ucast (w :: u32) :: size_t) = unat w"
proof -
  have "unat w < 2 ^ LENGTH(32)" by (rule unsigned_less)
  then show ?thesis by (simp add: unsigned_ucast_eq take_bit_eq_mod)
qed

section \<open>Step relations with an invariant\<close>

text \<open>
  The contract of a component with state: initial states, a step relation and an invariant
  that holds initially and is kept by every step. Its client lemma is the induction over the
  reachable states, done once.
\<close>

inductive reachable_from :: "('s \<Rightarrow> bool) \<Rightarrow> ('s \<Rightarrow> 's \<Rightarrow> bool) \<Rightarrow> 's \<Rightarrow> bool"
  for init :: "'s \<Rightarrow> bool" and step :: "'s \<Rightarrow> 's \<Rightarrow> bool" where
  reach_init: "init s \<Longrightarrow> reachable_from init step s"
| reach_step: "reachable_from init step s \<Longrightarrow> step s t \<Longrightarrow> reachable_from init step t"

locale event_machine =
  fixes init :: "'s \<Rightarrow> bool"
    and step :: "'s \<Rightarrow> 's \<Rightarrow> bool"
    and inv :: "'s \<Rightarrow> bool"
  assumes inv_init: "init s \<Longrightarrow> inv s"
    and inv_step: "inv s \<Longrightarrow> step s t \<Longrightarrow> inv t"
begin

lemma reachable_inv: "reachable_from init step s \<Longrightarrow> inv s"
  by (induction rule: reachable_from.induct) (auto intro: inv_init inv_step)

lemma steps_inv: "step\<^sup>*\<^sup>* s t \<Longrightarrow> inv s \<Longrightarrow> inv t"
  by (induction rule: rtranclp_induct) (auto intro: inv_step)

lemma reachable_steps: "step\<^sup>*\<^sup>* s t \<Longrightarrow> reachable_from init step s \<Longrightarrow> reachable_from init step t"
  by (induction rule: rtranclp_induct) (auto intro: reach_step)

end

text \<open>
  A simulation: under the concrete invariant, every concrete step is matched by a run of the
  abstract machine between the abstractions of its end states. Reachable concrete states are
  then abstracted to reachable abstract states, so abstract invariants transfer.
\<close>

locale simulation = event_machine init step inv
  for init :: "'s \<Rightarrow> bool" and step :: "'s \<Rightarrow> 's \<Rightarrow> bool" and inv :: "'s \<Rightarrow> bool" +
  fixes absf :: "'s \<Rightarrow> 'a"
    and ainit :: "'a \<Rightarrow> bool"
    and astep :: "'a \<Rightarrow> 'a \<Rightarrow> bool"
  assumes sim_init: "init s \<Longrightarrow> ainit (absf s)"
    and sim_step: "inv s \<Longrightarrow> step s t \<Longrightarrow> astep\<^sup>*\<^sup>* (absf s) (absf t)"
begin

lemma astep_runs_reachable:
  "astep\<^sup>*\<^sup>* a b \<Longrightarrow> reachable_from ainit astep a \<Longrightarrow> reachable_from ainit astep b"
  by (induction rule: rtranclp_induct) (auto intro: reach_step)

lemma abstract_reachable: "reachable_from init step s \<Longrightarrow> reachable_from ainit astep (absf s)"
proof (induction rule: reachable_from.induct)
  case (reach_init s)
  then show ?case by (auto intro: reachable_from.reach_init sim_init)
next
  case (reach_step s t)
  then show ?case by (meson astep_runs_reachable reachable_inv sim_step)
qed

end

end
