(* ===== verification/Types.thy ===== *)
theory Types
  imports Prelude
begin

text \<open>
  The public value types (\<^verbatim>\<open>types.hpp\<close>, \<^verbatim>\<open>peer_credentials.hpp\<close>), the error codes the code
  names, and the construction of peer credentials from the answer of the operating system
  (\<^verbatim>\<open>impl/credentials.hpp\<close>).
\<close>

type_synonym peer_id = u64
type_synonym request_id = u64

text \<open>
  \<^verbatim>\<open>asio::error_code\<close>: a default-constructed code (no error), the enumerators the library
  itself produces or compares with, and any other code of the operating system.
\<close>

datatype error_code =
    No_error
  | Eof
  | Message_size
  | Timed_out
  | Operation_aborted
  | Operation_not_supported
  | Connection_reset
  | Not_connected
  | No_buffer_space
  | Invalid_argument
  | Bad_descriptor
  | Os_error nat

text \<open>The contextual conversion of an error code to \<open>bool\<close>: it is an error.\<close>

definition is_error :: "error_code \<Rightarrow> bool" where
  "is_error e \<longleftrightarrow> e \<noteq> No_error"

lemma is_error_simps [simp]:
  "\<not> is_error No_error" "is_error Eof" "is_error Message_size" "is_error Timed_out"
  "is_error Operation_aborted" "is_error Operation_not_supported" "is_error Connection_reset"
  "is_error Not_connected" "is_error No_buffer_space" "is_error Invalid_argument"
  "is_error Bad_descriptor" "is_error (Os_error n)"
  by (simp_all add: is_error_def)

section \<open>Peer credentials\<close>

record peer_credentials =
  cred_pid :: "int option"
  cred_uid :: "u32 option"
  cred_gid :: "u32 option"

text \<open>
  Linux: one \<^verbatim>\<open>getsockopt(SO_PEERCRED)\<close> call either fails or gives all three values.
  macOS: \<^verbatim>\<open>getsockopt(LOCAL_PEERPID)\<close> gives the pid and \<^verbatim>\<open>getpeereid\<close> the two ids, each
  call failing on its own. The arguments are the results of the system calls, \<open>None\<close> for a
  non-zero return value.
\<close>

definition no_credentials :: peer_credentials where
  "no_credentials = \<lparr>cred_pid = None, cred_uid = None, cred_gid = None\<rparr>"

definition make_peer_credentials_linux :: "(int \<times> u32 \<times> u32) option \<Rightarrow> peer_credentials" where
  "make_peer_credentials_linux peercred =
     (case peercred of
        None \<Rightarrow> no_credentials
      | Some (pid, uid, gid) \<Rightarrow>
          no_credentials\<lparr>cred_pid := Some pid, cred_uid := Some uid, cred_gid := Some gid\<rparr>)"

definition make_peer_credentials_apple ::
    "int option \<Rightarrow> (u32 \<times> u32) option \<Rightarrow> peer_credentials" where
  "make_peer_credentials_apple peerpid peereid =
     (let result = no_credentials;
          result = (case peerpid of None \<Rightarrow> result | Some pid \<Rightarrow> result\<lparr>cred_pid := Some pid\<rparr>)
      in case peereid of
           None \<Rightarrow> result
         | Some (uid, gid) \<Rightarrow> result\<lparr>cred_uid := Some uid, cred_gid := Some gid\<rparr>)"

text \<open>The default verifiers of \<^verbatim>\<open>client.hpp\<close> and \<^verbatim>\<open>server.hpp\<close> accept every peer.\<close>

definition default_client_verify_peer :: "peer_credentials \<Rightarrow> bool" where
  "default_client_verify_peer c = True"

definition default_verify_peer :: "peer_credentials \<Rightarrow> bool" where
  "default_verify_peer c = True"

end
