(* ===== verification/Protocol.thy ===== *)
theory Protocol
  imports Types
begin

text \<open>
  The wire protocol (\<^verbatim>\<open>impl/protocol.hpp\<close>): the big-endian encoders and decoders, the
  message types and the frame builders; the contract of a fixed-width byte codec as a locale,
  interpreted on both integer codecs; and the abstract frame format they implement.
\<close>

unbundle bit_operations_syntax

section \<open>Constants and message types\<close>

datatype message_type =
    heartbeat
  | user_data
  | health_check
  | health_check_response
  | request
  | response

definition to_underlying :: "message_type \<Rightarrow> byte" where
  "to_underlying t = (case t of heartbeat \<Rightarrow> 0 | user_data \<Rightarrow> 1 | health_check \<Rightarrow> 2
     | health_check_response \<Rightarrow> 3 | request \<Rightarrow> 4 | response \<Rightarrow> 5)"

text \<open>
  \<^verbatim>\<open>static_cast<message_type>(byte)\<close> keeps any byte; a \<^verbatim>\<open>switch\<close> over it takes the default
  branch for a byte that names no enumerator, which is \<open>None\<close> here.
\<close>

definition message_type_of_byte :: "byte \<Rightarrow> message_type option" where
  "message_type_of_byte b =
     (if b = 0 then Some heartbeat
      else if b = 1 then Some user_data
      else if b = 2 then Some health_check
      else if b = 3 then Some health_check_response
      else if b = 4 then Some request
      else if b = 5 then Some response
      else None)"

definition header_size :: size_t where "header_size = 4"
definition type_size :: size_t where "type_size = 1"
definition request_id_size :: size_t where "request_id_size = 8"

lemma message_type_of_byte_to_underlying [simp]:
  "message_type_of_byte (to_underlying t) = Some t"
  by (cases t) (simp_all add: message_type_of_byte_def to_underlying_def)

section \<open>Integer codecs\<close>

definition encode_uint32 :: "u32 \<Rightarrow> bytes" where
  "encode_uint32 value =
     [ucast (drop_bit 24 value AND 0xff),
      ucast (drop_bit 16 value AND 0xff),
      ucast (drop_bit 8 value AND 0xff),
      ucast (value AND 0xff)]"

text \<open>The argument is a \<^verbatim>\<open>std::array<uint8_t, 4>\<close>, so the four reads are in range.\<close>

definition decode_uint32 :: "bytes \<Rightarrow> u32" where
  "decode_uint32 input =
     push_bit 24 (ucast (input ! 0)) OR
     push_bit 16 (ucast (input ! 1)) OR
     push_bit 8 (ucast (input ! 2)) OR
     ucast (input ! 3)"

definition encode_uint64 :: "u64 \<Rightarrow> bytes" where
  "encode_uint64 value =
     [ucast (drop_bit 56 value AND 0xff),
      ucast (drop_bit 48 value AND 0xff),
      ucast (drop_bit 40 value AND 0xff),
      ucast (drop_bit 32 value AND 0xff),
      ucast (drop_bit 24 value AND 0xff),
      ucast (drop_bit 16 value AND 0xff),
      ucast (drop_bit 8 value AND 0xff),
      ucast (value AND 0xff)]"

text \<open>
  The argument is a vector of any length: reading past its end is undefined behaviour in C++,
  which is \<open>None\<close> here.
\<close>

definition decode_uint64 :: "bytes \<Rightarrow> nat \<Rightarrow> u64 option" where
  "decode_uint64 input offset =
     (if offset + 7 < length input then Some
       (push_bit 56 (ucast (input ! offset)) OR
        push_bit 48 (ucast (input ! (offset + 1))) OR
        push_bit 40 (ucast (input ! (offset + 2))) OR
        push_bit 32 (ucast (input ! (offset + 3))) OR
        push_bit 24 (ucast (input ! (offset + 4))) OR
        push_bit 16 (ucast (input ! (offset + 5))) OR
        push_bit 8 (ucast (input ! (offset + 6))) OR
        ucast (input ! (offset + 7)))
      else None)"

section \<open>Frames\<close>

text \<open>
  \<open>data\<close> is the pointer (\<open>None\<close> for \<^verbatim>\<open>nullptr\<close>) with the bytes it points to, \<open>n\<close> the
  number of bytes to send. The body size is computed in \<open>size_t\<close> and truncated to 32 bits.
\<close>

definition make_frame :: "message_type \<Rightarrow> bytes option \<Rightarrow> size_t \<Rightarrow> bytes" where
  "make_frame type data n =
     (let body_size = type_size + n;
          header = encode_uint32 (ucast body_size);
          frame = header @ [to_underlying type]
      in case data of
           None \<Rightarrow> frame
         | Some d \<Rightarrow> (if n > 0 then frame @ take (unat n) d else frame))"

definition make_user_data_frame :: "bytes \<Rightarrow> bytes" where
  "make_user_data_frame data = make_frame user_data (Some data) (vsize data)"

definition make_request_response_frame :: "message_type \<Rightarrow> request_id \<Rightarrow> bytes \<Rightarrow> bytes" where
  "make_request_response_frame type request_id data =
     (let body_size = type_size + request_id_size + vsize data;
          header = encode_uint32 (ucast body_size);
          encoded_request_id = encode_uint64 request_id
      in header @ [to_underlying type] @ encoded_request_id @ data)"

definition make_request_frame :: "request_id \<Rightarrow> bytes \<Rightarrow> bytes" where
  "make_request_frame request_id data = make_request_response_frame request request_id data"

definition make_response_frame :: "request_id \<Rightarrow> bytes \<Rightarrow> bytes" where
  "make_response_frame request_id data = make_request_response_frame response request_id data"

definition make_heartbeat_frame :: bytes where
  "make_heartbeat_frame = make_frame heartbeat None 0"

definition make_health_check_frame :: bytes where
  "make_health_check_frame = make_frame health_check None 0"

definition make_health_check_response_frame :: bytes where
  "make_health_check_response_frame = make_frame health_check_response None 0"

section \<open>Correctness of the codecs\<close>

text \<open>
  Both codecs cut a word into its bytes. \<open>low_byte\<close> drops the mask, \<open>bit_byte_at\<close> reads one
  bit of a byte moved back to its place; a word is then equal to its reassembly bit by bit.
\<close>

lemma bit_mask8: "bit (0xff :: 'a::len word) n \<longleftrightarrow> n < 8 \<and> n < LENGTH('a)"
proof -
  have eq: "(0xff :: 'a word) = mask 8"
    by (simp add: mask_eq_exp_minus_1)
  show ?thesis
    unfolding eq by (auto simp: bit_mask_iff)
qed

lemma low_byte: "(ucast (w AND 0xff) :: byte) = ucast (w :: 'a::len word)"
proof (rule bit_word_eqI)
  fix n assume "n < LENGTH(8)"
  then have n: "n < 8" by simp
  have "bit (ucast (w AND 0xff) :: byte) n \<longleftrightarrow> bit w n \<and> n < 8 \<and> n < LENGTH('a)"
    unfolding bit_ucast_iff bit_and_iff bit_mask8 using n by simp
  then show "bit (ucast (w AND 0xff) :: byte) n \<longleftrightarrow> bit (ucast w :: byte) n"
    unfolding bit_ucast_iff using n by (auto dest: bit_imp_le_length)
qed

lemma bit_byte_at:
  "bit (push_bit k (ucast (ucast (drop_bit k (w :: 'a::len word)) :: byte)) :: 'a word) n \<longleftrightarrow>
     k \<le> n \<and> n < k + 8 \<and> bit w n"
  by (auto simp: bit_simps dest: bit_imp_le_length)

lemma bit_byte_at_0:
  "bit (ucast (ucast (w :: 'a::len word) :: byte) :: 'a word) n \<longleftrightarrow> n < 8 \<and> bit w n"
  by (auto simp: bit_simps dest: bit_imp_le_length)

lemma decode_encode_uint32 [simp]: "decode_uint32 (encode_uint32 v) = v"
proof (rule bit_word_eqI)
  fix n assume "n < LENGTH(32)"
  then have "n < 32" by simp
  then show "bit (decode_uint32 (encode_uint32 v)) n = bit v n"
    unfolding decode_uint32_def encode_uint32_def low_byte
    by (auto simp: bit_or_iff bit_byte_at bit_byte_at_0)
qed

lemma decode_uint64_prefix: "decode_uint64 (pre @ xs) (length pre) = decode_uint64 xs 0"
  by (simp add: decode_uint64_def nth_append numeral_2_eq_2)

lemma decode_encode_uint64_0: "decode_uint64 (encode_uint64 v @ post) 0 = Some v"
proof -
  let ?b = "\<lambda>k. push_bit k (ucast (ucast (drop_bit k v) :: byte)) :: u64"
  have "?b 56 OR ?b 48 OR ?b 40 OR ?b 32 OR ?b 24 OR ?b 16 OR ?b 8 OR ucast (ucast v :: byte) = v"
  proof (rule bit_word_eqI)
    fix n assume "n < LENGTH(64)"
    then have n: "n < 64" by simp
    show "bit (?b 56 OR ?b 48 OR ?b 40 OR ?b 32 OR ?b 24 OR ?b 16 OR ?b 8 OR ucast (ucast v :: byte)) n
        = bit v n"
      using n by (auto simp: bit_or_iff bit_byte_at bit_byte_at_0)
  qed
  then show ?thesis
    by (simp add: decode_uint64_def encode_uint64_def low_byte)
qed

lemma decode_encode_uint64: "decode_uint64 (pre @ encode_uint64 v @ post) (length pre) = Some v"
  by (simp only: decode_uint64_prefix decode_encode_uint64_0)

lemma length_encode_uint32 [simp]: "length (encode_uint32 v) = 4"
  by (simp add: encode_uint32_def)

lemma length_encode_uint64 [simp]: "length (encode_uint64 v) = 8"
  by (simp add: encode_uint64_def)

lemma decode_uint32_append [simp]: "length xs = 4 \<Longrightarrow> decode_uint32 (xs @ ys) = decode_uint32 xs"
  by (simp add: decode_uint32_def nth_append)

text \<open>The other direction: the decoder loses nothing, so each codec is a bijection.\<close>

lemma bit_byte_or:
  "bit (push_bit k (ucast (b :: byte)) :: 'a::len word) n \<longleftrightarrow>
     n < LENGTH('a) \<and> k \<le> n \<and> n < k + 8 \<and> bit b (n - k)"
  by (auto simp: bit_simps dest: bit_imp_le_length)

lemma bit_byte_or_0: "bit (ucast (b :: byte) :: 'a::len word) n \<longleftrightarrow> n < LENGTH('a) \<and> n < 8 \<and> bit b n"
  by (auto simp: bit_simps dest: bit_imp_le_length)

lemma encode_decode_uint32: "encode_uint32 (decode_uint32 [a, b, c, d]) = [a, b, c, d]"
proof -
  define w :: u32
    where "w = push_bit 24 (ucast a) OR push_bit 16 (ucast b) OR push_bit 8 (ucast c) OR ucast d"
  have dec: "decode_uint32 [a, b, c, d] = w"
    by (simp add: decode_uint32_def w_def)
  have "(ucast (drop_bit 24 w) :: byte) = a" "(ucast (drop_bit 16 w) :: byte) = b"
      "(ucast (drop_bit 8 w) :: byte) = c" "(ucast w :: byte) = d"
    unfolding w_def
    by (simp_all only: bit_eq_iff bit_ucast_iff bit_drop_bit_eq bit_or_iff bit_byte_or bit_byte_or_0)
       (auto simp: bit_or_iff bit_byte_or bit_byte_or_0 dest: bit_imp_le_length)
  then show ?thesis
    by (simp add: encode_uint32_def dec low_byte)
qed

lemma encode_decode_uint64_list:
  "decode_uint64 [a, b, c, d, e, f, g, h] 0 = Some w \<Longrightarrow> encode_uint64 w = [a, b, c, d, e, f, g, h]"
proof -
  assume "decode_uint64 [a, b, c, d, e, f, g, h] 0 = Some w"
  then have w_def: "w = push_bit 56 (ucast a) OR push_bit 48 (ucast b) OR push_bit 40 (ucast c) OR
      push_bit 32 (ucast d) OR push_bit 24 (ucast e) OR push_bit 16 (ucast f) OR
      push_bit 8 (ucast g) OR ucast h"
    by (simp add: decode_uint64_def numeral_2_eq_2)
  have "(ucast (drop_bit 56 w) :: byte) = a" "(ucast (drop_bit 48 w) :: byte) = b"
      "(ucast (drop_bit 40 w) :: byte) = c" "(ucast (drop_bit 32 w) :: byte) = d"
      "(ucast (drop_bit 24 w) :: byte) = e" "(ucast (drop_bit 16 w) :: byte) = f"
      "(ucast (drop_bit 8 w) :: byte) = g" "(ucast w :: byte) = h"
    unfolding w_def
    by (simp_all only: bit_eq_iff bit_ucast_iff bit_drop_bit_eq bit_or_iff bit_byte_or bit_byte_or_0)
       (auto simp: bit_or_iff bit_byte_or bit_byte_or_0 dest: bit_imp_le_length)
  then show ?thesis
    by (simp add: encode_uint64_def low_byte)
qed

section \<open>The codec interface\<close>

text \<open>
  What the frame format needs of an integer field: a fixed width, and a decoder that reads the
  value back from the front of any input. Fields are then self-delimiting.
\<close>

locale byte_codec =
  fixes enc :: "'v \<Rightarrow> bytes" and dec :: "bytes \<Rightarrow> 'v option" and width :: nat
  assumes enc_width: "length (enc v) = width"
    and dec_enc: "dec (enc v @ rest) = Some v"
begin

lemma enc_append_eq_iff: "enc v @ xs = enc w @ ys \<longleftrightarrow> v = w \<and> xs = ys"
proof
  assume eq: "enc v @ xs = enc w @ ys"
  then have "dec (enc w @ ys) = Some v"
    using dec_enc [of v xs] by simp
  then have "v = w"
    by (simp add: dec_enc)
  with eq show "v = w \<and> xs = ys" by simp
qed simp

lemma enc_inj: "enc v = enc w \<longleftrightarrow> v = w"
  using enc_append_eq_iff [of v "[]" w "[]"] by simp

lemma drop_enc: "drop width (enc v @ xs) = xs"
  by (simp add: enc_width)

lemma take_enc: "take width (enc v @ xs) = enc v"
  by (simp add: enc_width)

end

interpretation u32_codec: byte_codec encode_uint32 "\<lambda>bs. Some (decode_uint32 bs)" 4
  by unfold_locales simp_all

interpretation u64_codec: byte_codec encode_uint64 "\<lambda>bs. decode_uint64 bs 0" 8
  by unfold_locales (simp_all add: decode_encode_uint64_0)

section \<open>The frame format\<close>

text \<open>
  The abstract format: a message is its type and payload. \<open>frame_of\<close> is the frame the code
  builds for it; \<open>split_frame\<close> cuts the first frame's body off a byte stream, and
  \<open>message_of_body\<close> reads a body. The last two are the reference parser the reader of a
  connection is compared with.
\<close>

datatype message =
    Heartbeat
  | User_data bytes
  | Health_check
  | Health_check_response
  | Request request_id bytes
  | Response request_id bytes

fun frame_of :: "message \<Rightarrow> bytes" where
  "frame_of Heartbeat = make_heartbeat_frame"
| "frame_of (User_data data) = make_user_data_frame data"
| "frame_of Health_check = make_health_check_frame"
| "frame_of Health_check_response = make_health_check_response_frame"
| "frame_of (Request rid data) = make_request_frame rid data"
| "frame_of (Response rid data) = make_response_frame rid data"

fun body_of :: "message \<Rightarrow> bytes" where
  "body_of Heartbeat = [to_underlying heartbeat]"
| "body_of (User_data data) = to_underlying user_data # data"
| "body_of Health_check = [to_underlying health_check]"
| "body_of Health_check_response = [to_underlying health_check_response]"
| "body_of (Request rid data) = to_underlying request # encode_uint64 rid @ data"
| "body_of (Response rid data) = to_underlying response # encode_uint64 rid @ data"

fun payload_of :: "message \<Rightarrow> bytes" where
  "payload_of (User_data data) = data"
| "payload_of (Request _ data) = data"
| "payload_of (Response _ data) = data"
| "payload_of _ = []"

definition message_of_body :: "bytes \<Rightarrow> message option" where
  "message_of_body body =
     (case body of
        [] \<Rightarrow> None
      | b # payload \<Rightarrow>
          (case message_type_of_byte b of
             None \<Rightarrow> None
           | Some heartbeat \<Rightarrow> Some Heartbeat
           | Some user_data \<Rightarrow> Some (User_data payload)
           | Some health_check \<Rightarrow> Some Health_check
           | Some health_check_response \<Rightarrow> Some Health_check_response
           | Some request \<Rightarrow> map_option (\<lambda>rid. Request rid (drop 8 payload)) (decode_uint64 payload 0)
           | Some response \<Rightarrow> map_option (\<lambda>rid. Response rid (drop 8 payload)) (decode_uint64 payload 0)))"

definition split_frame :: "bytes \<Rightarrow> (bytes \<times> bytes) option" where
  "split_frame bs =
     (if length bs < 4 then None
      else let n = unat (decode_uint32 bs); rest = drop 4 bs
           in if length rest < n then None else Some (take n rest, drop n rest))"

text \<open>A stream of frames, parsed to the end; the fuel is the number of frames asked for.\<close>

fun parse_stream :: "nat \<Rightarrow> bytes \<Rightarrow> (message list \<times> bytes) option" where
  "parse_stream 0 bs = Some ([], bs)"
| "parse_stream (Suc n) bs =
     (case split_frame bs of
        None \<Rightarrow> None
      | Some (body, rest) \<Rightarrow>
          (case message_of_body body of
             None \<Rightarrow> None
           | Some m \<Rightarrow>
               (case parse_stream n rest of
                  None \<Rightarrow> None
                | Some (ms, rest') \<Rightarrow> Some (m # ms, rest'))))"

lemma length_body_of:
  "length (body_of m) = (case m of Request _ d \<Rightarrow> 9 + length d | Response _ d \<Rightarrow> 9 + length d
     | _ \<Rightarrow> 1 + length (payload_of m))"
  by (cases m) simp_all

lemma length_body_of_bounds:
  "1 \<le> length (body_of m)" "length (body_of m) \<le> 9 + length (payload_of m)"
  by (cases m; simp)+

lemma message_of_body_of [simp]: "message_of_body (body_of m) = Some m"
  by (cases m) (simp_all add: message_of_body_def decode_encode_uint64_0)

text \<open>
  The frame of a message is the 32-bit truncation of its body's length, then its body. The
  vector's size is below \<open>2 ^ 64\<close>, as every vector's is.
\<close>

lemma frame_of_eq:
  assumes "length (payload_of m) < 2 ^ 64"
  shows "frame_of m = encode_uint32 (of_nat (length (body_of m))) @ body_of m"
proof -
  have trunc: "(ucast (of_nat n :: u64) :: u32) = of_nat n" for n
    by (rule bit_word_eqI) (simp add: bit_simps)
  have s: "(ucast (1 + vsize d :: u64) :: u32) = of_nat (Suc (length d))"
    "(ucast (9 + vsize d :: u64) :: u32) = of_nat (9 + length d)" for d :: bytes
    using trunc [of "Suc (length d)"] trunc [of "9 + length d"] by (simp_all add: vsize_def)
  have pos: "0 < vsize d \<longleftrightarrow> d \<noteq> []" if "length d < 2 ^ 64" for d :: bytes
    using unat_vsize [OF that] by (auto simp: word_gt_0 simp flip: unat_eq_0)
  have one: "(of_nat (Suc 0) :: u32) = 1"
    by simp
  show ?thesis
    using assms
    by (cases m)
       (auto simp: make_user_data_frame_def make_frame_def Let_def type_size_def s pos one
          request_id_size_def unat_vsize
          make_heartbeat_frame_def make_health_check_frame_def make_health_check_response_frame_def
          make_request_frame_def make_response_frame_def make_request_response_frame_def
          simp del: of_nat_Suc of_nat_add)
qed

lemma split_frame_body:
  assumes "length body < 2 ^ 32"
  shows "split_frame (encode_uint32 (of_nat (length body)) @ body @ rest) = Some (body, rest)"
  using assms by (simp add: split_frame_def Let_def unat_of_nat)

lemma split_frame_of:
  assumes "length (payload_of m) + 9 < 2 ^ 32"
  shows "split_frame (frame_of m @ rest) = Some (body_of m, rest)"
proof -
  have "frame_of m = encode_uint32 (of_nat (length (body_of m))) @ body_of m"
    using assms by (intro frame_of_eq) simp
  moreover have "length (body_of m) < 2 ^ 32"
    using assms length_body_of_bounds(2) [of m] by linarith
  ultimately show ?thesis
    by (simp only: append_assoc split_frame_body)
qed

lemma parse_stream_frames:
  assumes "\<And>m. m \<in> set ms \<Longrightarrow> length (payload_of m) + 9 < 2 ^ 32"
  shows "parse_stream (length ms) (concat (map frame_of ms) @ rest) = Some (ms, rest)"
  using assms
proof (induction ms)
  case Nil
  then show ?case by simp
next
  case (Cons m ms)
  then show ?case by (simp add: split_frame_of)
qed

section \<open>Properties\<close>

lemma list_of_length_4: "length bs = 4 \<Longrightarrow> \<exists>a b c d. bs = [a, b, c, d]"
  by (auto simp: numeral_eq_Suc length_Suc_conv)

lemma list_of_length_8: "length bs = 8 \<Longrightarrow> \<exists>a b c d e f g h. bs = [a, b, c, d, e, f, g, h]"
  by (auto simp: numeral_eq_Suc length_Suc_conv)

lemma decode_uint64_window:
  "offset + 8 \<le> length input \<Longrightarrow> decode_uint64 input offset = decode_uint64 (take 8 (drop offset input)) 0"
  by (simp add: decode_uint64_def)

text \<open>The 32-bit codec is a bijection between words and four bytes: decoding inverts
  encoding, and encoding inverts decoding, so the length field of a frame carries every value
  and means one value.\<close>

theorem uint32_codec_bijective:
  "decode_uint32 (encode_uint32 v) = v \<and>
   (length bs = 4 \<longrightarrow> encode_uint32 (decode_uint32 bs) = bs)"
proof (intro conjI impI)
  show "encode_uint32 (decode_uint32 bs) = bs" if "length bs = 4"
    using list_of_length_4 [OF that] encode_decode_uint32 by blast
qed simp

lemma uint32_codec_bijective_witness:
  "encode_uint32 (decode_uint32 [1, 2, 3, 255]) = [1, 2, 3, 255]"
  using uint32_codec_bijective [of 0 "[1, 2, 3, 255]"] by simp

text \<open>The 64-bit codec at any offset of any buffer: it reads back the encoded value
  whatever surrounds it, it reads outside the buffer exactly when fewer than eight bytes follow
  the offset, and otherwise the eight bytes are the encoding of the value read.\<close>

theorem uint64_codec_at_offset:
  "decode_uint64 (pre @ encode_uint64 v @ suf) (length pre) = Some v \<and>
   (decode_uint64 input offset = None \<longleftrightarrow> length input < offset + 8) \<and>
   (decode_uint64 input offset = Some w \<longrightarrow> take 8 (drop offset input) = encode_uint64 w)"
proof (intro conjI impI)
  show "decode_uint64 (pre @ encode_uint64 v @ suf) (length pre) = Some v"
    by (rule decode_encode_uint64)
  show "decode_uint64 input offset = None \<longleftrightarrow> length input < offset + 8"
    by (auto simp: decode_uint64_def)
  assume w: "decode_uint64 input offset = Some w"
  then have len: "offset + 8 \<le> length input"
    by (auto simp: decode_uint64_def split: if_splits)
  have "decode_uint64 (take 8 (drop offset input)) 0 = Some w"
    by (rule trans [OF decode_uint64_window [OF len, symmetric] w])
  moreover have "length (take 8 (drop offset input)) = 8"
    using len by simp
  ultimately show "take 8 (drop offset input) = encode_uint64 w"
    using list_of_length_8 encode_decode_uint64_list by metis
qed

lemma uint64_codec_at_offset_witness:
  "take 8 (drop 1 [4, 0, 0, 0, 0, 0, 0, 1, 2, 9]) = encode_uint64 258"
proof -
  have "decode_uint64 [4, 0, 0, 0, 0, 0, 0, 1, 2, 9] 1 = Some 258" by code_simp
  then show ?thesis
    using uint64_codec_at_offset [of "[]" 0 "[]" "[4, 0, 0, 0, 0, 0, 0, 1, 2, 9]" 1 258] by blast
qed

text \<open>C35: Framing is unambiguous. Any sequence of messages whose bodies fit the length field,
  sent as the frames the code builds one after the other and followed by anything, parses back
  to exactly these messages, and leaves what followed.\<close>

theorem frames_parse_back:
  assumes "\<forall>m \<in> set ms. length (payload_of m) + 9 < 2 ^ 32"
  shows "parse_stream (length ms) (concat (map frame_of ms) @ rest) = Some (ms, rest)"
  using assms by (intro parse_stream_frames) blast

lemma frames_parse_back_witness:
  "parse_stream 3 (concat (map frame_of [Heartbeat, User_data [1], Request 5 [2]]) @ [7]) =
     Some ([Heartbeat, User_data [1], Request 5 [2]], [7])"
proof -
  have three: "3 = length [Heartbeat, User_data [1], Request 5 [2]]" by simp
  show ?thesis unfolding three by (rule frames_parse_back) simp
qed

end
