(* ===== verification/Options.thy ===== *)
theory Options
  imports Types
begin

text \<open>
  The options of connections, clients and servers (\<^verbatim>\<open>options.hpp\<close>): the parameter structures
  with their default member initialisers, the constructors, and the lower bound on scheduling
  intervals. Durations are \<^verbatim>\<open>std::chrono::milliseconds\<close>, modelled as \<open>int\<close>.
\<close>

type_synonym milliseconds = int

definition normalize_scheduling_interval :: "milliseconds \<Rightarrow> milliseconds" where
  "normalize_scheduling_interval value =
     (let minimum_interval = 100 in if value < minimum_interval then minimum_interval else value)"

lemma normalize_scheduling_interval_bounds [simp]:
  "100 \<le> normalize_scheduling_interval v" "v \<le> normalize_scheduling_interval v"
  by (auto simp: normalize_scheduling_interval_def Let_def)

lemma normalize_scheduling_interval_idem [simp]:
  "normalize_scheduling_interval (normalize_scheduling_interval v) = normalize_scheduling_interval v"
  by (auto simp: normalize_scheduling_interval_def Let_def)

record common_parameters =
  max_message_size :: size_t
  max_send_queue_size :: size_t
  heartbeat_interval :: milliseconds
  heartbeat_timeout :: milliseconds
  read_timeout :: milliseconds
  write_timeout :: milliseconds
  invalidate_connection_on_request_error :: bool

definition default_common_parameters :: common_parameters where
  "default_common_parameters =
     \<lparr>max_message_size = 32 * 1024,
      max_send_queue_size = 1024,
      heartbeat_interval = 3000,
      heartbeat_timeout = 10000,
      read_timeout = 5000,
      write_timeout = 5000,
      invalidate_connection_on_request_error = True\<rparr>"

record client_parameters =
  reconnect_interval :: milliseconds

definition default_client_parameters :: client_parameters where
  "default_client_parameters = \<lparr>reconnect_interval = 1000\<rparr>"

record server_parameters =
  bind_retry_interval :: milliseconds
  socket_path_health_check_interval :: milliseconds
  socket_path_health_check_timeout :: milliseconds

definition default_server_parameters :: server_parameters where
  "default_server_parameters =
     \<lparr>bind_retry_interval = 1000,
      socket_path_health_check_interval = 3000,
      socket_path_health_check_timeout = 1000\<rparr>"

text \<open>
  \<^verbatim>\<open>client_options\<close> and \<^verbatim>\<open>server_options\<close> derive from \<^verbatim>\<open>common_options\<close>; the one-argument
  constructors delegate to the two-argument ones with default parameters.
\<close>

record common_options =
  common_params :: common_parameters

record client_options = common_options +
  client_params :: client_parameters

record server_options = common_options +
  server_params :: server_parameters

definition client_options_with :: "common_parameters \<Rightarrow> client_parameters \<Rightarrow> client_options" where
  "client_options_with common parameters =
     \<lparr>common_params = common, client_params = parameters\<rparr>"

definition client_options_of :: "common_parameters \<Rightarrow> client_options" where
  "client_options_of common = client_options_with common default_client_parameters"

definition default_client_options :: client_options where
  "default_client_options =
     \<lparr>common_params = default_common_parameters, client_params = default_client_parameters\<rparr>"

definition server_options_with :: "common_parameters \<Rightarrow> server_parameters \<Rightarrow> server_options" where
  "server_options_with common parameters =
     \<lparr>common_params = common, server_params = parameters\<rparr>"

definition server_options_of :: "common_parameters \<Rightarrow> server_options" where
  "server_options_of common = server_options_with common default_server_parameters"

definition default_server_options :: server_options where
  "default_server_options =
     \<lparr>common_params = default_common_parameters, server_params = default_server_parameters\<rparr>"

lemma default_options_of:
  "client_options_of default_common_parameters = default_client_options"
  "server_options_of default_common_parameters = default_server_options"
  by (simp_all add: client_options_of_def client_options_with_def default_client_options_def
      server_options_of_def server_options_with_def default_server_options_def)

end
