(* ===== verification/Dispatcher.thy ===== *)
theory Dispatcher
  imports Prelude "HOL-Library.Sublist"
begin

text \<open>
  The dispatcher the library runs its callbacks on (\<^verbatim>\<open>pqrs/dispatcher/dispatcher.hpp\<close> and
  \<^verbatim>\<open>extra/dispatcher_client.hpp\<close>, vendored with the repository): a queue of entries sorted by
  due time and served by one worker thread, and the set of attached object ids. A function is a
  value of a type \<open>'f\<close>; running one is left to the component that enqueued it. Times are
  milliseconds since the epoch, as \<open>int\<close>.
\<close>

section \<open>State and operations\<close>

record 'f entry =
  object_id_value :: u64
  entry_function :: 'f
  entry_when :: int

record 'f dispatcher =
  queue :: "'f entry list"
  exit_flag :: bool
  object_ids :: "u64 set"
  own_object_id :: u64
  running_function_object_id :: "u64 option"

definition when_internal_detached :: int where "when_internal_detached = 0"
definition when_immediately :: int where "when_immediately = 1"

definition attach :: "u64 \<Rightarrow> 'f dispatcher \<Rightarrow> bool \<times> 'f dispatcher" where
  "attach object_id d =
     (if exit_flag d then (False, d)
      else (True, d\<lparr>object_ids := insert object_id (object_ids d)\<rparr>))"

text \<open>The constructor attaches the dispatcher's own id, used for detach functions.\<close>

definition new_dispatcher :: "u64 \<Rightarrow> 'f dispatcher" where
  "new_dispatcher own =
     snd (attach own \<lparr>queue = [], exit_flag = False, object_ids = {}, own_object_id = own,
                      running_function_object_id = None\<rparr>)"

definition attached :: "u64 \<Rightarrow> 'f dispatcher \<Rightarrow> bool" where
  "attached object_id d = (object_id \<in> object_ids d)"

text \<open>
  \<^verbatim>\<open>std::ranges::upper_bound\<close> on the sorted queue: the position after the last entry that is
  not due later than \<open>when\<close>.
\<close>

definition insert_by_when :: "'f entry \<Rightarrow> 'f entry list \<Rightarrow> 'f entry list" where
  "insert_by_when e q =
     takeWhile (\<lambda>x. \<not> entry_when e < entry_when x) q @ e #
     dropWhile (\<lambda>x. \<not> entry_when e < entry_when x) q"

definition enqueue :: "u64 \<Rightarrow> 'f \<Rightarrow> int \<Rightarrow> 'f dispatcher \<Rightarrow> bool \<times> 'f dispatcher" where
  "enqueue object_id f when d =
     (if object_id \<notin> object_ids d then (False, d)
      else if exit_flag d then (False, d)
      else let new_entry = \<lparr>object_id_value = object_id, entry_function = f, entry_when = when\<rparr>
           in (True, d\<lparr>queue := (if when = when_internal_detached then new_entry # queue d
                                 else insert_by_when new_entry (queue d))\<rparr>))"

text \<open>The first part of \<^verbatim>\<open>detach\<close>, under both locks.\<close>

definition detach :: "u64 \<Rightarrow> 'f dispatcher \<Rightarrow> bool \<times> 'f dispatcher" where
  "detach object_id d =
     (if object_id \<notin> object_ids d then (False, d)
      else (True, d\<lparr>object_ids := object_ids d - {object_id},
                    queue := filter (\<lambda>e. object_id_value e \<noteq> object_id) (queue d)\<rparr>))"

text \<open>
  The second part: \<^verbatim>\<open>detach\<close> called from another thread than the worker blocks until this
  holds.
\<close>

definition detach_may_return :: "bool \<Rightarrow> u64 \<Rightarrow> 'f dispatcher \<Rightarrow> bool" where
  "detach_may_return dispatcher_thread object_id d =
     (dispatcher_thread \<or> running_function_object_id d \<noteq> Some object_id)"

text \<open>
  \<^verbatim>\<open>detach\<close> with a cleanup function: inline on the worker thread (\<open>Some f\<close> in the second
  component, to be run now), else put in front of the queue under the dispatcher's own id.
\<close>

definition detach_with :: "bool \<Rightarrow> u64 \<Rightarrow> 'f \<Rightarrow> 'f dispatcher \<Rightarrow> 'f dispatcher \<times> 'f option" where
  "detach_with dispatcher_thread object_id f d =
     (case detach object_id d of
        (False, d') \<Rightarrow> (d', None)
      | (True, d') \<Rightarrow>
          (if dispatcher_thread then (d', Some f)
           else (snd (enqueue (own_object_id d') f when_internal_detached d'), None)))"

definition running_detached_function :: "'f dispatcher \<Rightarrow> bool" where
  "running_detached_function d = (running_function_object_id d = Some (own_object_id d))"

definition terminate :: "'f dispatcher \<Rightarrow> 'f dispatcher" where
  "terminate d = d\<lparr>exit_flag := True\<rparr>"

text \<open>
  \<^verbatim>\<open>time_source\<close> is the current time, or \<open>None\<close> when the time source is gone.
\<close>

definition calculate_duration :: "int option \<Rightarrow> 'f dispatcher \<Rightarrow> int" where
  "calculate_duration time_source d =
     (let now = (case time_source of None \<Rightarrow> when_immediately
                 | Some n \<Rightarrow> if when_immediately < n then n else when_immediately);
          when = (case queue d of [] \<Rightarrow> when_immediately | e # _ \<Rightarrow> entry_when e)
      in if now < when then when - now else 0)"

text \<open>
  One iteration of the worker's loop, from the moment its wait ends: leave the loop, wait
  again, or take the front entry. The owner of a taken entry is marked as running under another
  lock, so \<open>detach\<close> can come in between.
\<close>

datatype 'f worker_action = Exit_loop | Continue | Run "'f entry"

definition worker_iteration :: "int option \<Rightarrow> 'f dispatcher \<Rightarrow> 'f worker_action \<times> 'f dispatcher" where
  "worker_iteration time_source d =
     (if exit_flag d then (Exit_loop, d)
      else if calculate_duration time_source d > 0 then (Continue, d)
      else (case queue d of
              [] \<Rightarrow> (Continue, d)
            | e # q \<Rightarrow> (Run e, d\<lparr>queue := q\<rparr>)))"

definition mark_running :: "'f entry \<Rightarrow> 'f dispatcher \<Rightarrow> 'f dispatcher" where
  "mark_running e d = d\<lparr>running_function_object_id := Some (object_id_value e)\<rparr>"

text \<open>The wrapper \<^verbatim>\<open>enqueue\<close> puts around the function: it runs only if its owner is attached.\<close>

definition call_function :: "'f entry \<Rightarrow> 'f dispatcher \<Rightarrow> 'f option" where
  "call_function e d =
     (if object_id_value e \<in> object_ids d then Some (entry_function e) else None)"

definition finish_function :: "'f dispatcher \<Rightarrow> 'f dispatcher" where
  "finish_function d = d\<lparr>running_function_object_id := None\<rparr>"

section \<open>dispatcher\_client\<close>

text \<open>
  A client holds a weak reference to the dispatcher: \<open>None\<close> when it is gone.
\<close>

definition enqueue_to_dispatcher ::
    "u64 \<Rightarrow> 'f \<Rightarrow> int \<Rightarrow> 'f dispatcher option \<Rightarrow> bool \<times> 'f dispatcher option" where
  "enqueue_to_dispatcher object_id f when weak =
     (case weak of
        None \<Rightarrow> (False, None)
      | Some d \<Rightarrow> (case enqueue object_id f when d of (ok, d') \<Rightarrow> (ok, Some d')))"

definition when_now :: "int option \<Rightarrow> 'f dispatcher option \<Rightarrow> int" where
  "when_now time_source weak =
     (case weak of
        None \<Rightarrow> when_immediately
      | Some _ \<Rightarrow> (case time_source of None \<Rightarrow> when_immediately | Some n \<Rightarrow> n))"

section \<open>The queue stays sorted and owned\<close>

lemmas when_defs = when_internal_detached_def when_immediately_def

definition queue_sorted :: "'f dispatcher \<Rightarrow> bool" where
  "queue_sorted d \<longleftrightarrow> sorted (map entry_when (queue d)) \<and> (\<forall>e \<in> set (queue d). 0 \<le> entry_when e)"

definition queue_owned :: "'f dispatcher \<Rightarrow> bool" where
  "queue_owned d \<longleftrightarrow> (\<forall>e \<in> set (queue d). object_id_value e \<in> object_ids d)"

definition dispatcher_inv :: "'f dispatcher \<Rightarrow> bool" where
  "dispatcher_inv d \<longleftrightarrow> queue_sorted d \<and> queue_owned d"

lemma set_insert_by_when [simp]: "set (insert_by_when e q) = insert e (set q)"
  by (simp only: insert_by_when_def takeWhile_dropWhile_insert_set)

lemma length_insert_by_when [simp]: "length (insert_by_when e q) = Suc (length q)"
proof -
  have "length (takeWhile P q) + length (dropWhile P q) = length q" for P
    by (metis length_append takeWhile_dropWhile_id)
  then show ?thesis by (simp add: insert_by_when_def)
qed

lemma insert_by_when_Cons:
  "insert_by_when e (x # q) =
     (if entry_when e < entry_when x then e # x # q else x # insert_by_when e q)"
  by (simp add: insert_by_when_def)

lemma insert_by_when_Nil [simp]: "insert_by_when e [] = [e]"
  by (simp add: insert_by_when_def)

lemma sorted_insert_by_when:
  "sorted (map entry_when q) \<Longrightarrow> sorted (map entry_when (insert_by_when e q))"
  by (induction q) (auto simp: insert_by_when_Cons)

text \<open>
  Stability: among the entries due at the same time the new one is last, and no other class of
  entries is disturbed.
\<close>

lemma filter_insert_by_when:
  assumes "sorted (map entry_when q)"
  shows "filter (\<lambda>x. entry_when x = t) (insert_by_when e q) =
     filter (\<lambda>x. entry_when x = t) q @ (if entry_when e = t then [e] else [])"
  using assms
proof (induction q)
  case Nil
  then show ?case by simp
next
  case (Cons x q)
  have late: "filter (\<lambda>y. entry_when y = entry_when e) (x # q) = []"
    if "entry_when e < entry_when x"
    using that Cons.prems by (fastforce simp: filter_empty_conv)
  show ?case
    using Cons late by (auto simp: insert_by_when_Cons)
qed

lemma filter_insert_by_when_other:
  assumes "\<not> P e"
  shows "filter P (insert_by_when e q) = filter P q"
  using assms by (induction q) (auto simp: insert_by_when_Cons)

lemma enqueue_inv:
  assumes "dispatcher_inv d" and "0 \<le> when"
  shows "dispatcher_inv (snd (enqueue oid f when d))"
  using assms
  by (auto simp: dispatcher_inv_def queue_sorted_def queue_owned_def enqueue_def Let_def when_defs
      sorted_insert_by_when)

lemma detach_inv: "dispatcher_inv d \<Longrightarrow> dispatcher_inv (snd (detach oid d))"
  by (auto simp: dispatcher_inv_def queue_sorted_def queue_owned_def detach_def
      sorted_filter)

lemma attach_inv: "dispatcher_inv d \<Longrightarrow> dispatcher_inv (snd (attach oid d))"
  by (auto simp: dispatcher_inv_def queue_sorted_def queue_owned_def attach_def)

lemma terminate_inv: "dispatcher_inv d \<Longrightarrow> dispatcher_inv (terminate d)"
  by (auto simp: dispatcher_inv_def queue_sorted_def queue_owned_def terminate_def)

lemma finish_inv: "dispatcher_inv d \<Longrightarrow> dispatcher_inv (finish_function d)"
  by (auto simp: dispatcher_inv_def queue_sorted_def queue_owned_def finish_function_def)

lemma worker_iteration_inv:
  "dispatcher_inv d \<Longrightarrow> dispatcher_inv (snd (worker_iteration now d))"
  by (auto simp: dispatcher_inv_def queue_sorted_def queue_owned_def worker_iteration_def
      split: list.splits)

section \<open>The queue as a stable sort\<close>

text \<open>Many calls of \<^verbatim>\<open>enqueue\<close>, one after the other.\<close>

fun enqueue_all :: "'f entry list \<Rightarrow> 'f dispatcher \<Rightarrow> 'f dispatcher" where
  "enqueue_all [] d = d"
| "enqueue_all (e # es) d =
     enqueue_all es (snd (enqueue (object_id_value e) (entry_function e) (entry_when e) d))"

lemma mset_insert_by_when: "mset (insert_by_when e q) = add_mset e (mset q)"
proof -
  have "mset (takeWhile P q) + mset (dropWhile P q) = mset q" for P
    by (simp flip: mset_append)
  then show ?thesis by (simp add: insert_by_when_def)
qed

lemma insert_by_when_sort:
  assumes "sorted (map entry_when q)"
  shows "insert_by_when e q = sort_key entry_when (q @ [e])"
proof (rule properties_for_sort_key [symmetric])
  show "mset (insert_by_when e q) = mset (q @ [e])" by (simp add: mset_insert_by_when)
  show "filter (\<lambda>x. entry_when k = entry_when x) (insert_by_when e q) =
      filter (\<lambda>x. entry_when k = entry_when x) (q @ [e])" for k :: "'a entry"
    using filter_insert_by_when [OF assms, of "entry_when k" e] by (simp add: eq_commute)
qed (rule sorted_insert_by_when [OF assms])

lemma sort_key_append: "sort_key f (sort_key f xs @ ys) = sort_key f (xs @ ys)"
proof (rule properties_for_sort_key)
  have "filter (\<lambda>x. f x = f k) (sort_key f zs) = filter (\<lambda>x. f x = f k) zs" for k zs
    by (rule sort_key_stable)
  then show "filter (\<lambda>x. f k = f x) (sort_key f (xs @ ys)) = filter (\<lambda>x. f k = f x) (sort_key f xs @ ys)" for k
    by (simp add: eq_commute [of "f k"])
qed simp_all

lemma enqueue_all_sort:
  assumes "dispatcher_inv d" and "\<not> exit_flag d" and "\<forall>e \<in> set es. 1 \<le> entry_when e"
  shows "queue (enqueue_all es d) =
    sort_key entry_when (queue d @ filter (\<lambda>e. object_id_value e \<in> object_ids d) es)"
  using assms
proof (induction es arbitrary: d)
  case Nil
  then have "sort_key entry_when (queue d) = queue d"
    by (intro properties_for_sort_key) (simp_all add: dispatcher_inv_def queue_sorted_def)
  then show ?case by simp
next
  case (Cons e es)
  let ?d = "snd (enqueue (object_id_value e) (entry_function e) (entry_when e) d)"
  have inv: "dispatcher_inv ?d" using enqueue_inv [OF Cons.prems(1)] Cons.prems(3) by simp
  have same: "exit_flag ?d = exit_flag d" "object_ids ?d = object_ids d"
    by (simp_all add: enqueue_def Let_def)
  have "queue ?d = (if object_id_value e \<in> object_ids d then sort_key entry_when (queue d @ [e]) else queue d)"
    using Cons.prems insert_by_when_sort [of "queue d" e]
    by (cases e) (simp add: enqueue_def Let_def dispatcher_inv_def queue_sorted_def when_defs)
  then show ?case
    using Cons.IH [OF inv] Cons.prems same
      sort_key_append [of entry_when "queue d @ [e]" "filter (\<lambda>e. object_id_value e \<in> object_ids d) es"]
    by simp
qed

section \<open>The dispatcher under concurrent use\<close>

text \<open>
  The worker thread and any number of client threads, interleaved at the granularity of the
  locks. \<open>current\<close> is the entry the worker has taken, with how far the worker is with it; \<open>accepted\<close>, \<open>taken\<close> and \<open>started\<close> are histories: the entries put into
  the queue, taken from it, and started. \<open>detached\<close> is the set of ids that have been detached.
\<close>

datatype worker_phase = Taken | Marked | Started

record 'f dispatcher_system =
  dsp :: "'f dispatcher"
  current :: "('f entry \<times> worker_phase) option"
  accepted :: "'f entry list"
  taken :: "'f entry list"
  started :: "'f entry list"
  detached :: "u64 set"

datatype 'f dispatcher_label =
    L_attach u64
  | L_enqueue u64 'f int
  | L_detach u64
  | L_detach_with u64 'f
  | L_terminate
  | L_take "int option"
  | L_mark
  | L_start
  | L_finish

definition initial_system :: "u64 \<Rightarrow> 'f dispatcher_system" where
  "initial_system own =
     \<lparr>dsp = new_dispatcher own, current = None, accepted = [], taken = [], started = [],
      detached = {}\<rparr>"

inductive dispatcher_step ::
    "'f dispatcher_system \<Rightarrow> 'f dispatcher_label \<Rightarrow> 'f dispatcher_system \<Rightarrow> bool" where
  ds_attach: "attach oid (dsp s) = (ok, d) \<Longrightarrow> dispatcher_step s (L_attach oid) (s\<lparr>dsp := d\<rparr>)"
| ds_enqueue: "enqueue oid f when (dsp s) = (ok, d) \<Longrightarrow> 1 \<le> when \<Longrightarrow>
    dispatcher_step s (L_enqueue oid f when)
      (s\<lparr>dsp := d,
         accepted := accepted s @ (if ok then [\<lparr>object_id_value = oid, entry_function = f,
           entry_when = when\<rparr>] else [])\<rparr>)"
| ds_detach: "detach oid (dsp s) = (ok, d) \<Longrightarrow> oid \<noteq> own_object_id (dsp s) \<Longrightarrow>
    dispatcher_step s (L_detach oid) (s\<lparr>dsp := d, detached := insert oid (detached s)\<rparr>)"
| ds_detach_with: "detach_with False oid f (dsp s) = (d, None) \<Longrightarrow> oid \<noteq> own_object_id (dsp s) \<Longrightarrow>
    dispatcher_step s (L_detach_with oid f) (s\<lparr>dsp := d, detached := insert oid (detached s)\<rparr>)"
| ds_terminate: "dispatcher_step s L_terminate (s\<lparr>dsp := terminate (dsp s)\<rparr>)"
| ds_take: "current s = None \<Longrightarrow> worker_iteration now (dsp s) = (Run e, d) \<Longrightarrow>
    dispatcher_step s (L_take now) (s\<lparr>dsp := d, current := Some (e, Taken), taken := taken s @ [e]\<rparr>)"
| ds_mark: "current s = Some (e, Taken) \<Longrightarrow>
    dispatcher_step s L_mark (s\<lparr>current := Some (e, Marked), dsp := mark_running e (dsp s)\<rparr>)"
| ds_start: "current s = Some (e, Marked) \<Longrightarrow> call_function e (dsp s) = Some f \<Longrightarrow>
    dispatcher_step s L_start (s\<lparr>current := Some (e, Started), started := started s @ [e]\<rparr>)"
| ds_finish: "current s = Some (e, phase) \<Longrightarrow>
    phase = Started \<or> phase = Marked \<and> call_function e (dsp s) = None \<Longrightarrow>
    dispatcher_step s L_finish (s\<lparr>current := None, dsp := finish_function (dsp s)\<rparr>)"

inductive_cases dispatcher_stepE: "dispatcher_step s l t"

text \<open>Entries of one object due at one time: the class whose order is kept.\<close>

definition same_class :: "u64 \<Rightarrow> int \<Rightarrow> 'f entry \<Rightarrow> bool" where
  "same_class oid t e \<longleftrightarrow> object_id_value e = oid \<and> entry_when e = t"

definition history_inv :: "'f dispatcher_system \<Rightarrow> bool" where
  "history_inv s \<longleftrightarrow>
     (\<forall>oid t. oid \<notin> detached s \<longrightarrow> oid \<noteq> own_object_id (dsp s) \<longrightarrow>
        filter (same_class oid t) (taken s) @ filter (same_class oid t) (queue (dsp s)) =
        filter (same_class oid t) (accepted s))"

definition current_inv :: "'f dispatcher_system \<Rightarrow> bool" where
  "current_inv s \<longleftrightarrow>
     running_function_object_id (dsp s) =
       (case current s of None \<Rightarrow> None
        | Some (e, phase) \<Rightarrow> if phase = Taken then None else Some (object_id_value e))"

definition dispatcher_system_inv :: "'f dispatcher_system \<Rightarrow> bool" where
  "dispatcher_system_inv s \<longleftrightarrow>
     dispatcher_inv (dsp s) \<and> history_inv s \<and> current_inv s"

lemma filter_class_insert:
  assumes "sorted (map entry_when q)"
  shows "filter (same_class oid t) (insert_by_when e q) =
     filter (same_class oid t) q @ (if same_class oid t e then [e] else [])"
proof -
  have eq: "filter (same_class oid t) xs =
      filter (\<lambda>x. object_id_value x = oid) (filter (\<lambda>x. entry_when x = t) xs)" for xs :: "'a entry list"
    by (induction xs) (auto simp: same_class_def)
  show ?thesis
    by (simp add: eq filter_insert_by_when assms) (simp add: same_class_def)
qed

lemma initial_system_inv: "dispatcher_system_inv (initial_system own)"
  by (simp add: dispatcher_system_inv_def initial_system_def dispatcher_inv_def queue_sorted_def
      queue_owned_def history_inv_def current_inv_def new_dispatcher_def attach_def)

lemma enqueue_fields:
  "own_object_id (snd (enqueue oid f w d)) = own_object_id d"
  "running_function_object_id (snd (enqueue oid f w d)) = running_function_object_id d"
  "object_ids (snd (enqueue oid f w d)) = object_ids d"
  "exit_flag (snd (enqueue oid f w d)) = exit_flag d"
  by (simp_all add: enqueue_def Let_def)

lemma detach_fields:
  "own_object_id (snd (detach oid d)) = own_object_id d"
  "running_function_object_id (snd (detach oid d)) = running_function_object_id d"
  "object_ids (snd (detach oid d)) = object_ids d - {oid}"
  "exit_flag (snd (detach oid d)) = exit_flag d"
  by (auto simp: detach_def)

lemma history_enqueue:
  assumes "dispatcher_system_inv s" and "enqueue oid f w (dsp s) = (ok, d)" and "1 \<le> w"
  shows "history_inv (s\<lparr>dsp := d, accepted := accepted s @
     (if ok then [\<lparr>object_id_value = oid, entry_function = f, entry_when = w\<rparr>] else [])\<rparr>)"
  using assms
  by (auto simp: history_inv_def dispatcher_system_inv_def dispatcher_inv_def queue_sorted_def
      enqueue_def Let_def when_defs filter_class_insert split: if_splits)

lemma class_detach:
  assumes "detach oid d = (ok, d')" and "oid' \<noteq> oid"
  shows "filter (same_class oid' t) (queue d') = filter (same_class oid' t) (queue d)"
proof -
  have "filter (\<lambda>e. object_id_value e \<noteq> oid \<and> same_class oid' t e) q = filter (same_class oid' t) q" for q
    by (rule filter_cong) (use assms(2) in \<open>auto simp: same_class_def\<close>)
  then show ?thesis
    using assms(1) by (auto simp: detach_def split: if_splits)
qed

lemma detach_with_other_thread:
  "fst (detach_with False oid f d) =
     (let d1 = snd (detach oid d)
      in if fst (detach oid d) then snd (enqueue (own_object_id d1) f when_internal_detached d1)
         else d1)"
  by (cases "detach oid d") (simp add: detach_with_def split: bool.split)

lemma class_detach_with:
  assumes "oid' \<noteq> oid" and "oid' \<noteq> own_object_id d"
  shows "filter (same_class oid' t) (queue (fst (detach_with False oid f d))) =
     filter (same_class oid' t) (queue d)"
proof -
  obtain ok d1 where d1: "detach oid d = (ok, d1)" by fastforce
  have "own_object_id d1 = own_object_id d"
    using detach_fields(1) [of oid d] d1 by simp
  then have "filter (same_class oid' t) (queue (fst (detach_with False oid f d))) =
      filter (same_class oid' t) (queue d1)"
    using assms(2) by (simp add: detach_with_other_thread d1 enqueue_def Let_def same_class_def)
  then show ?thesis by (simp add: class_detach [OF d1 assms(1)])
qed

lemma detach_with_fields:
  "running_function_object_id (fst (detach_with False oid f d)) = running_function_object_id d"
  "own_object_id (fst (detach_with False oid f d)) = own_object_id d"
  "exit_flag (fst (detach_with False oid f d)) = exit_flag d"
  "object_ids (fst (detach_with False oid f d)) = object_ids d - {oid}"
  by (simp_all add: detach_with_other_thread Let_def enqueue_fields detach_fields)

lemma history_detach:
  assumes "history_inv s" and "detach oid (dsp s) = (ok, d)"
  shows "history_inv (s\<lparr>dsp := d, detached := insert oid (detached s)\<rparr>)"
proof -
  have "own_object_id d = own_object_id (dsp s)"
    using detach_fields(1) [of oid "dsp s"] assms(2) by simp
  then show ?thesis
    using assms(1) by (simp add: history_inv_def class_detach [OF assms(2)])
qed

lemma history_detach_with:
  assumes "history_inv s"
  shows "history_inv (s\<lparr>dsp := fst (detach_with False oid f (dsp s)),
     detached := insert oid (detached s)\<rparr>)"
  using assms by (simp add: history_inv_def class_detach_with detach_with_fields)

lemma history_take:
  assumes "history_inv s" and "worker_iteration now (dsp s) = (Run e, d)"
  shows "history_inv (s\<lparr>dsp := d, current := c, taken := taken s @ [e]\<rparr>)"
  using assms
  by (auto simp: history_inv_def worker_iteration_def split: if_splits list.splits) metis+

lemma detach_with_inv:
  "dispatcher_inv d \<Longrightarrow> dispatcher_inv (fst (detach_with False oid f d))"
  by (simp add: detach_with_other_thread Let_def detach_inv enqueue_inv when_defs)

lemma dispatcher_step_inv:
  assumes "dispatcher_system_inv s" and "dispatcher_step s l t"
  shows "dispatcher_system_inv t"
  using assms(2,1)
proof (induction rule: dispatcher_step.induct)
  case (ds_attach oid s ok d)
  then have "d = snd (attach oid (dsp s))" by simp
  then show ?case
    using ds_attach.prems attach_inv [of "dsp s" oid]
    by (auto simp: dispatcher_system_inv_def history_inv_def current_inv_def attach_def)
next
  case (ds_enqueue oid f w s ok d)
  have "dispatcher_inv d" "running_function_object_id d = running_function_object_id (dsp s)"
    using enqueue_inv [of "dsp s" w oid f] enqueue_fields(2) [of oid f w "dsp s"] ds_enqueue
    by (simp_all add: dispatcher_system_inv_def)
  then show ?case
    using ds_enqueue.prems history_enqueue [OF ds_enqueue.prems ds_enqueue.hyps]
    by (simp add: dispatcher_system_inv_def current_inv_def)
next
  case (ds_detach oid s ok d)
  have "dispatcher_inv d" "running_function_object_id d = running_function_object_id (dsp s)"
    using detach_inv [of "dsp s" oid] detach_fields(2) [of oid "dsp s"] ds_detach
    by (simp_all add: dispatcher_system_inv_def)
  then show ?case
    using ds_detach.prems history_detach [OF _ ds_detach.hyps(1)]
    by (simp add: dispatcher_system_inv_def current_inv_def)
next
  case (ds_detach_with oid f s d)
  then have d: "d = fst (detach_with False oid f (dsp s))" by simp
  show ?case
    using ds_detach_with.prems history_detach_with [of s oid f] unfolding d
    by (simp add: dispatcher_system_inv_def current_inv_def detach_with_inv detach_with_fields)
next
  case (ds_terminate s)
  then show ?case
    using terminate_inv [of "dsp s"]
    by (simp add: dispatcher_system_inv_def history_inv_def current_inv_def terminate_def)
next
  case (ds_take s now e d)
  have "dispatcher_inv d"
    using worker_iteration_inv [of "dsp s" now] ds_take by (simp add: dispatcher_system_inv_def)
  moreover have "running_function_object_id d = None"
    using ds_take by (auto simp: dispatcher_system_inv_def current_inv_def worker_iteration_def
        split: if_splits list.splits)
  ultimately show ?case
    using ds_take.prems history_take [OF _ ds_take.hyps(2)]
    by (simp add: dispatcher_system_inv_def current_inv_def)
next
  case (ds_mark s e)
  then show ?case
    by (simp add: dispatcher_system_inv_def history_inv_def current_inv_def mark_running_def
        dispatcher_inv_def queue_sorted_def queue_owned_def)
next
  case (ds_start s e f)
  then show ?case
    by (simp add: dispatcher_system_inv_def history_inv_def current_inv_def)
next
  case (ds_finish s e phase)
  then show ?case
    using finish_inv [of "dsp s"]
    by (simp add: dispatcher_system_inv_def history_inv_def current_inv_def finish_function_def)
qed

section \<open>Reachable dispatchers\<close>

abbreviation dispatcher_any_step :: "'f dispatcher_system \<Rightarrow> 'f dispatcher_system \<Rightarrow> bool" where
  "dispatcher_any_step s t \<equiv> \<exists>l. dispatcher_step s l t"

abbreviation dispatcher_initial :: "'f dispatcher_system \<Rightarrow> bool" where
  "dispatcher_initial s \<equiv> \<exists>own. s = initial_system own"

interpretation dispatcher_machine:
  event_machine dispatcher_initial dispatcher_any_step dispatcher_system_inv
  by unfold_locales (auto intro: initial_system_inv dispatcher_step_inv)

text \<open>Steps in which no thread attaches \<open>oid\<close> (again): ids are unique per object.\<close>

definition quiet_step :: "u64 \<Rightarrow> 'f dispatcher_system \<Rightarrow> 'f dispatcher_system \<Rightarrow> bool" where
  "quiet_step oid s t \<longleftrightarrow> (\<exists>l. l \<noteq> L_attach oid \<and> dispatcher_step s l t)"

definition function_running :: "u64 \<Rightarrow> 'f dispatcher_system \<Rightarrow> bool" where
  "function_running oid s \<longleftrightarrow> (\<exists>e. current s = Some (e, Started) \<and> object_id_value e = oid)"

definition silent_object :: "u64 \<Rightarrow> 'f entry list \<Rightarrow> 'f dispatcher_system \<Rightarrow> bool" where
  "silent_object oid es s \<longleftrightarrow>
     oid \<notin> object_ids (dsp s) \<and> \<not> function_running oid s \<and>
     filter (\<lambda>e. object_id_value e = oid) (started s) = es"

lemma step_object_ids:
  assumes "dispatcher_step s l t" and "l \<noteq> L_attach oid" and "oid \<notin> object_ids (dsp s)"
  shows "oid \<notin> object_ids (dsp t)"
  using assms
proof (induction rule: dispatcher_step.induct)
  case (ds_detach_with oid' f s d)
  then show ?case using detach_with_fields(4) [of oid' f "dsp s"] by simp
qed (auto simp: attach_def enqueue_def detach_def terminate_def worker_iteration_def mark_running_def
    finish_function_def Let_def split: if_splits list.splits)

lemma step_silent:
  assumes "dispatcher_step s l t" and "oid \<notin> object_ids (dsp s)" and "\<not> function_running oid s"
  shows "\<not> function_running oid t \<and> filter (\<lambda>e. object_id_value e = oid) (started t) =
     filter (\<lambda>e. object_id_value e = oid) (started s)"
  using assms
  by (induction rule: dispatcher_step.induct)
     (auto simp: function_running_def call_function_def split: if_splits)

lemma silent_object_step:
  "silent_object oid es s \<Longrightarrow> quiet_step oid s t \<Longrightarrow> silent_object oid es t"
proof -
  assume s: "silent_object oid es s" and "quiet_step oid s t"
  then obtain l where "dispatcher_step s l t" and "l \<noteq> L_attach oid"
    by (auto simp: quiet_step_def)
  then show "silent_object oid es t"
    using s step_object_ids [of s l t oid] step_silent [of s l t oid]
    by (simp add: silent_object_def)
qed

text \<open>
  While \<^verbatim>\<open>detach\<close> waits: the id is not attached, so nothing of the object is started any more, and a
  function of it may still be running; when the wait has returned, none is.
\<close>

lemma step_started:
  assumes "dispatcher_step s l t" and "oid \<notin> object_ids (dsp s)"
  shows "filter (\<lambda>e. object_id_value e = oid) (started t) =
     filter (\<lambda>e. object_id_value e = oid) (started s)"
  using assms by (induction rule: dispatcher_step.induct) (auto simp: call_function_def split: if_splits)

definition detach_waits :: "u64 \<Rightarrow> 'f entry list \<Rightarrow> 'f dispatcher_system \<Rightarrow> bool" where
  "detach_waits oid es s \<longleftrightarrow>
     dispatcher_system_inv s \<and> oid \<notin> object_ids (dsp s) \<and>
     filter (\<lambda>e. object_id_value e = oid) (started s) = es"

lemma detach_waits_step: "detach_waits oid es s \<Longrightarrow> quiet_step oid s t \<Longrightarrow> detach_waits oid es t"
  using dispatcher_step_inv step_object_ids step_started
  by (fastforce simp: detach_waits_def quiet_step_def)

lemma detach_wait_begins:
  assumes "dispatcher_system_inv s" and "detach oid (dsp s) = (True, d)"
  shows "detach_waits oid (filter (\<lambda>e. object_id_value e = oid) (started s))
    (s\<lparr>dsp := d, detached := insert oid (detached s)\<rparr>)"
proof -
  have "dispatcher_inv d" "running_function_object_id d = running_function_object_id (dsp s)"
    "oid \<notin> object_ids d"
    using assms detach_inv [of "dsp s" oid] detach_fields(2,3) [of oid "dsp s"]
    by (simp_all add: dispatcher_system_inv_def)
  then show ?thesis
    using assms history_detach [OF _ assms(2)]
    by (simp add: detach_waits_def dispatcher_system_inv_def current_inv_def)
qed

lemma detach_wait_ends:
  assumes "detach_waits oid es s" and "detach_may_return False oid (dsp s)"
  shows "silent_object oid es s"
  using assms
  by (auto simp: detach_waits_def silent_object_def function_running_def dispatcher_system_inv_def
      current_inv_def detach_may_return_def)

lemma exited_step:
  assumes "dispatcher_step s l t" and "exit_flag (dsp s)"
  shows "exit_flag (dsp t) \<and> taken t = taken s \<and> accepted t = accepted s"
  using assms
proof (induction rule: dispatcher_step.induct)
  case (ds_detach_with oid f s d)
  then show ?case using detach_with_fields(3) [of oid f "dsp s"] by simp
qed (auto simp: attach_def enqueue_def detach_def terminate_def worker_iteration_def
    mark_running_def finish_function_def Let_def split: if_splits)

section \<open>A dispatcher to apply the properties to\<close>

text \<open>Object 7 is attached and two functions of it wait, both due at time 5.\<close>

definition example_dispatcher :: "nat dispatcher_system" where
  "example_dispatcher =
     (let e = (\<lambda>f. \<lparr>object_id_value = 7, entry_function = f, entry_when = 5\<rparr>)
      in \<lparr>dsp = \<lparr>queue = [e 10, e 11], exit_flag = False, object_ids = {7, 1}, own_object_id = 1,
               running_function_object_id = None\<rparr>,
          current = None, accepted = [e 10, e 11], taken = [], started = [], detached = {}\<rparr>)"

lemma example_dispatcher_reachable:
  "reachable_from dispatcher_initial dispatcher_any_step example_dispatcher"
proof -
  let ?s0 = "initial_system 1 :: nat dispatcher_system"
  let ?s1 = "?s0\<lparr>dsp := snd (attach 7 (dsp ?s0))\<rparr>"
  let ?e = "\<lambda>f. \<lparr>object_id_value = 7 :: u64, entry_function = f, entry_when = 5\<rparr>"
  let ?s2 = "?s1\<lparr>dsp := snd (enqueue 7 10 5 (dsp ?s1)), accepted := [?e 10]\<rparr>"
  note defs = initial_system_def new_dispatcher_def attach_def enqueue_def when_internal_detached_def
    insert_by_when_def example_dispatcher_def
  have "dispatcher_step ?s0 (L_attach 7) ?s1"
    by (rule ds_attach [of _ _ True]) (simp add: defs)
  moreover have "dispatcher_step ?s1 (L_enqueue 7 10 5) ?s2"
    using ds_enqueue [of 7 10 5 ?s1 True "snd (enqueue 7 10 5 (dsp ?s1))"] by (simp add: defs)
  moreover have "dispatcher_step ?s2 (L_enqueue 7 11 5) example_dispatcher"
    using ds_enqueue [of 7 11 5 ?s2 True "snd (enqueue 7 11 5 (dsp ?s2))"] by (simp add: defs)
  moreover have "reachable_from dispatcher_initial dispatcher_any_step ?s0"
    by (rule reach_init) blast
  ultimately show ?thesis by (blast intro: reach_step)
qed

text \<open>The worker has taken the first of them and runs it.\<close>

definition running_example :: "nat dispatcher_system" where
  "running_example =
     (let e = (\<lambda>f. \<lparr>object_id_value = 7, entry_function = f, entry_when = 5\<rparr>)
      in \<lparr>dsp = \<lparr>queue = [e 11], exit_flag = False, object_ids = {7, 1}, own_object_id = 1,
               running_function_object_id = Some 7\<rparr>,
          current = Some (e 10, Started), accepted = [e 10, e 11], taken = [e 10], started = [e 10],
          detached = {}\<rparr>)"

lemma running_example_reachable:
  "reachable_from dispatcher_initial dispatcher_any_step running_example"
proof -
  let ?e = "\<lparr>object_id_value = 7 :: u64, entry_function = 10 :: nat, entry_when = 5\<rparr>"
  let ?d = "dsp example_dispatcher\<lparr>queue := tl (queue (dsp example_dispatcher))\<rparr>"
  define s1 where "s1 = example_dispatcher\<lparr>dsp := ?d, current := Some (?e, Taken),
    taken := taken example_dispatcher @ [?e]\<rparr>"
  define s2 where "s2 = s1\<lparr>current := Some (?e, Marked), dsp := mark_running ?e (dsp s1)\<rparr>"
  define s3 where "s3 = s2\<lparr>current := Some (?e, Started), started := started s2 @ [?e]\<rparr>"
  have "dispatcher_step example_dispatcher (L_take (Some 8)) s1"
    unfolding s1_def by (rule ds_take)
      (simp_all add: example_dispatcher_def worker_iteration_def calculate_duration_def when_immediately_def)
  moreover have "dispatcher_step s1 L_mark s2"
    unfolding s2_def by (rule ds_mark) (simp add: s1_def)
  moreover have "dispatcher_step s2 L_start s3"
    unfolding s3_def by (rule ds_start)
      (simp_all add: s2_def s1_def example_dispatcher_def call_function_def mark_running_def)
  moreover have "s3 = running_example"
    by (simp add: s3_def s2_def s1_def example_dispatcher_def running_example_def mark_running_def)
  ultimately show ?thesis
    using example_dispatcher_reachable by (blast intro: reach_step)
qed

section \<open>Properties\<close>

text \<open>C30: In every reachable state of the dispatcher, for every object that has not been
  detached and every due time: the functions the worker has taken, followed by those still
  queued, are exactly the accepted ones, in the order they were enqueued. Nothing is lost,
  duplicated or reordered, whatever other threads enqueue, attach or detach; and the queue is
  sorted by due time.\<close>

theorem dispatcher_fifo_exactly_once:
  assumes "reachable_from dispatcher_initial dispatcher_any_step s"
    and "oid \<notin> detached s" and "oid \<noteq> own_object_id (dsp s)"
  shows "filter (same_class oid t) (taken s) @ filter (same_class oid t) (queue (dsp s)) =
      filter (same_class oid t) (accepted s) \<and>
    sorted (map entry_when (queue (dsp s)))"
  using dispatcher_machine.reachable_inv [OF assms(1)] assms(2,3)
  by (simp add: dispatcher_system_inv_def history_inv_def dispatcher_inv_def queue_sorted_def)

lemma dispatcher_fifo_exactly_once_witness:
  "filter (same_class 7 5) (queue (dsp example_dispatcher)) = accepted example_dispatcher"
  using dispatcher_fifo_exactly_once [OF example_dispatcher_reachable, of 7 5]
  by (simp add: example_dispatcher_def same_class_def)

text \<open>The worker never runs a function early and never overtakes: when it takes an entry at
  time \<open>now\<close> in a reachable state, the entry is due (or is an immediate one) and no queued
  entry was due before it.\<close>

theorem worker_takes_earliest_due:
  assumes "reachable_from dispatcher_initial dispatcher_any_step s"
    and "worker_iteration (Some now) (dsp s) = (Run e, d)"
  shows "entry_when e \<le> max when_immediately now \<and>
    (\<forall>e' \<in> set (queue (dsp s)). entry_when e \<le> entry_when e')"
  using dispatcher_machine.reachable_inv [OF assms(1)] assms(2)
  by (auto simp: dispatcher_system_inv_def dispatcher_inv_def queue_sorted_def worker_iteration_def
      calculate_duration_def Let_def split: if_splits list.splits)

lemma worker_takes_earliest_due_witness:
  "\<exists>e d. worker_iteration (Some 8) (dsp example_dispatcher) = (Run e, d) \<and> entry_when e \<le> 8"
proof -
  obtain e d where "worker_iteration (Some 8) (dsp example_dispatcher) = (Run e, d)"
    by (simp add: example_dispatcher_def worker_iteration_def calculate_duration_def when_immediately_def)
  then show ?thesis
    using worker_takes_earliest_due [OF example_dispatcher_reachable, of 8 e d]
    by (auto simp: when_immediately_def)
qed

text \<open>C33: \<^verbatim>\<open>detach\<close>, called from another thread than the worker, is a barrier. It erases the object's
  id and functions, when a function of the object may be running; other threads and the worker go on
  while it waits; and at some later state \<open>u\<close> in which its wait finds no function of the object running
  it returns. Then as long as the id is not attached again no function of the object is running, and
  none has been started since the erasure, although its owner may still be enqueuing.\<close>

theorem detach_is_a_barrier:
  assumes "reachable_from dispatcher_initial dispatcher_any_step s"
    and "detach oid (dsp s) = (True, d)"
    and "(quiet_step oid)\<^sup>*\<^sup>* (s\<lparr>dsp := d, detached := insert oid (detached s)\<rparr>) u"
    and "detach_may_return False oid (dsp u)"
    and "(quiet_step oid)\<^sup>*\<^sup>* u t"
  shows "\<not> function_running oid t \<and>
    filter (\<lambda>e. object_id_value e = oid) (started t) =
    filter (\<lambda>e. object_id_value e = oid) (started s)"
proof -
  let ?es = "filter (\<lambda>e. object_id_value e = oid) (started s)"
  have "detach_waits oid ?es (s\<lparr>dsp := d, detached := insert oid (detached s)\<rparr>)"
    using dispatcher_machine.reachable_inv [OF assms(1)] assms(2) by (rule detach_wait_begins)
  with assms(3) have "detach_waits oid ?es u"
    by (induction rule: rtranclp_induct) (auto intro: detach_waits_step)
  then have "silent_object oid ?es u"
    using assms(4) by (rule detach_wait_ends)
  with assms(5) have "silent_object oid ?es t"
    by (induction rule: rtranclp_induct) (auto intro: silent_object_step)
  then show ?thesis
    by (simp add: silent_object_def)
qed

text \<open>In the example \<^verbatim>\<open>detach\<close> is called while the first function runs, cannot return, and returns
  once the function has ended.\<close>

lemma detach_is_a_barrier_witness:
  "\<exists>d u. detach 7 (dsp running_example) = (True, d) \<and> function_running 7 running_example \<and>
     \<not> detach_may_return False 7 d \<and>
     quiet_step 7 (running_example\<lparr>dsp := d, detached := {7}\<rparr>) u \<and>
     (\<forall>t. (quiet_step 7)\<^sup>*\<^sup>* u t \<longrightarrow>
        \<not> function_running 7 t \<and>
        map entry_function (filter (\<lambda>e. object_id_value e = 7) (started t)) = [10])"
proof -
  define d where "d = snd (detach 7 (dsp running_example))"
  define s where "s = running_example\<lparr>dsp := d, detached := {7}\<rparr>"
  define u where "u = s\<lparr>current := None, dsp := finish_function (dsp s)\<rparr>"
  have d: "detach 7 (dsp running_example) = (True, d)" "function_running 7 running_example"
    "\<not> detach_may_return False 7 d" "insert 7 (detached running_example) = {7}"
    "map entry_function (filter (\<lambda>e. object_id_value e = 7) (started running_example)) = [10]"
    by (simp_all add: d_def running_example_def detach_def detach_may_return_def function_running_def)
  have "dispatcher_step s L_finish u"
    unfolding u_def by (rule ds_finish [where phase = Started]) (simp_all add: s_def running_example_def)
  then have step: "quiet_step 7 s u" unfolding quiet_step_def by blast
  then have steps: "(quiet_step 7)\<^sup>*\<^sup>* s u" by (rule r_into_rtranclp)
  have may: "detach_may_return False 7 (dsp u)"
    by (simp add: u_def detach_may_return_def finish_function_def)
  have "\<not> function_running 7 t \<and> map entry_function (filter (\<lambda>e. object_id_value e = 7) (started t)) = [10]"
    if "(quiet_step 7)\<^sup>*\<^sup>* u t" for t
    using detach_is_a_barrier [OF running_example_reachable d(1) _ may that] steps d(5)
    by (simp add: s_def d(4))
  then show ?thesis
    using d(1-3) step by (auto simp: s_def)
qed

text \<open>After \<^verbatim>\<open>terminate\<close> the dispatcher accepts no function and the worker takes none:
  whatever happens afterwards, both histories stay as they were.\<close>

theorem terminate_stops_dispatcher:
  assumes "dispatcher_any_step\<^sup>*\<^sup>* (s\<lparr>dsp := terminate (dsp s)\<rparr>) t"
  shows "taken t = taken s \<and> accepted t = accepted s \<and>
    (\<forall>oid f w. fst (enqueue oid f w (dsp t)) = False) \<and>
    (\<forall>now. fst (worker_iteration now (dsp t)) = Exit_loop)"
proof -
  have "exit_flag (dsp t) \<and> taken t = taken s \<and> accepted t = accepted s"
    using assms
  proof (induction rule: rtranclp_induct)
    case base
    then show ?case by (simp add: terminate_def)
  next
    case (step u v)
    then show ?case using exited_step by metis
  qed
  then show ?thesis
    by (simp add: enqueue_def worker_iteration_def)
qed

lemma terminate_stops_dispatcher_witness:
  "fst (enqueue 7 12 5 (terminate (dsp example_dispatcher))) = False"
  using terminate_stops_dispatcher [of example_dispatcher, OF rtranclp.rtrancl_refl] by simp



end
