(* ===== verification/Dispatcher_Extra.thy ===== *)
theory Dispatcher_Extra
  imports Dispatcher
begin

text \<open>
  The helpers of the dispatcher the library schedules with: the debounced task that reconnects
  and rebinds, and the timer behind the health check (\<^verbatim>\<open>extra/debounced_task.hpp\<close>,
  \<^verbatim>\<open>extra/timer.hpp\<close>), with the generator of object ids (\<^verbatim>\<open>object_id.hpp\<close>). The closures they
  put on the dispatcher are the constructors of a datatype; \<open>wrap\<close> embeds them into the
  dispatcher's function type.
\<close>

section \<open>Object ids\<close>

text \<open>
  \<open>last_value\<close> and the set of live ids. The search loop of \<^verbatim>\<open>manager::make\<close> runs over the
  64-bit values. The guard before it throws when at most one value is free, so a search that is
  begun can end; \<open>fuel\<close> bounds it. \<open>None\<close> is a search that ran out of fuel, \<open>Some (Inl _)\<close> the
  exception.
\<close>

record object_id_manager =
  id_set :: "u64 set"
  last_value :: u64

datatype object_id_error = Fails_to_allocate_object_id

fun make_loop :: "nat \<Rightarrow> u64 set \<Rightarrow> u64 \<Rightarrow> u64 option" where
  "make_loop 0 ids prev = None"
| "make_loop (Suc fuel) ids prev =
     (let value = prev + 1 in if value \<notin> ids then Some value else make_loop fuel ids value)"

definition make_object_id ::
    "nat \<Rightarrow> object_id_manager \<Rightarrow> (object_id_error + u64 \<times> object_id_manager) option" where
  "make_object_id fuel m =
     (if card (id_set m) \<ge> 2 ^ 64 - 1 then Some (Inl Fails_to_allocate_object_id)
      else (case make_loop fuel (id_set m) (last_value m) of
              None \<Rightarrow> None
            | Some value \<Rightarrow>
                Some (Inr (value, m\<lparr>id_set := insert value (id_set m), last_value := value\<rparr>))))"

definition erase_object_id :: "u64 \<Rightarrow> object_id_manager \<Rightarrow> object_id_manager" where
  "erase_object_id value m = m\<lparr>id_set := id_set m - {value}\<rparr>"

text \<open>The search finds the first free value after the one it starts from.\<close>

definition first_free_after :: "u64 set \<Rightarrow> u64 \<Rightarrow> u64 \<Rightarrow> bool" where
  "first_free_after ids prev v \<longleftrightarrow>
     v \<notin> ids \<and> (\<exists>k > 0. v = prev + of_nat k \<and> (\<forall>j \<in> {0 <..< k}. prev + of_nat j \<in> ids))"

lemma first_free_after_next: "prev + 1 \<notin> ids \<Longrightarrow> first_free_after ids prev (prev + 1)"
  unfolding first_free_after_def by (intro conjI exI [of _ 1]) auto

lemma first_free_after_skip:
  assumes "first_free_after ids (prev + 1) v" and "prev + 1 \<in> ids"
  shows "first_free_after ids prev v"
proof -
  obtain k where k: "v = prev + 1 + of_nat k" "\<forall>j \<in> {0 <..< k}. prev + 1 + of_nat j \<in> ids" "v \<notin> ids"
    using assms(1) by (auto simp: first_free_after_def)
  have "prev + of_nat j \<in> ids" if "0 < j" "j < Suc k" for j
  proof (cases j)
    case (Suc i)
    then show ?thesis
      using k(2) that assms(2) by (cases "i = 0") (auto simp: add.assoc)
  qed (use that in simp)
  then show ?thesis
    unfolding first_free_after_def using k by (intro conjI exI [of _ "Suc k"]) (auto simp: add.assoc)
qed

lemma make_loop_first: "make_loop fuel ids prev = Some v \<Longrightarrow> first_free_after ids prev v"
  by (induction fuel arbitrary: prev)
     (auto simp: Let_def first_free_after_next intro: first_free_after_skip split: if_splits)

lemma make_loop_finds:
  assumes "prev + of_nat k \<notin> ids" and "0 < k" and "k \<le> fuel"
  shows "\<exists>v. make_loop fuel ids prev = Some v"
  using assms
proof (induction fuel arbitrary: prev k)
  case 0
  then show ?case by simp
next
  case (Suc fuel)
  show ?case
  proof (cases "prev + 1 \<in> ids")
    case False
    then show ?thesis by (simp add: Let_def)
  next
    case True
    with Suc.prems have "k \<noteq> 1" by auto
    with Suc.prems have "0 < k - 1" "k - 1 \<le> fuel" by auto
    moreover have "(prev + 1) + of_nat (k - 1) \<notin> ids"
      using Suc.prems by (simp add: of_nat_diff Suc_leI)
    ultimately have "\<exists>v. make_loop fuel ids (prev + 1) = Some v"
      by (rule Suc.IH [rotated 1])
    with True show ?thesis by (simp add: Let_def)
  qed
qed

text \<open>Enough fuel: the number of 64-bit values. A free id is at most \<open>2 ^ 64\<close> increments away.\<close>

lemma make_loop_total:
  assumes "v \<notin> ids" and fuel: "2 ^ 64 \<le> fuel"
  shows "\<exists>w. make_loop fuel ids prev = Some w"
proof (cases "v = prev")
  case True
  have "prev + of_nat (2 ^ 64) = v"
    using True by (simp add: word_of_nat_eq_0_iff)
  then show ?thesis
    using make_loop_finds [of prev "2 ^ 64" ids fuel] assms by simp
next
  case False
  let ?k = "unat (v - prev)"
  have "prev + of_nat ?k = v" by simp
  moreover have "0 < ?k"
    using False by (simp add: unat_gt_0)
  moreover have "?k < 2 ^ LENGTH(64)"
    by (rule unsigned_less)
  then have "?k \<le> fuel" using fuel by simp
  ultimately show ?thesis
    using make_loop_finds [of prev ?k ids fuel] assms by simp
qed

section \<open>debounced\_task\<close>

record debounced_task =
  dt_generation :: u64

datatype 'f debounce_function =
    Debounce_in_dispatcher 'f int
  | Debounced_call u64 'f
  | Cancel_debounced

definition new_debounced_task :: debounced_task where
  "new_debounced_task = \<lparr>dt_generation = 0\<rparr>"

definition debounce_at ::
    "('f debounce_function \<Rightarrow> 'g) \<Rightarrow> u64 \<Rightarrow> 'f \<Rightarrow> int \<Rightarrow> 'g dispatcher option \<Rightarrow>
     bool \<times> 'g dispatcher option" where
  "debounce_at wrap oid f when weak =
     enqueue_to_dispatcher oid (wrap (Debounce_in_dispatcher f when)) when_immediately weak"

definition debounce_after ::
    "('f debounce_function \<Rightarrow> 'g) \<Rightarrow> u64 \<Rightarrow> 'f \<Rightarrow> int \<Rightarrow> int option \<Rightarrow> 'g dispatcher option \<Rightarrow>
     bool \<times> 'g dispatcher option" where
  "debounce_after wrap oid f delay time_source weak =
     debounce_at wrap oid f (when_now time_source weak + delay) weak"

definition debounce_cancel ::
    "('f debounce_function \<Rightarrow> 'g) \<Rightarrow> u64 \<Rightarrow> 'g dispatcher option \<Rightarrow> 'g dispatcher option" where
  "debounce_cancel wrap oid weak =
     snd (enqueue_to_dispatcher oid (wrap Cancel_debounced) when_immediately weak)"

definition debounce_in_dispatcher ::
    "('f debounce_function \<Rightarrow> 'g) \<Rightarrow> u64 \<Rightarrow> 'f \<Rightarrow> int \<Rightarrow> debounced_task \<times> 'g dispatcher option \<Rightarrow>
     bool \<times> debounced_task \<times> 'g dispatcher option" where
  "debounce_in_dispatcher wrap oid f when s =
     (let (dt, weak) = s;
          g = dt_generation dt + 1;
          dt = dt\<lparr>dt_generation := g\<rparr>;
          (ok, weak) = enqueue_to_dispatcher oid (wrap (Debounced_call g f)) when weak
      in if \<not> ok then (False, dt\<lparr>dt_generation := g + 1\<rparr>, weak) else (True, dt, weak))"

text \<open>
  The worker runs one of the closures: the new state and the user function that is called.
\<close>

fun run_debounced ::
    "('f debounce_function \<Rightarrow> 'g) \<Rightarrow> u64 \<Rightarrow> 'f debounce_function \<Rightarrow>
     debounced_task \<times> 'g dispatcher option \<Rightarrow>
     (debounced_task \<times> 'g dispatcher option) \<times> 'f option" where
  "run_debounced wrap oid (Debounce_in_dispatcher f when) s =
     (snd (debounce_in_dispatcher wrap oid f when s), None)"
| "run_debounced wrap oid (Debounced_call g f) (dt, weak) =
     ((dt, weak), if dt_generation dt \<noteq> g then None else Some f)"
| "run_debounced wrap oid Cancel_debounced (dt, weak) =
     ((dt\<lparr>dt_generation := dt_generation dt + 1\<rparr>, weak), None)"

fun run_debounced_all ::
    "('f debounce_function \<Rightarrow> 'g) \<Rightarrow> u64 \<Rightarrow> 'f debounce_function list \<Rightarrow>
     debounced_task \<times> 'g dispatcher option \<Rightarrow> debounced_task \<times> 'g dispatcher option" where
  "run_debounced_all wrap oid [] s = s"
| "run_debounced_all wrap oid (x # xs) s =
     run_debounced_all wrap oid xs (fst (run_debounced wrap oid x s))"

fun is_debounced_call :: "'f debounce_function \<Rightarrow> bool" where
  "is_debounced_call (Debounced_call _ _) = True"
| "is_debounced_call _ = False"

lemma run_debounced_generation:
  "\<exists>k. dt_generation (fst (fst (run_debounced wrap oid x s))) = dt_generation (fst s) + of_nat k \<and>
     (if is_debounced_call x then k = 0 else 0 < k \<and> k \<le> 2)"
proof (cases x)
  case (Debounce_in_dispatcher f w)
  obtain dt weak where s: "s = (dt, weak)" by fastforce
  show ?thesis
    using Debounce_in_dispatcher
    by (auto simp: s debounce_in_dispatcher_def Let_def split: prod.split
        intro: exI [of _ 1] exI [of _ 2])
next
  case (Debounced_call g f)
  then show ?thesis by (cases s) simp
next
  case Cancel_debounced
  then show ?thesis by (cases s) (auto intro: exI [of _ 1])
qed

lemma run_debounced_all_generation:
  "\<exists>k. dt_generation (fst (run_debounced_all wrap oid xs s)) = dt_generation (fst s) + of_nat k \<and>
     k \<le> 2 * length xs \<and> (k = 0 \<longleftrightarrow> list_all is_debounced_call xs)"
proof (induction xs arbitrary: s)
  case Nil
  then show ?case by (auto intro: exI [of _ 0])
next
  case (Cons x xs)
  obtain k where k: "dt_generation (fst (fst (run_debounced wrap oid x s))) =
      dt_generation (fst s) + of_nat k" "if is_debounced_call x then k = 0 else 0 < k \<and> k \<le> 2"
    using run_debounced_generation by blast
  obtain j where j: "dt_generation (fst (run_debounced_all wrap oid xs (fst (run_debounced wrap oid x s)))) =
      dt_generation (fst (fst (run_debounced wrap oid x s))) + of_nat j" "j \<le> 2 * length xs"
      "j = 0 \<longleftrightarrow> list_all is_debounced_call xs"
    using Cons.IH by blast
  show ?case
    using k j by (intro exI [of _ "k + j"]) (auto split: if_splits)
qed

section \<open>timer\<close>

text \<open>
  The closures of a timer: those of \<^verbatim>\<open>start\<close>, \<^verbatim>\<open>stop\<close> and \<^verbatim>\<open>set_interval\<close>, the scheduled
  \<^verbatim>\<open>call_function\<close>, and the call of the user's function. The function id is a C++ \<^verbatim>\<open>int\<close> that is
  only incremented and compared for equality: the bits of a 32-bit two's complement number. Up to
  \<open>2 ^ 31 - 1\<close> the increments are defined in C++.
\<close>

record 'f dispatcher_timer =
  current_function_id :: u32
  timer_function :: "'f option"
  timer_interval :: int
  timer_enabled :: bool

datatype 'f timer_function =
    Timer_start 'f int
  | Timer_stop
  | Timer_set_interval int
  | Call_function u32
  | Timer_user_call 'f

definition new_timer :: "'f dispatcher_timer" where
  "new_timer = \<lparr>current_function_id = 0, timer_function = None, timer_interval = 0,
                timer_enabled = False\<rparr>"

type_synonym ('f, 'g) timer_state = "'f dispatcher_timer \<times> 'g dispatcher option"

definition timer_start ::
    "('f timer_function \<Rightarrow> 'g) \<Rightarrow> u64 \<Rightarrow> 'f \<Rightarrow> int \<Rightarrow> ('f, 'g) timer_state \<Rightarrow> ('f, 'g) timer_state" where
  "timer_start wrap oid f interval s =
     (let (t, weak) = s;
          (ok, weak) = enqueue_to_dispatcher oid (wrap (Timer_start f interval)) when_immediately weak
      in (t\<lparr>timer_enabled := ok\<rparr>, weak))"

definition timer_stop ::
    "('f timer_function \<Rightarrow> 'g) \<Rightarrow> u64 \<Rightarrow> ('f, 'g) timer_state \<Rightarrow> ('f, 'g) timer_state" where
  "timer_stop wrap oid s =
     (let (t, weak) = s
      in (t\<lparr>timer_enabled := False\<rparr>,
          snd (enqueue_to_dispatcher oid (wrap Timer_stop) when_immediately weak)))"

definition timer_set_interval ::
    "('f timer_function \<Rightarrow> 'g) \<Rightarrow> u64 \<Rightarrow> int \<Rightarrow> ('f, 'g) timer_state \<Rightarrow> ('f, 'g) timer_state" where
  "timer_set_interval wrap oid interval s =
     (if interval = 0 then timer_stop wrap oid s
      else let (t, weak) = s;
               (ok, weak) = enqueue_to_dispatcher oid (wrap (Timer_set_interval interval))
                              when_immediately weak
           in (if \<not> ok then t\<lparr>timer_enabled := False\<rparr> else t, weak))"

definition timer_enqueue ::
    "('f timer_function \<Rightarrow> 'g) \<Rightarrow> u64 \<Rightarrow> int option \<Rightarrow> u32 \<Rightarrow> ('f, 'g) timer_state \<Rightarrow>
     bool \<times> ('f, 'g) timer_state" where
  "timer_enqueue wrap oid time_source function_id s =
     (let (t, weak) = s;
          (ok, weak) = enqueue_to_dispatcher oid (wrap (Call_function function_id))
                         (when_now time_source weak + timer_interval t) weak
      in (ok, t, weak))"

definition call_timer_function ::
    "('f timer_function \<Rightarrow> 'g) \<Rightarrow> u64 \<Rightarrow> int option \<Rightarrow> u32 \<Rightarrow> ('f, 'g) timer_state \<Rightarrow>
     ('f, 'g) timer_state" where
  "call_timer_function wrap oid time_source function_id s =
     (let (t, weak) = s
      in if current_function_id t \<noteq> function_id then s
         else let (ok, weak) = (case timer_function t of
                                  None \<Rightarrow> (True, weak)
                                | Some f \<Rightarrow> enqueue_to_dispatcher oid (wrap (Timer_user_call f))
                                              when_immediately weak)
              in if \<not> ok then (t\<lparr>timer_enabled := False\<rparr>, weak)
                 else let (ok, t, weak) = timer_enqueue wrap oid time_source function_id (t, weak)
                      in (if \<not> ok then t\<lparr>timer_enabled := False\<rparr> else t, weak))"

fun run_timer ::
    "('f timer_function \<Rightarrow> 'g) \<Rightarrow> u64 \<Rightarrow> int option \<Rightarrow> 'f timer_function \<Rightarrow> ('f, 'g) timer_state \<Rightarrow>
     ('f, 'g) timer_state \<times> 'f option" where
  "run_timer wrap oid now (Timer_start f interval) (t, weak) =
     (let t = t\<lparr>current_function_id := current_function_id t + 1, timer_function := Some f,
                timer_interval := interval\<rparr>
      in (call_timer_function wrap oid now (current_function_id t) (t, weak), None))"
| "run_timer wrap oid now Timer_stop (t, weak) =
     ((t\<lparr>current_function_id := current_function_id t + 1, timer_function := None,
         timer_interval := 0\<rparr>, weak), None)"
| "run_timer wrap oid now (Timer_set_interval interval) (t, weak) =
     (if timer_interval t = interval then ((t, weak), None)
      else let t = t\<lparr>current_function_id := current_function_id t + 1, timer_interval := interval\<rparr>;
               (ok, t, weak) = timer_enqueue wrap oid now (current_function_id t) (t, weak)
           in ((if \<not> ok then t\<lparr>timer_enabled := False\<rparr> else t, weak), None))"
| "run_timer wrap oid now (Call_function i) (t, weak) =
     (call_timer_function wrap oid now i (t, weak), None)"
| "run_timer wrap oid now (Timer_user_call f) (t, weak) = ((t, weak), Some f)"

text \<open>
  The scheduled calls of the timer in the queue. A call is live when it carries the current
  function id: only a live call keeps the timer going.
\<close>

definition scheduled_calls :: "('f timer_function \<Rightarrow> 'g) \<Rightarrow> 'g dispatcher option \<Rightarrow> u32 \<Rightarrow> nat" where
  "scheduled_calls wrap weak i =
     (case weak of None \<Rightarrow> 0
      | Some d \<Rightarrow> length (filter (\<lambda>e. entry_function e = wrap (Call_function i)) (queue d)))"

definition live_calls :: "('f timer_function \<Rightarrow> 'g) \<Rightarrow> ('f, 'g) timer_state \<Rightarrow> nat" where
  "live_calls wrap s = scheduled_calls wrap (snd s) (current_function_id (fst s))"

lemma length_filter_insert_by_when:
  "length (filter P (insert_by_when e q)) = length (filter P q) + (if P e then 1 else 0)"
  by (induction q) (auto simp: insert_by_when_Cons)

lemma scheduled_calls_enqueue:
  assumes "inj wrap" and "enqueue_to_dispatcher oid (wrap x) w weak = (ok, weak')"
  shows "scheduled_calls wrap weak' i =
     scheduled_calls wrap weak i + (if ok \<and> x = Call_function i then 1 else 0)"
  using assms
  by (auto simp: scheduled_calls_def enqueue_to_dispatcher_def enqueue_def Let_def inj_eq
      length_filter_insert_by_when split: option.splits if_splits)

text \<open>
  A timer in use: any thread calls its operations, and the worker takes entries from the front
  of the queue and runs the timer's closures among them.
\<close>

inductive timer_step ::
    "('f timer_function \<Rightarrow> 'g) \<Rightarrow> u64 \<Rightarrow> ('f, 'g) timer_state \<Rightarrow> ('f, 'g) timer_state \<Rightarrow> bool"
  for wrap :: "'f timer_function \<Rightarrow> 'g" and oid :: u64 where
  ts_start: "timer_step wrap oid s (timer_start wrap oid f interval s)"
| ts_stop: "timer_step wrap oid s (timer_stop wrap oid s)"
| ts_set_interval: "timer_step wrap oid s (timer_set_interval wrap oid interval s)"
| ts_run: "queue d = e # q \<Longrightarrow> entry_function e = wrap x \<Longrightarrow>
    run_timer wrap oid now x (t, Some (d\<lparr>queue := q\<rparr>)) = (s', out) \<Longrightarrow>
    timer_step wrap oid (t, Some d) s'"
| ts_other: "queue d = e # q \<Longrightarrow> (\<And>x. entry_function e \<noteq> wrap x) \<Longrightarrow>
    timer_step wrap oid (t, Some d) (t, Some (d\<lparr>queue := q\<rparr>))"
| ts_detach: "timer_step wrap oid (t, Some d) (t, Some (snd (detach oid' d)))"
| ts_dispatcher_gone: "timer_step wrap oid (t, weak) (t, None)"

text \<open>A run of a timer, with the number of new function ids it has given out.\<close>

inductive timer_run ::
    "('f timer_function \<Rightarrow> 'g) \<Rightarrow> u64 \<Rightarrow> ('f, 'g) timer_state \<Rightarrow> nat \<Rightarrow> ('f, 'g) timer_state \<Rightarrow> bool"
  for wrap :: "'f timer_function \<Rightarrow> 'g" and oid :: u64 and s0 :: "('f, 'g) timer_state" where
  tr_init: "timer_run wrap oid s0 0 s0"
| tr_step: "timer_run wrap oid s0 n s \<Longrightarrow> timer_step wrap oid s s' \<Longrightarrow>
    current_function_id (fst s') = current_function_id (fst s) \<Longrightarrow> timer_run wrap oid s0 n s'"
| tr_new_id: "timer_run wrap oid s0 n s \<Longrightarrow> timer_step wrap oid s s' \<Longrightarrow>
    current_function_id (fst s') \<noteq> current_function_id (fst s) \<Longrightarrow> timer_run wrap oid s0 (Suc n) s'"

definition timer_inv :: "('f timer_function \<Rightarrow> 'g) \<Rightarrow> ('f, 'g) timer_state \<Rightarrow> bool" where
  "timer_inv wrap s \<longleftrightarrow>
     live_calls wrap s \<le> 1 \<and>
     (\<forall>i > current_function_id (fst s). scheduled_calls wrap (snd s) i = 0)"

lemma scheduled_calls_pop:
  assumes "inj wrap" and "queue d = e # q" and "entry_function e = wrap x"
  shows "scheduled_calls wrap (Some d) i =
     scheduled_calls wrap (Some (d\<lparr>queue := q\<rparr>)) i + (if x = Call_function i then 1 else 0)"
  using assms by (auto simp: scheduled_calls_def inj_eq)

lemma scheduled_calls_pop_le:
  "queue d = e # q \<Longrightarrow> scheduled_calls wrap (Some (d\<lparr>queue := q\<rparr>)) i \<le> scheduled_calls wrap (Some d) i"
  by (simp add: scheduled_calls_def)

lemma scheduled_calls_detach_le:
  "scheduled_calls wrap (Some (snd (detach oid d))) i \<le> scheduled_calls wrap (Some d) i"
proof -
  have "length (filter P (filter Q xs)) \<le> length (filter P xs)" for P Q :: "'c \<Rightarrow> bool" and xs
    by (induction xs) auto
  then show ?thesis by (auto simp: scheduled_calls_def detach_def simp del: filter_filter)
qed

lemma timer_inv_mono:
  assumes "timer_inv wrap (t, weak)" and "\<And>i. scheduled_calls wrap weak' i \<le> scheduled_calls wrap weak i"
  shows "timer_inv wrap (t, weak')"
  using assms unfolding timer_inv_def live_calls_def
  by (metis fst_conv le_zero_eq order_trans snd_conv)

text \<open>
  After \<^verbatim>\<open>call_function\<close> for the current id with no live call pending, there is at most one.
\<close>

lemma timer_enqueue_inv:
  assumes "inj wrap" and "scheduled_calls wrap weak (current_function_id t) = 0"
    and "\<forall>i > current_function_id t. scheduled_calls wrap weak i = 0"
    and "timer_enqueue wrap oid now (current_function_id t) (t, weak) = (ok, t', weak')"
  shows "timer_inv wrap (t'\<lparr>timer_enabled := en\<rparr>, weak')" "timer_inv wrap (t', weak')"
  using assms
  by (auto simp: timer_enqueue_def Let_def timer_inv_def live_calls_def scheduled_calls_enqueue
      split: prod.splits)

lemma call_timer_function_inv:
  assumes "inj wrap" and "scheduled_calls wrap weak (current_function_id t) = 0"
    and "\<forall>i > current_function_id t. scheduled_calls wrap weak i = 0"
  shows "timer_inv wrap (call_timer_function wrap oid now (current_function_id t) (t, weak))"
proof -
  obtain ok weak1 where u: "(case timer_function t of None \<Rightarrow> (True, weak)
      | Some f \<Rightarrow> enqueue_to_dispatcher oid (wrap (Timer_user_call f)) when_immediately weak) = (ok, weak1)"
    by fastforce
  have same: "scheduled_calls wrap weak1 i = scheduled_calls wrap weak i" for i
    using u assms(1) by (auto simp: scheduled_calls_enqueue split: option.splits)
  obtain ok' t' weak' where e:
      "timer_enqueue wrap oid now (current_function_id t) (t, weak1) = (ok', t', weak')"
    by (metis prod_cases3)
  have "timer_inv wrap (t'\<lparr>timer_enabled := False\<rparr>, weak')" "timer_inv wrap (t', weak')"
    using timer_enqueue_inv [OF assms(1) _ _ e] assms(2,3) same by simp_all
  moreover have "timer_inv wrap (t\<lparr>timer_enabled := False\<rparr>, weak1)"
    using assms(2,3) same by (simp add: timer_inv_def live_calls_def)
  ultimately show ?thesis
    using u e by (simp add: call_timer_function_def Let_def)
qed

text \<open>Until the id wraps around, an increment gives a greater one.\<close>

lemma later_ids:
  assumes "\<forall>i > (c :: u32). P i" and "c \<noteq> -1"
  shows "P (c + 1)" "\<forall>i > c + 1. P i"
proof -
  have "c + 1 \<noteq> 0" using assms(2) by (simp add: eq_neg_iff_add_eq_0)
  then have "unat (c + 1) = Suc (unat c)" using unatSuc [of c] by (simp add: add.commute)
  then have "c < c + 1" by (simp add: word_less_nat_alt)
  then show "P (c + 1)" "\<forall>i > c + 1. P i" using assms(1) by auto
qed

lemma small_id: "n < 2 ^ 31 \<Longrightarrow> (of_nat n :: u32) \<noteq> -1"
proof
  assume "n < 2 ^ 31" and "(of_nat n :: u32) = -1"
  then have "(of_nat (Suc n) :: u32) = 0" by simp
  then have "2 ^ 32 dvd Suc n" by (simp only: word_of_nat_eq_0_iff) simp
  with \<open>n < 2 ^ 31\<close> show False by (auto dest: dvd_imp_le)
qed

lemma run_timer_inv:
  assumes "inj wrap" and inv: "timer_inv wrap (t, Some d)" and id: "current_function_id t \<noteq> -1"
    and q: "queue d = e # q" "entry_function e = wrap x"
    and run: "run_timer wrap oid now x (t, Some (d\<lparr>queue := q\<rparr>)) = (s', out)"
  shows "timer_inv wrap s'"
proof -
  let ?w = "Some (d\<lparr>queue := q\<rparr>)"
  note pop = scheduled_calls_pop [OF assms(1) q]
  have le: "timer_inv wrap (t, ?w)"
    using inv scheduled_calls_pop_le [OF q(1)] by (rule timer_inv_mono)
  have later: "\<forall>i > current_function_id t. scheduled_calls wrap ?w i = 0"
    using le by (simp add: timer_inv_def)
  note next_id = later_ids [OF later id]
  show ?thesis
  proof (cases x)
    case (Timer_start f iv)
    then show ?thesis
      using run next_id call_timer_function_inv [OF assms(1), of ?w
          "t\<lparr>current_function_id := current_function_id t + 1, timer_function := Some f,
             timer_interval := iv\<rparr>" oid now]
      by (auto simp: Let_def)
  next
    case Timer_stop
    then show ?thesis using run next_id by (auto simp: timer_inv_def live_calls_def)
  next
    case (Timer_set_interval iv)
    then show ?thesis
      using run next_id le timer_enqueue_inv [OF assms(1), of ?w
          "t\<lparr>current_function_id := current_function_id t + 1, timer_interval := iv\<rparr>" oid now]
      by (auto simp: Let_def split: if_splits prod.splits)
  next
    case (Call_function i)
    show ?thesis
    proof (cases "current_function_id t = i")
      case True
      have "scheduled_calls wrap ?w i = 0"
        using inv pop [of i] Call_function True by (simp add: timer_inv_def live_calls_def)
      then show ?thesis
        using run later True Call_function call_timer_function_inv [OF assms(1), of ?w t oid now]
        by auto
    next
      case False
      then show ?thesis using run le Call_function by (auto simp: call_timer_function_def)
    qed
  next
    case (Timer_user_call f)
    then show ?thesis using run le by simp
  qed
qed

lemma scheduled_calls_enqueue_other:
  assumes "inj wrap" and "\<And>i. x \<noteq> Call_function i"
  shows "scheduled_calls wrap (snd (enqueue_to_dispatcher oid (wrap x) w weak)) i =
     scheduled_calls wrap weak i"
  using scheduled_calls_enqueue [OF assms(1) surjective_pairing, of oid x w weak i] assms(2) by simp

lemma timer_inv_cong:
  assumes "current_function_id (fst s') = current_function_id (fst s)"
    and "\<And>i. scheduled_calls wrap (snd s') i = scheduled_calls wrap (snd s) i"
  shows "timer_inv wrap s' = timer_inv wrap s"
  by (simp only: timer_inv_def live_calls_def assms)

lemma timer_operations_inv:
  assumes "inj wrap" and "timer_inv wrap s"
  shows "timer_inv wrap (timer_start wrap oid f iv s)" "timer_inv wrap (timer_stop wrap oid s)"
    "timer_inv wrap (timer_set_interval wrap oid iv s)"
proof -
  show "timer_inv wrap (timer_start wrap oid f iv s)"
    using assms(2) by (subst timer_inv_cong [of _ s])
      (simp_all add: timer_start_def split_beta Let_def scheduled_calls_enqueue_other assms(1))
  show stop: "timer_inv wrap (timer_stop wrap oid s)"
    using assms(2) by (subst timer_inv_cong [of _ s])
      (simp_all add: timer_stop_def split_beta Let_def scheduled_calls_enqueue_other assms(1))
  show "timer_inv wrap (timer_set_interval wrap oid iv s)"
  proof (cases "iv = 0")
    case True
    then show ?thesis using stop by (simp add: timer_set_interval_def)
  next
    case False
    then show ?thesis
      using assms(2) by (subst timer_inv_cong [of _ s])
        (simp_all add: timer_set_interval_def split_beta Let_def scheduled_calls_enqueue_other assms(1))
  qed
qed

lemma timer_step_inv:
  assumes "inj wrap" and "timer_step wrap oid s s'" and "timer_inv wrap s"
    and "current_function_id (fst s) \<noteq> -1"
  shows "timer_inv wrap s'"
  using assms(2-)
proof (induction rule: timer_step.induct)
  case (ts_run d e q x now t s' out)
  then show ?case using run_timer_inv [OF assms(1) _ _ ts_run.hyps] by simp
next
  case (ts_other d e q t)
  then show ?case using timer_inv_mono scheduled_calls_pop_le by blast
next
  case (ts_detach t d oid')
  then show ?case using timer_inv_mono scheduled_calls_detach_le by blast
next
  case (ts_dispatcher_gone t weak)
  then show ?case by (simp add: timer_inv_def live_calls_def scheduled_calls_def)
qed (simp_all add: timer_operations_inv assms(1))

text \<open>A step gives out at most one new id, the next one.\<close>

lemma call_timer_function_id [simp]:
  "current_function_id (fst (call_timer_function wrap oid now i s)) = current_function_id (fst s)"
  by (simp add: call_timer_function_def timer_enqueue_def split_beta Let_def)

lemma run_timer_id:
  "current_function_id (fst (fst (run_timer wrap oid now x s))) \<in>
     {current_function_id (fst s), current_function_id (fst s) + 1}"
  by (cases s; cases x) (simp_all add: Let_def timer_enqueue_def split_beta)

lemma timer_step_id:
  "timer_step wrap oid s s' \<Longrightarrow>
     current_function_id (fst s') \<in> {current_function_id (fst s), current_function_id (fst s) + 1}"
proof (induction rule: timer_step.induct)
  case (ts_run d e q x now t s' out)
  then show ?case using run_timer_id [of wrap oid now x "(t, Some (d\<lparr>queue := q\<rparr>))"] by simp
qed (simp_all add: timer_start_def timer_stop_def timer_set_interval_def split_beta Let_def)

lemma timer_run_inv:
  assumes "inj wrap" and "timer_run wrap oid s0 n s"
    and "timer_inv wrap s0" and "current_function_id (fst s0) = 0" and "n < 2 ^ 31"
  shows "timer_inv wrap s \<and> current_function_id (fst s) = of_nat n"
  using assms(2-)
proof (induction rule: timer_run.induct)
  case tr_init
  then show ?case by simp
next
  case (tr_step n s s')
  moreover have "(of_nat n :: u32) \<noteq> -1"
    using tr_step.prems(3) by (rule small_id)
  ultimately show ?case using timer_step_inv [OF assms(1)] by simp
next
  case (tr_new_id n s s')
  moreover have "(of_nat n :: u32) \<noteq> -1"
    using tr_new_id.prems(3) by (intro small_id) simp
  ultimately show ?case
    using timer_step_inv [OF assms(1)] timer_step_id [OF tr_new_id.hyps(2)] by simp
qed

section \<open>Properties\<close>

text \<open>C39: Making an object id always ends. With fewer than \<open>2 ^ 64 - 1\<close> ids registered, that is with
  at least two of the 64-bit values free, \<^verbatim>\<open>make_new_object_id\<close> finds the first value after the last
  one made that no live object has, within \<open>2 ^ 64\<close> increments, and registers it. With at most one value
  free it throws, without a search, although one may be left.\<close>

theorem make_object_id_fresh:
  assumes "2 ^ 64 \<le> fuel"
  shows "if card (id_set m) < 2 ^ 64 - 1
    then \<exists>v m'. make_object_id fuel m = Some (Inr (v, m')) \<and>
           first_free_after (id_set m) (last_value m) v \<and>
           id_set m' = insert v (id_set m) \<and> last_value m' = v
    else make_object_id fuel m = Some (Inl Fails_to_allocate_object_id)"
proof (cases "card (id_set m) < 2 ^ 64 - 1")
  case True
  then have "card (id_set m) < card (UNIV :: u64 set)"
    by (simp add: card_word)
  then obtain free where "free \<notin> id_set m"
    by (metis UNIV_I neq_iff subsetI subset_antisym top_greatest)
  then obtain v where "make_loop fuel (id_set m) (last_value m) = Some v"
    using make_loop_total assms by blast
  with True make_loop_first [OF this] show ?thesis
    by (simp add: make_object_id_def)
qed (simp add: make_object_id_def)

lemma make_object_id_fresh_witness:
  "\<exists>v m'. make_object_id (2 ^ 64) \<lparr>id_set = {1}, last_value = 0\<rparr> = Some (Inr (v, m')) \<and>
     v \<noteq> 1 \<and> id_set m' = {v, 1}"
  using make_object_id_fresh [of "2 ^ 64" "\<lparr>id_set = {1}, last_value = 0\<rparr>"]
  by (auto simp: first_free_after_def)

text \<open>Debouncing. When a debounce request has been scheduled as the delayed call of its
  generation, then after the worker has run any closures \<open>xs\<close> of the task the delayed call runs
  its function exactly if none of them was a newer request or a cancellation: only the latest
  request ever runs. (The generation is 64 bits wide: \<open>xs\<close> is shorter than \<open>2 ^ 63\<close>.)\<close>

theorem debounce_runs_only_latest:
  assumes "debounce_in_dispatcher wrap oid f when s = (True, s1)" and "length xs < 2 ^ 63"
  shows "snd (run_debounced wrap oid (Debounced_call (dt_generation (fst s1)) f)
       (run_debounced_all wrap oid xs s1)) =
     (if list_all is_debounced_call xs then Some f else None)"
proof -
  obtain k where k: "dt_generation (fst (run_debounced_all wrap oid xs s1)) =
      dt_generation (fst s1) + of_nat k" "k \<le> 2 * length xs"
      "k = 0 \<longleftrightarrow> list_all is_debounced_call xs"
    using run_debounced_all_generation by blast
  have "(of_nat k :: u64) = 0 \<longleftrightarrow> k = 0"
    using k(2) assms(2) by (auto simp: word_of_nat_eq_0_iff dest: dvd_imp_le)
  then show ?thesis
    using k(1,3) by (cases "run_debounced_all wrap oid xs s1") auto
qed

lemma debounce_runs_only_latest_witness:
  "\<exists>s1. debounce_in_dispatcher id 7 (0 :: nat) 5
       (new_debounced_task, Some (snd (attach 7 (new_dispatcher 1)))) = (True, s1) \<and>
     snd (run_debounced id 7 (Debounced_call (dt_generation (fst s1)) 0)
       (run_debounced_all id 7 [Cancel_debounced] s1)) = None"
proof -
  obtain s1 where s1: "debounce_in_dispatcher id 7 (0 :: nat) 5
       (new_debounced_task, Some (snd (attach 7 (new_dispatcher 1)))) = (True, s1)"
    by (simp add: debounce_in_dispatcher_def enqueue_to_dispatcher_def enqueue_def new_dispatcher_def
        attach_def Let_def)
  then show ?thesis
    using debounce_runs_only_latest [OF s1, of "[Cancel_debounced]"] by auto
qed

text \<open>C37: A timer never schedules twice. From a new timer, whatever sequence of \<^verbatim>\<open>start\<close>,
  \<^verbatim>\<open>stop\<close> and \<^verbatim>\<open>set_interval\<close> calls, detaches and worker steps follows, at most one scheduled call
  in the queue is live; and once the worker runs the closure of \<^verbatim>\<open>stop\<close>, none is. The function id is
  a 32-bit \<^verbatim>\<open>int\<close>: the run has executed fewer than \<open>2 ^ 31 - 1\<close> closures that increment it, so
  neither these increments nor that of the \<^verbatim>\<open>stop\<close> overflow, and the id is their number.\<close>

theorem timer_schedules_once:
  assumes "inj wrap" and "\<And>i. scheduled_calls wrap weak i = 0"
    and "timer_run wrap oid (new_timer, weak) n (t, weak')" and "n < 2 ^ 31 - 1"
  shows "live_calls wrap (t, weak') \<le> 1 \<and>
    (\<forall>now. live_calls wrap (fst (run_timer wrap oid now Timer_stop (t, weak'))) = 0) \<and>
    sint (current_function_id t) = int n"
proof -
  have "timer_inv wrap (new_timer, weak)"
    using assms(2) by (simp add: timer_inv_def live_calls_def)
  then have inv: "timer_inv wrap (t, weak') \<and> current_function_id t = of_nat n"
    using timer_run_inv [OF assms(1,3)] assms(4) by (simp add: new_timer_def)
  then have "scheduled_calls wrap weak' (current_function_id t + 1) = 0"
    using later_ids(1) [of "current_function_id t" "\<lambda>i. scheduled_calls wrap weak' i = 0"]
      small_id [of n] assms(4)
    by (simp add: timer_inv_def)
  moreover have "sint (of_nat n :: u32) = int n"
    using assms(4) by (simp add: signed_of_nat signed_take_bit_int_eq_self)
  moreover have "live_calls wrap (t, weak') \<le> 1"
    using inv by (simp add: timer_inv_def)
  ultimately show ?thesis
    using inv by (simp add: live_calls_def)
qed

text \<open>A timer is started and the worker runs its closure: the user's function and the next call, with
  the id 1, are queued.\<close>

lemma timer_schedules_once_witness:
  "\<exists>t d. timer_run id 7 (new_timer, Some (snd (attach 7 (new_dispatcher 1)))) 1 (t, Some d) \<and>
     map entry_function (queue d) = [Timer_user_call (0 :: nat), Call_function 1] \<and>
     live_calls id (t, Some d) \<le> 1 \<and> sint (current_function_id t) = 1"
proof -
  let ?s0 = "(new_timer, Some (snd (attach 7 (new_dispatcher 1)))) :: (nat, nat timer_function) timer_state"
  obtain t0 d0 e where s1: "timer_start id 7 0 5 ?s0 = (t0, Some d0)" "queue d0 = [e]"
      "entry_function e = Timer_start 0 5" "current_function_id t0 = 0" "object_ids d0 = {7, 1}" "\<not> exit_flag d0"
    by (simp add: timer_start_def enqueue_to_dispatcher_def enqueue_def attach_def new_dispatcher_def
        new_timer_def when_defs)
  obtain t d where r: "run_timer id 7 (Some 20) (Timer_start 0 5) (t0, Some (d0\<lparr>queue := []\<rparr>)) = ((t, Some d), None)"
      "map entry_function (queue d) = [Timer_user_call 0, Call_function 1]" "current_function_id t = 1"
    using s1 by (simp add: call_timer_function_def timer_enqueue_def enqueue_to_dispatcher_def enqueue_def
        insert_by_when_Cons when_now_def when_defs)
  have "timer_run id 7 ?s0 0 (t0, Some d0)"
    using ts_start [of id 7 ?s0 0 5] s1(1,4)
    by (intro tr_step [OF tr_init]) (simp_all add: new_timer_def)
  moreover have "timer_step id 7 (t0, Some d0) (t, Some d)"
    by (rule ts_run [OF s1(2) _ r(1)]) (simp add: s1(3))
  ultimately have run: "timer_run id 7 ?s0 1 (t, Some d)"
    using tr_new_id [of id 7 ?s0 0 "(t0, Some d0)" "(t, Some d)"] s1(4) r(3) by simp
  have "scheduled_calls id (snd ?s0) i = 0" for i
    by (simp add: scheduled_calls_def new_dispatcher_def attach_def)
  then show ?thesis
    using timer_schedules_once [OF _ _ run] run r(2) by (intro exI [of _ t] exI [of _ d]) simp
qed

end
