(* ===== verification/Notification_Scope.thy ===== *)
theory Notification_Scope
  imports Dispatcher
begin

text \<open>
  \<^verbatim>\<open>impl/notification_scope.hpp\<close>: the token that groups the notifications of one running
  session. Start, stop and invalidate run on the dispatcher thread; capture and enqueue may also
  run on the I/O thread. Each access to the two atomics is one atomic operation, so the model's
  operations are the code's.
\<close>

section \<open>State and operations\<close>

type_synonym token = u64

record notification_scope =
  scope_running :: bool
  generation :: u64

definition new_notification_scope :: notification_scope where
  "new_notification_scope = \<lparr>scope_running = False, generation = 0\<rparr>"

definition scope_start :: "notification_scope \<Rightarrow> notification_scope" where
  "scope_start ns = ns\<lparr>scope_running := True\<rparr>"

definition scope_invalidate :: "notification_scope \<Rightarrow> notification_scope" where
  "scope_invalidate ns = ns\<lparr>generation := generation ns + 1\<rparr>"

definition scope_stop :: "notification_scope \<Rightarrow> notification_scope" where
  "scope_stop ns = scope_invalidate (ns\<lparr>scope_running := False\<rparr>)"

definition capture :: "notification_scope \<Rightarrow> token" where
  "capture ns = generation ns"

definition is_current :: "token \<Rightarrow> notification_scope \<Rightarrow> bool" where
  "is_current value ns = (scope_running ns \<and> generation ns = value)"

text \<open>
  \<^verbatim>\<open>enqueue\<close> puts the function on the owner's dispatcher behind a guard: \<open>wrap token f\<close> is that
  closure, and \<open>run_scoped\<close> is what it does when the worker runs it.
\<close>

definition scope_enqueue ::
    "(token \<Rightarrow> 'f \<Rightarrow> 'g) \<Rightarrow> u64 \<Rightarrow> token \<Rightarrow> 'f \<Rightarrow> 'g dispatcher option \<Rightarrow>
     bool \<times> 'g dispatcher option" where
  "scope_enqueue wrap owner value f weak =
     enqueue_to_dispatcher owner (wrap value f) when_immediately weak"

definition run_scoped :: "token \<Rightarrow> 'f \<Rightarrow> notification_scope \<Rightarrow> 'f option" where
  "run_scoped value f ns = (if is_current value ns then Some f else None)"

lemmas scope_defs = scope_start_def scope_invalidate_def scope_stop_def capture_def is_current_def

section \<open>Sessions\<close>

text \<open>A history of a scope: the operations executed on the dispatcher thread, in order.\<close>

datatype scope_operation = Scope_start | Scope_stop | Scope_invalidate

fun scope_apply :: "scope_operation \<Rightarrow> notification_scope \<Rightarrow> notification_scope" where
  "scope_apply Scope_start ns = scope_start ns"
| "scope_apply Scope_stop ns = scope_stop ns"
| "scope_apply Scope_invalidate ns = scope_invalidate ns"

fun scope_run :: "scope_operation list \<Rightarrow> notification_scope \<Rightarrow> notification_scope" where
  "scope_run [] ns = ns"
| "scope_run (op # ops) ns = scope_run ops (scope_apply op ns)"

fun ends_session :: "scope_operation \<Rightarrow> bool" where
  "ends_session Scope_start = False"
| "ends_session _ = True"

lemma scope_run_generation:
  "generation (scope_run ops ns) = generation ns + of_nat (length (filter ends_session ops))"
proof (induction ops arbitrary: ns)
  case Nil
  then show ?case by simp
next
  case (Cons op ops)
  then show ?case by (cases op) (simp_all add: scope_defs)
qed

lemma scope_run_running_no_end:
  "list_all (\<lambda>op. \<not> ends_session op) ops \<Longrightarrow>
     scope_running (scope_run ops ns) = (scope_running ns \<or> ops \<noteq> [])"
proof (induction ops arbitrary: ns)
  case Nil
  then show ?case by simp
next
  case (Cons op ops)
  then show ?case by (cases op) (auto simp: scope_defs)
qed

section \<open>Properties\<close>

text \<open>C31: Session tokens. A notification captured in a session runs, whatever lifecycle
  operations the dispatcher executes between capture and delivery, exactly if the owner is
  running (or has been started since) and none of the operations was a stop or an invalidation:
  restarting never revives it. The token has 64 bits: fewer than \<open>2 ^ 64\<close> operations may lie
  between.\<close>

theorem scope_delivers_iff_session_alive:
  assumes "length ops < 2 ^ 64"
  shows "run_scoped (capture ns) f (scope_run ops ns) =
    (if list_all (\<lambda>op. \<not> ends_session op) ops \<and> (scope_running ns \<or> ops \<noteq> [])
     then Some f else None)"
proof -
  let ?n = "length (filter ends_session ops)"
  have "?n < 2 ^ 64"
    using assms length_filter_le [of ends_session ops] by linarith
  then have "(of_nat ?n :: u64) = 0 \<longleftrightarrow> ?n = 0"
    by (auto simp: word_of_nat_eq_0_iff simp del: length_0_conv dest!: dvd_imp_le)
  then have "generation (scope_run ops ns) = capture ns \<longleftrightarrow> list_all (\<lambda>op. \<not> ends_session op) ops"
    by (auto simp: scope_run_generation capture_def list_all_iff filter_empty_conv)
  then show ?thesis
    using scope_run_running_no_end [of ops ns] by (auto simp: run_scoped_def is_current_def)
qed

lemma scope_delivers_iff_session_alive_witness:
  "run_scoped (capture new_notification_scope) (5 :: nat)
     (scope_run [Scope_start, Scope_stop, Scope_start] new_notification_scope) = None"
  using scope_delivers_iff_session_alive
    [of "[Scope_start, Scope_stop, Scope_start]" new_notification_scope 5]
  by simp

end
