(* ===== verification/Request_Manager.thy ===== *)
theory Request_Manager
  imports Types
begin

text \<open>
  \<^verbatim>\<open>impl/request_manager.hpp\<close>: the pending requests of an owner, each with its callback and its
  timeout timer. Everything runs on the I/O thread. A callback \<open>'cb\<close> is a value naming the
  user's function object, a timeout callback \<open>'tc\<close> the data its closure captures; calling them
  is the owner's business. Completions are returned in the order they are put on the dispatcher.

  The pending map is an association list. The iteration order of \<^verbatim>\<open>std::unordered_map\<close> is not
  specified, so no property depends on the order of this list.
\<close>

section \<open>State and operations\<close>

record 'cb pending_request =
  pr_peer_id :: "peer_id option"
  pr_callback :: 'cb

text \<open>
  \<open>waiting\<close> holds the armed timers by request rid, \<open>expired\<close> the handlers of timers that have
  expired and are queued on the executor, where cancelling no longer reaches them.
\<close>

record ('cb, 'tc) request_manager =
  next_request_id :: request_id
  pending_requests :: "(request_id \<times> 'cb pending_request) list"
  waiting :: "(request_id \<times> 'tc option) list"
  expired :: "(request_id \<times> 'tc option) list"

type_synonym 'cb completion = "'cb \<times> error_code \<times> bytes option"

definition new_request_manager :: "('cb, 'tc) request_manager" where
  "new_request_manager =
     \<lparr>next_request_id = 0, pending_requests = [], waiting = [], expired = []\<rparr>"

text \<open>
  \<^verbatim>\<open>emplace\<close> does nothing when the id is taken; the new timer is then destroyed on return,
  which cancels its wait.
\<close>

definition rm_add ::
    "peer_id option \<Rightarrow> 'cb \<Rightarrow> 'tc option \<Rightarrow> ('cb, 'tc) request_manager \<Rightarrow>
     request_id \<times> ('cb, 'tc) request_manager" where
  "rm_add peer_id_value request_callback timeout_callback rm =
     (let rid = next_request_id rm + 1;
          rm = rm\<lparr>next_request_id := rid\<rparr>
      in if rid \<in> map_keys (pending_requests rm) then (rid, rm)
         else (rid, rm\<lparr>pending_requests := pending_requests rm @
                        [(rid, \<lparr>pr_peer_id = peer_id_value, pr_callback = request_callback\<rparr>)],
                      waiting := waiting rm @ [(rid, timeout_callback)]\<rparr>))"

definition complete_request ::
    "request_id \<Rightarrow> 'cb pending_request \<Rightarrow> error_code \<Rightarrow> bytes option \<Rightarrow> ('cb, 'tc) request_manager \<Rightarrow>
     ('cb, 'tc) request_manager \<times> 'cb completion list" where
  "complete_request rid request ec data rm =
     (rm\<lparr>waiting := remove_key rid (waiting rm)\<rparr>, [(pr_callback request, ec, data)])"

definition rm_complete ::
    "request_id \<Rightarrow> error_code \<Rightarrow> bytes option \<Rightarrow> ('cb, 'tc) request_manager \<Rightarrow>
     ('cb, 'tc) request_manager \<times> 'cb completion list" where
  "rm_complete rid ec data rm =
     (case map_of (pending_requests rm) rid of
        None \<Rightarrow> (rm, [])
      | Some request \<Rightarrow>
          complete_request rid request ec data
            (rm\<lparr>pending_requests := remove_key rid (pending_requests rm)\<rparr>))"

definition rm_complete_of_peer ::
    "peer_id \<Rightarrow> request_id \<Rightarrow> error_code \<Rightarrow> bytes option \<Rightarrow> ('cb, 'tc) request_manager \<Rightarrow>
     ('cb, 'tc) request_manager \<times> 'cb completion list" where
  "rm_complete_of_peer peer_id_value rid ec data rm =
     (case map_of (pending_requests rm) rid of
        None \<Rightarrow> (rm, [])
      | Some request \<Rightarrow>
          (if pr_peer_id request \<noteq> Some peer_id_value then (rm, [])
           else rm_complete rid ec data rm))"

text \<open>The iterator loop of \<^verbatim>\<open>complete_peer\<close>: extract each entry of the peer, step over the rest.\<close>

fun complete_peer_loop ::
    "peer_id \<Rightarrow> error_code \<Rightarrow> (request_id \<times> 'cb pending_request) list \<Rightarrow>
     ('cb, 'tc) request_manager \<Rightarrow> ('cb, 'tc) request_manager \<times> 'cb completion list" where
  "complete_peer_loop peer ec [] rm = (rm, [])"
| "complete_peer_loop peer ec ((rid, request) # it) rm =
     (if pr_peer_id request = Some peer
      then let (rm, out) = complete_request rid request ec None
                 (rm\<lparr>pending_requests := remove_key rid (pending_requests rm)\<rparr>);
               (rm, out') = complete_peer_loop peer ec it rm
           in (rm, out @ out')
      else complete_peer_loop peer ec it rm)"

definition rm_complete_peer ::
    "peer_id \<Rightarrow> error_code \<Rightarrow> ('cb, 'tc) request_manager \<Rightarrow>
     ('cb, 'tc) request_manager \<times> 'cb completion list" where
  "rm_complete_peer peer ec rm = complete_peer_loop peer ec (pending_requests rm) rm"

fun complete_all_loop ::
    "error_code \<Rightarrow> (request_id \<times> 'cb pending_request) list \<Rightarrow> ('cb, 'tc) request_manager \<Rightarrow>
     ('cb, 'tc) request_manager \<times> 'cb completion list" where
  "complete_all_loop ec [] rm = (rm, [])"
| "complete_all_loop ec ((rid, request) # rest) rm =
     (let (rm, out) = complete_request rid request ec None rm;
          (rm, out') = complete_all_loop ec rest rm
      in (rm, out @ out'))"

definition rm_complete_all ::
    "error_code \<Rightarrow> ('cb, 'tc) request_manager \<Rightarrow> ('cb, 'tc) request_manager \<times> 'cb completion list" where
  "rm_complete_all ec rm =
     (let requests = pending_requests rm
      in complete_all_loop ec requests (rm\<lparr>pending_requests := []\<rparr>))"

text \<open>
  The handler of a request's timer: with an error (cancelled) or when the request is no longer
  pending it does nothing; otherwise it completes the request and then the timeout callback is
  called (the last component).
\<close>

definition request_timer_handler ::
    "request_id \<Rightarrow> 'tc option \<Rightarrow> error_code \<Rightarrow> ('cb, 'tc) request_manager \<Rightarrow>
     ('cb, 'tc) request_manager \<times> 'cb completion list \<times> 'tc option" where
  "request_timer_handler rid timeout_callback ec rm =
     (if \<not> is_error ec \<and> rid \<in> map_keys (pending_requests rm)
      then let (rm, out) = rm_complete rid Timed_out None rm in (rm, out, timeout_callback)
      else (rm, [], None))"

section \<open>A request manager in use\<close>

text \<open>
  The operations, with the expiry of a timer (a step of the executor: the wait ends and its
  handler is queued) and the run of a queued handler.
\<close>

datatype ('cb, 'tc) rm_operation =
    Rm_add "peer_id option" 'cb "'tc option"
  | Rm_complete request_id error_code "bytes option"
  | Rm_complete_of_peer peer_id request_id error_code "bytes option"
  | Rm_complete_peer peer_id error_code
  | Rm_complete_all error_code
  | Rm_timer_expires request_id
  | Rm_run_expired

definition timer_expires :: "request_id \<Rightarrow> ('cb, 'tc) request_manager \<Rightarrow> ('cb, 'tc) request_manager" where
  "timer_expires rid rm =
     (case map_of (waiting rm) rid of
        None \<Rightarrow> rm
      | Some tc \<Rightarrow> rm\<lparr>waiting := remove_key rid (waiting rm), expired := expired rm @ [(rid, tc)]\<rparr>)"

definition run_expired ::
    "('cb, 'tc) request_manager \<Rightarrow> ('cb, 'tc) request_manager \<times> 'cb completion list \<times> 'tc option" where
  "run_expired rm =
     (case expired rm of
        [] \<Rightarrow> (rm, [], None)
      | (rid, tc) # rest \<Rightarrow> request_timer_handler rid tc No_error (rm\<lparr>expired := rest\<rparr>))"

fun rm_apply ::
    "('cb, 'tc) rm_operation \<Rightarrow> ('cb, 'tc) request_manager \<Rightarrow>
     ('cb, 'tc) request_manager \<times> 'cb completion list" where
  "rm_apply (Rm_add p cb tc) rm = (snd (rm_add p cb tc rm), [])"
| "rm_apply (Rm_complete rid ec data) rm = rm_complete rid ec data rm"
| "rm_apply (Rm_complete_of_peer p rid ec data) rm = rm_complete_of_peer p rid ec data rm"
| "rm_apply (Rm_complete_peer p ec) rm = rm_complete_peer p ec rm"
| "rm_apply (Rm_complete_all ec) rm = rm_complete_all ec rm"
| "rm_apply (Rm_timer_expires rid) rm = (timer_expires rid rm, [])"
| "rm_apply Rm_run_expired rm = (let (rm, out, _) = run_expired rm in (rm, out))"

fun rm_run ::
    "('cb, 'tc) rm_operation list \<Rightarrow> ('cb, 'tc) request_manager \<Rightarrow>
     ('cb, 'tc) request_manager \<times> 'cb completion list" where
  "rm_run [] rm = (rm, [])"
| "rm_run (op # ops) rm =
     (let (rm, out) = rm_apply op rm; (rm, out') = rm_run ops rm in (rm, out @ out'))"

fun added_callbacks :: "('cb, 'tc) rm_operation list \<Rightarrow> 'cb list" where
  "added_callbacks [] = []"
| "added_callbacks (Rm_add p cb tc # ops) = cb # added_callbacks ops"
| "added_callbacks (_ # ops) = added_callbacks ops"

abbreviation pending_callbacks :: "('cb, 'tc) request_manager \<Rightarrow> 'cb multiset" where
  "pending_callbacks rm \<equiv> image_mset (\<lambda>(_, r). pr_callback r) (mset (pending_requests rm))"

abbreviation completed_callbacks :: "'cb completion list \<Rightarrow> 'cb multiset" where
  "completed_callbacks out \<equiv> image_mset fst (mset out)"

section \<open>Invariant and conservation\<close>

text \<open>
  Ids are distinct and at most the last one given out; exactly the pending requests can have an
  armed timer, and each has one armed or an expiry queued: no request is left without an end.
\<close>

definition rm_inv :: "('cb, 'tc) request_manager \<Rightarrow> bool" where
  "rm_inv rm \<longleftrightarrow>
     distinct (map fst (pending_requests rm)) \<and>
     (\<forall>rid \<in> map_keys (pending_requests rm). unat rid \<le> unat (next_request_id rm)) \<and>
     map_keys (waiting rm) \<subseteq> map_keys (pending_requests rm) \<and>
     map_keys (pending_requests rm) \<subseteq> map_keys (waiting rm) \<union> map_keys (expired rm)"

text \<open>What an operation promises: it keeps the invariant, loses and invents no callback.\<close>

definition rm_step_ok ::
    "('cb, 'tc) request_manager \<Rightarrow> 'cb multiset \<Rightarrow> ('cb, 'tc) request_manager \<Rightarrow> 'cb completion list \<Rightarrow>
     bool" where
  "rm_step_ok rm new rm' out \<longleftrightarrow>
     rm_inv rm' \<and> next_request_id rm' = next_request_id rm \<and>
     completed_callbacks out + pending_callbacks rm' = new + pending_callbacks rm"

lemma new_request_manager_inv [simp]: "rm_inv new_request_manager"
  by (simp add: rm_inv_def new_request_manager_def)

lemma rm_complete_ok:
  assumes "rm_inv rm" and "rm_complete rid ec data rm = (rm', out)"
  shows "rm_step_ok rm {#} rm' out"
proof (cases "map_of (pending_requests rm) rid")
  case None
  then show ?thesis using assms by (auto simp: rm_complete_def rm_step_ok_def)
next
  case (Some r)
  have "mset (pending_requests rm) = {#(rid, r)#} + mset (remove_key rid (pending_requests rm))"
    using assms(1) Some by (intro mset_remove_key) (auto simp: rm_inv_def)
  then show ?thesis
    using assms Some
    by (auto simp: rm_complete_def complete_request_def rm_step_ok_def rm_inv_def
        distinct_remove_key)
qed

lemma rm_complete_of_peer_ok:
  assumes "rm_inv rm" and "rm_complete_of_peer p rid ec data rm = (rm', out)"
  shows "rm_step_ok rm {#} rm' out"
  using assms rm_complete_ok [OF assms(1)]
  by (auto simp: rm_complete_of_peer_def rm_step_ok_def split: option.splits if_splits)

lemma rm_add_ok:
  assumes "rm_inv rm" and "unat (next_request_id rm) < 2 ^ 64 - 1"
    and "rm_add p cb tc rm = (rid, rm')"
  shows "rm_inv rm'" "pending_callbacks rm' = {#cb#} + pending_callbacks rm"
    "unat (next_request_id rm') = Suc (unat (next_request_id rm))" "rid = next_request_id rm'"
proof -
  let ?n = "next_request_id rm"
  have n: "unat (?n + 1) = Suc (unat ?n)"
    using assms(2) by (intro unat_plus_one)
  have fresh: "?n + 1 \<notin> map_keys (pending_requests rm)"
    using assms(1) n by (fastforce simp: rm_inv_def)
  then have rm': "rid = ?n + 1"
      "rm' = rm\<lparr>next_request_id := ?n + 1,
         pending_requests := pending_requests rm @ [(?n + 1, \<lparr>pr_peer_id = p, pr_callback = cb\<rparr>)],
         waiting := waiting rm @ [(?n + 1, tc)]\<rparr>"
    using assms(3) by (auto simp: rm_add_def Let_def)
  show "rid = next_request_id rm'" "pending_callbacks rm' = {#cb#} + pending_callbacks rm"
    "unat (next_request_id rm') = Suc (unat ?n)"
    by (simp_all add: rm' n)
  note fresh
  moreover have "\<forall>rid \<in> map_keys (pending_requests rm). unat rid \<le> unat (?n + 1)"
    using assms(1) n by (auto simp: rm_inv_def)
  ultimately show "rm_inv rm'"
    using assms(1) by (auto simp: rm_inv_def rm' map_keys_def)
qed

text \<open>The two loops in closed form: which entries go, and what is delivered for them.\<close>

definition of_peer :: "peer_id \<Rightarrow> request_id \<times> 'cb pending_request \<Rightarrow> bool" where
  "of_peer p x \<longleftrightarrow> pr_peer_id (snd x) = Some p"

definition remove_keys :: "'k set \<Rightarrow> ('k \<times> 'v) list \<Rightarrow> ('k \<times> 'v) list" where
  "remove_keys K xs = filter (\<lambda>x. fst x \<notin> K) xs"

lemma remove_keys_remove_key: "remove_keys K (remove_key k xs) = remove_keys (insert k K) xs"
  by (induction xs) (auto simp: remove_keys_def remove_key_def)

lemma map_keys_remove_keys [simp]: "map_keys (remove_keys K xs) = map_keys xs - K"
  by (auto simp: map_keys_def remove_keys_def)

lemma remove_keys_empty [simp]: "remove_keys {} xs = xs"
  by (simp add: remove_keys_def)

definition completion_of :: "error_code \<Rightarrow> request_id \<times> 'cb pending_request \<Rightarrow> 'cb completion" where
  "completion_of ec x = (pr_callback (snd x), ec, None)"

lemma complete_peer_loop_eq:
  "complete_peer_loop p ec it rm =
     (rm\<lparr>pending_requests := remove_keys (map_keys (filter (of_peer p) it)) (pending_requests rm),
         waiting := remove_keys (map_keys (filter (of_peer p) it)) (waiting rm)\<rparr>,
      map (completion_of ec) (filter (of_peer p) it))"
proof (induction p ec it rm rule: complete_peer_loop.induct)
  case (1 p ec rm)
  then show ?case by simp
next
  case (2 p ec rid r it rm)
  show ?case
  proof (cases "pr_peer_id r = Some p")
    case True
    then show ?thesis
      using "2.IH"(1) [OF True] by (simp add: complete_request_def of_peer_def Let_def
          remove_keys_remove_key completion_of_def)
  next
    case False
    then show ?thesis using "2.IH"(2) by (simp add: of_peer_def)
  qed
qed

lemma complete_all_loop_eq:
  "complete_all_loop ec it rm =
     (rm\<lparr>waiting := remove_keys (map_keys it) (waiting rm)\<rparr>, map (completion_of ec) it)"
  by (induction ec it rm rule: complete_all_loop.induct)
     (simp_all add: complete_request_def Let_def remove_keys_remove_key completion_of_def)

lemma remove_keys_filter:
  assumes "distinct (map fst xs)"
  shows "remove_keys (map_keys (filter P xs)) xs = filter (\<lambda>x. \<not> P x) xs"
  unfolding remove_keys_def
proof (rule filter_cong [OF refl])
  fix x assume "x \<in> set xs"
  then show "(fst x \<notin> map_keys (filter P xs)) = (\<not> P x)"
    using assms by (auto simp: map_keys_def distinct_map dest: inj_onD)
qed

lemma rm_complete_peer_eq:
  assumes "rm_inv rm"
  shows "rm_complete_peer p ec rm =
     (rm\<lparr>pending_requests := filter (\<lambda>x. \<not> of_peer p x) (pending_requests rm),
         waiting := remove_keys (map_keys (filter (of_peer p) (pending_requests rm))) (waiting rm)\<rparr>,
      map (completion_of ec) (filter (of_peer p) (pending_requests rm)))"
  using assms by (simp add: rm_complete_peer_def complete_peer_loop_eq remove_keys_filter rm_inv_def)

lemma rm_complete_all_eq:
  assumes "rm_inv rm"
  shows "rm_complete_all ec rm =
     (rm\<lparr>pending_requests := [], waiting := []\<rparr>, map (completion_of ec) (pending_requests rm))"
proof -
  have "remove_keys (map_keys (pending_requests rm)) (waiting rm) = []"
    using assms by (auto simp: rm_inv_def remove_keys_def filter_empty_conv map_keys_def)
  then show ?thesis
    by (simp add: rm_complete_all_def complete_all_loop_eq)
qed

lemma completed_completion_of:
  "completed_callbacks (map (completion_of ec) xs) = image_mset (\<lambda>(_, r). pr_callback r) (mset xs)"
  by (induction xs) (auto simp: completion_of_def)

lemma rm_complete_peer_ok:
  assumes "rm_inv rm" and "rm_complete_peer p ec rm = (rm', out)"
  shows "rm_step_ok rm {#} rm' out"
proof -
  let ?P = "of_peer p"
  let ?ps = "pending_requests rm"
  have rm': "rm' = rm\<lparr>pending_requests := filter (\<lambda>x. \<not> ?P x) ?ps,
      waiting := remove_keys (map_keys (filter ?P ?ps)) (waiting rm)\<rparr>"
    and out: "out = map (completion_of ec) (filter ?P ?ps)"
    using assms by (simp_all add: rm_complete_peer_eq)
  have split: "mset (filter ?P ?ps) + mset (filter (\<lambda>x. \<not> ?P x) ?ps) = mset ?ps"
    by (simp add: multiset_partition [symmetric])
  have keys: "map_keys (filter (\<lambda>x. \<not> ?P x) ?ps) = map_keys ?ps - map_keys (filter ?P ?ps)"
    using remove_keys_filter [of ?ps ?P] assms(1) map_keys_remove_keys [of _ ?ps]
    by (metis rm_inv_def)
  have "rm_inv rm'"
    using assms(1) by (auto simp: rm_inv_def rm' keys distinct_map_filter)
  moreover have "completed_callbacks out + pending_callbacks rm' = pending_callbacks rm"
    unfolding out completed_completion_of by (simp add: rm' flip: image_mset_union split mset_filter)
  ultimately show ?thesis by (simp add: rm_step_ok_def rm')
qed

lemma rm_complete_all_ok:
  assumes "rm_inv rm" and "rm_complete_all ec rm = (rm', out)"
  shows "rm_step_ok rm {#} rm' out"
  using assms
  by (auto simp: rm_complete_all_eq rm_step_ok_def rm_inv_def completed_completion_of
      simp del: mset_map)

lemma timer_expires_ok: "rm_inv rm \<Longrightarrow> rm_step_ok rm {#} (timer_expires rid rm) []"
  by (auto simp: timer_expires_def rm_step_ok_def rm_inv_def split: option.splits)

text \<open>A queued expiry may be the last end of its request; its handler then completes it.\<close>

lemma run_expired_ok:
  assumes "rm_inv rm" and "run_expired rm = (rm', out, call)"
  shows "rm_step_ok rm {#} rm' out"
proof (cases "expired rm")
  case Nil
  then show ?thesis using assms by (auto simp: run_expired_def rm_step_ok_def)
next
  case (Cons x rest)
  obtain rid tc where x: "x = (rid, tc)" by fastforce
  show ?thesis
  proof (cases "map_of (pending_requests rm) rid")
    case None
    then have "rid \<notin> map_keys (pending_requests rm)" by (simp add: map_of_None_keys)
    then show ?thesis
      using assms Cons x None
      by (auto simp: run_expired_def request_timer_handler_def rm_step_ok_def rm_inv_def)
  next
    case (Some r)
    have key: "rid \<in> map_keys (pending_requests rm)"
      using Some by (rule map_of_Some_keys)
    have "mset (pending_requests rm) = {#(rid, r)#} + mset (remove_key rid (pending_requests rm))"
      using assms(1) Some by (intro mset_remove_key) (auto simp: rm_inv_def)
    then show ?thesis
      using assms Cons x Some key
      by (auto simp: run_expired_def request_timer_handler_def rm_complete_def complete_request_def
          rm_step_ok_def rm_inv_def distinct_remove_key)
  qed
qed

lemma rm_apply_ok:
  assumes "rm_inv rm" and "rm_apply op rm = (rm', out)" and "added_callbacks [op] = []"
  shows "rm_step_ok rm {#} rm' out"
  using assms
  by (cases op)
     (auto intro: rm_complete_ok rm_complete_of_peer_ok rm_complete_peer_ok rm_complete_all_ok
        timer_expires_ok run_expired_ok split: prod.splits)

lemma rm_run_ok:
  assumes "rm_inv rm" and "rm_run ops rm = (rm', out)"
    and "unat (next_request_id rm) + length (added_callbacks ops) < 2 ^ 64"
  shows "rm_inv rm' \<and>
    completed_callbacks out + pending_callbacks rm' =
      mset (added_callbacks ops) + pending_callbacks rm"
  using assms
proof (induction ops arbitrary: rm out)
  case Nil
  then show ?case by simp
next
  case (Cons op ops)
  obtain rm1 out1 out2 where step: "rm_apply op rm = (rm1, out1)" "rm_run ops rm1 = (rm', out2)"
      "out = out1 @ out2"
    using Cons.prems(2) by (auto simp: Let_def split: prod.splits)
  show ?case
  proof (cases "\<exists>p cb tc. op = Rm_add p cb tc")
    case True
    then obtain p cb tc where op: "op = Rm_add p cb tc" by blast
    have "rm_add p cb tc rm = (fst (rm_add p cb tc rm), rm1)" "out1 = []"
      using step(1) op by (auto simp: prod_eq_iff)
    note add = rm_add_ok [OF Cons.prems(1) _ this(1)] this(2)
    have n: "unat (next_request_id rm) < 2 ^ 64 - 1"
      using Cons.prems(3) op by simp
    show ?thesis
      using Cons.IH [OF add(1) step(2)] add(2,3,5) n Cons.prems(3) step(3) op
      by (simp add: union_ac)
  next
    case False
    then have none: "added_callbacks (op # ops) = added_callbacks ops" "added_callbacks [op] = []"
      by (cases op; auto)+
    have "rm_step_ok rm {#} rm1 out1"
      using rm_apply_ok [OF Cons.prems(1) step(1) none(2)] .
    then show ?thesis
      using Cons.IH [of rm1 out2] step(2,3) Cons.prems(3) none(1)
      by (auto simp: rm_step_ok_def union_ac)
  qed
qed

text \<open>No operation but an addition makes an id pending.\<close>

lemma rm_complete_pending_keys:
  "map_keys (pending_requests (fst (rm_complete rid ec data rm))) \<subseteq> map_keys (pending_requests rm)"
  by (auto simp: rm_complete_def complete_request_def split: option.splits)

lemma run_expired_pending_keys:
  "map_keys (pending_requests (fst (run_expired rm))) \<subseteq> map_keys (pending_requests rm)"
proof (cases "expired rm")
  case (Cons x rest)
  then show ?thesis
    using rm_complete_pending_keys [of "fst x" Timed_out None "rm\<lparr>expired := rest\<rparr>"]
    by (cases x) (simp add: run_expired_def request_timer_handler_def split_beta Let_def)
qed (simp add: run_expired_def)

lemma rm_apply_pending_keys:
  assumes "added_callbacks [op] = []"
  shows "map_keys (pending_requests (fst (rm_apply op rm))) \<subseteq> map_keys (pending_requests rm)"
proof (cases op)
  case (Rm_complete_of_peer p rid ec data)
  then show ?thesis
    using rm_complete_pending_keys [of rid ec data rm]
    by (simp add: rm_complete_of_peer_def split: option.split)
next
  case (Rm_timer_expires rid)
  then show ?thesis by (simp add: timer_expires_def split: option.split)
next
  case Rm_run_expired
  then show ?thesis using run_expired_pending_keys [of rm] by (simp add: split_beta Let_def)
next
  case (Rm_complete rid ec data)
  then show ?thesis using rm_complete_pending_keys by simp
qed (use assms in \<open>auto simp: rm_complete_peer_def complete_peer_loop_eq rm_complete_all_def
      complete_all_loop_eq Let_def\<close>)

lemma rm_run_no_reuse:
  assumes "rm_inv rm" and "rid \<notin> map_keys (pending_requests rm)"
    and "unat rid \<le> unat (next_request_id rm)"
    and "rm_run ops rm = (rm', out)"
    and "unat (next_request_id rm) + length (added_callbacks ops) < 2 ^ 64"
  shows "rid \<notin> map_keys (pending_requests rm')"
  using assms
proof (induction ops arbitrary: rm out)
  case Nil
  then show ?case by simp
next
  case (Cons op ops)
  obtain rm1 out1 out2 where step: "rm_apply op rm = (rm1, out1)" "rm_run ops rm1 = (rm', out2)"
    using Cons.prems(4) by (auto simp: Let_def split: prod.splits)
  show ?case
  proof (cases "\<exists>p cb tc. op = Rm_add p cb tc")
    case True
    then obtain p cb tc where op: "op = Rm_add p cb tc" by blast
    have rm1: "rm_add p cb tc rm = (fst (rm_add p cb tc rm), rm1)"
      using step(1) op by (auto simp: prod_eq_iff)
    have n: "unat (next_request_id rm) < 2 ^ 64 - 1"
      using Cons.prems(5) op by simp
    note add = rm_add_ok [OF Cons.prems(1) n rm1]
    have "rid \<noteq> next_request_id rm1"
      using add(3) Cons.prems(3) by auto
    then have "rid \<notin> map_keys (pending_requests rm1)"
      using rm1 Cons.prems(2) by (auto simp: rm_add_def Let_def split: if_splits)
    then show ?thesis
      using Cons.IH [OF add(1) _ _ step(2)] add(3) Cons.prems(3,5) op by simp
  next
    case False
    then have none: "added_callbacks (op # ops) = added_callbacks ops" "added_callbacks [op] = []"
      by (cases op; auto)+
    have ok: "rm_step_ok rm {#} rm1 out1"
      by (rule rm_apply_ok [OF Cons.prems(1) step(1) none(2)])
    have "rid \<notin> map_keys (pending_requests rm1)"
      using rm_apply_pending_keys [OF none(2), of rm] step(1) Cons.prems(2) by auto
    then show ?thesis
      using Cons.IH [OF _ _ _ step(2)] ok Cons.prems(3,5) none(1) by (simp add: rm_step_ok_def)
  qed
qed

section \<open>Properties\<close>

text \<open>C16: Exactly-once completion. Whatever sequence of operations runs on a new request
  manager (additions, responses, completions per peer or of all, timer expiries and their
  handlers, in any order), the callbacks delivered so far together with those still pending are
  exactly the callbacks registered, with multiplicity: none is lost and none is called twice.
  And every pending request still has an armed timer or a queued expiry, so it will end. (Ids
  are 64 bits wide: fewer than \<open>2 ^ 64\<close> requests.)\<close>

theorem request_callbacks_exactly_once:
  assumes "rm_run ops new_request_manager = (rm, out)"
    and "length (added_callbacks ops) < 2 ^ 64"
  shows "completed_callbacks out + pending_callbacks rm = mset (added_callbacks ops) \<and>
    map_keys (pending_requests rm) \<subseteq> map_keys (waiting rm) \<union> map_keys (expired rm)"
proof -
  have "rm_inv rm \<and> completed_callbacks out + pending_callbacks rm =
      mset (added_callbacks ops) + pending_callbacks (new_request_manager :: ('a, 'b) request_manager)"
    by (rule rm_run_ok [OF new_request_manager_inv assms(1)])
       (use assms(2) in \<open>simp add: new_request_manager_def\<close>)
  then show ?thesis
    by (simp add: new_request_manager_def rm_inv_def)
qed

lemma request_callbacks_exactly_once_witness:
  "\<exists>rm out. rm_run [Rm_add None (10 :: nat) (None :: nat option), Rm_complete 1 No_error (Some [1]),
       Rm_complete_all Eof] new_request_manager = (rm, out) \<and> completed_callbacks out + pending_callbacks rm = {#10#}"
proof -
  let ?ops = "[Rm_add None (10 :: nat) (None :: nat option), Rm_complete 1 No_error (Some [1]), Rm_complete_all Eof]"
  obtain rm out where run: "rm_run ?ops new_request_manager = (rm, out)" by fastforce
  then show ?thesis
    using request_callbacks_exactly_once [OF run] by auto
qed

text \<open>C34: Ids are not reused and a completed request stays completed: whatever operations follow,
  a late expiry of its timer delivers nothing and does not call the timeout callback, and a late
  response, from whichever peer, is ignored.\<close>

theorem completed_request_stays_completed:
  assumes "rm_inv rm" and "rid \<notin> map_keys (pending_requests rm)"
    and "unat rid \<le> unat (next_request_id rm)"
    and "rm_run ops rm = (rm', out)"
    and "unat (next_request_id rm) + length (added_callbacks ops) < 2 ^ 64"
  shows "request_timer_handler rid tc No_error rm' = (rm', [], None) \<and>
    rm_complete rid ec data rm' = (rm', []) \<and> rm_complete_of_peer p rid ec data rm' = (rm', [])"
proof -
  have "rid \<notin> map_keys (pending_requests rm')"
    using rm_run_no_reuse [OF assms] .
  then have "rid \<notin> map_keys (pending_requests rm')" "map_of (pending_requests rm') rid = None"
    by (simp_all add: map_of_None_keys)
  then show ?thesis
    by (simp add: request_timer_handler_def rm_complete_def rm_complete_of_peer_def)
qed

text \<open>A request manager with two pending requests, for peers 1 and 2, built by its operations.\<close>

definition two_requests :: "(nat, nat) request_manager" where
  "two_requests =
     fst (rm_run [Rm_add (Some 1) 10 None, Rm_add (Some 2) 20 None] new_request_manager)"

lemma two_requests_inv: "rm_inv two_requests"
  by (simp add: two_requests_def new_request_manager_def rm_add_def Let_def rm_inv_def)

lemma completed_request_stays_completed_witness:
  "\<exists>rm out. rm_run [Rm_complete 1 No_error None] two_requests = (rm, out) \<and>
     rm_complete 1 Timed_out None (fst (rm_run [Rm_complete_all Eof] rm)) =
       (fst (rm_run [Rm_complete_all Eof] rm), [])"
proof -
  obtain rm out where run: "rm_run [Rm_complete 1 No_error None] two_requests = (rm, out)" by fastforce
  then have rm: "rm = two_requests\<lparr>pending_requests := remove_key 1 (pending_requests two_requests),
      waiting := remove_key 1 (waiting two_requests)\<rparr>"
    by (simp add: two_requests_def new_request_manager_def rm_add_def Let_def rm_complete_def
        complete_request_def)
  have inv: "rm_inv rm" and absent: "1 \<notin> map_keys (pending_requests rm)"
    and issued: "unat (1 :: request_id) \<le> unat (next_request_id rm)"
    and few: "unat (next_request_id rm) + length (added_callbacks [Rm_complete_all Eof :: (nat, nat) rm_operation]) < 2 ^ 64"
    unfolding rm
    by (simp_all add: two_requests_def new_request_manager_def rm_add_def Let_def rm_inv_def
        remove_key_def)
  obtain rm' out' where run': "rm_run [Rm_complete_all Eof] rm = (rm', out')" by fastforce
  from completed_request_stays_completed [OF inv absent issued run' few, of None Timed_out None 1]
  show ?thesis using run run' by auto
qed

text \<open>When a peer goes away, exactly its own requests are completed, each once with the
  given error and no data; the requests of other peers stay, with their timers.\<close>

theorem complete_peer_only_its_requests:
  assumes "rm_inv rm" and "rm_complete_peer p ec rm = (rm', out)"
  shows "mset out = 
      image_mset (\<lambda>(_, r). (pr_callback r, ec, None)) (filter_mset (of_peer p) (mset (pending_requests rm))) \<and>
    pending_requests rm' = filter (\<lambda>x. \<not> of_peer p x) (pending_requests rm) \<and>
    map_keys (waiting rm') = map_keys (waiting rm) - map_keys (filter (of_peer p) (pending_requests rm))"
proof -
  have "mset (map (completion_of ec) xs) = 
      image_mset (\<lambda>(_, r). (pr_callback r, ec, None)) (mset xs)"
    for xs :: "(u64 \<times> 'a pending_request) list"
    by (induction xs) (auto simp: completion_of_def)
  then show ?thesis
    using assms by (auto simp: rm_complete_peer_eq simp del: mset_map)
qed

lemma complete_peer_only_its_requests_witness:
  "\<exists>rm out. rm_complete_peer 1 Eof two_requests = (rm, out) \<and> mset out = {#(10, Eof, None)#}"
proof -
  obtain rm out where run: "rm_complete_peer 1 Eof two_requests = (rm, out)" by fastforce
  have "filter_mset (of_peer 1) (mset (pending_requests two_requests)) =
      {#(1, \<lparr>pr_peer_id = Some 1, pr_callback = 10\<rparr>)#}"
    by (simp add: two_requests_def new_request_manager_def rm_add_def Let_def of_peer_def)
  then show ?thesis
    using complete_peer_only_its_requests [OF two_requests_inv run] run by simp
qed

end
