(* ===== verification/Peer.thy ===== *)
theory Peer
  imports Protocol Options
begin

text \<open>
  One connection (\<^verbatim>\<open>impl/peer.hpp\<close>): the reader that parses frames, the bounded write queue,
  the five timers and the close. Every member function of the code that runs on the executor is
  one function on the record \<open>peer\<close>; every completion handler (a lambda given to an
  asynchronous operation) is one constructor of \<open>handler\<close> and one function.

  What the code uses of asio is modelled by its documented behaviour: a single-threaded executor
  with a FIFO queue of handlers; a timer with at most one wait, whose handler gets
  \<open>Operation_aborted\<close> when it is cancelled in time and \<open>No_error\<close> once it has expired, even
  if it is cancelled between expiry and the run of its handler; composed reads and writes that
  end with their buffer full, with an error, or aborted by the close of the socket.
\<close>

section \<open>State\<close>

datatype peer_timer =
    Ready_deadline | Heartbeat_timer | Heartbeat_deadline | Read_deadline | Write_deadline

datatype read_operation = Read_header | Read_body

text \<open>
  The queue of the executor, restricted to this peer: posted functions, timer handlers, the
  intermediate handlers of composed operations, and their completion handlers with error code
  and bytes transferred. The number of \<^verbatim>\<open>async_close\<close>'s completion function names it.
\<close>

datatype handler =
    Start_task
  | Close_task "nat option"
  | Push_frame_task bytes
  | Timer_handler peer_timer error_code
  | Continue_read read_operation
  | Continue_write bytes
  | Read_handler read_operation error_code nat
  | Write_handler error_code

text \<open>The functions the peer puts on the dispatcher: emissions of its signals.\<close>

datatype peer_signal =
    Sig_ready
  | Sig_received bytes
  | Sig_request_received request_id bytes
  | Sig_response_received request_id bytes
  | Sig_health_check_response_received
  | Sig_error_occurred error_code
  | Sig_closed

text \<open>
  The members of the class, then the state of the asynchronous operations (\<open>armed\<close> waits,
  outstanding \<open>reading\<close> and \<open>writing\<close>, queued \<open>handlers\<close>), then what can be observed: the
  \<open>signals\<close> in the order they were enqueued, the frames \<open>accepted\<close> by \<^verbatim>\<open>push_frame\<close> and
  \<open>sent\<close> completely, the \<open>completions\<close> of \<^verbatim>\<open>async_close\<close> that have run, and whether the
  code has executed \<open>undefined_behaviour\<close> (an out-of-range read, a pop of an empty queue).
\<close>

record peer =
  socket_open :: bool
  peer_options :: common_parameters
  closed_on_executor :: bool
  ready :: bool
  close_after_write :: bool
  read_header_buffer :: bytes
  read_body_buffer :: bytes
  write_queue :: "bytes list"
  expiry :: "peer_timer \<Rightarrow> milliseconds"
  armed :: "peer_timer \<Rightarrow> bool"
  reading :: "read_operation list"
  writing :: "bytes list"
  handlers :: "handler list"
  signals :: "peer_signal list"
  accepted_frames :: "bytes list"
  sent_frames :: "bytes list"
  completions :: "nat list"
  undefined_behaviour :: bool

definition new_peer :: "common_parameters \<Rightarrow> peer" where
  "new_peer options =
     \<lparr>socket_open = True, peer_options = options, closed_on_executor = False, ready = False,
      close_after_write = False, read_header_buffer = [0, 0, 0, 0], read_body_buffer = [],
      write_queue = [], expiry = (\<lambda>_. 0), armed = (\<lambda>_. False), reading = [], writing = [],
      handlers = [], signals = [], accepted_frames = [], sent_frames = [], completions = [],
      undefined_behaviour = False\<rparr>"

section \<open>The asynchronous primitives\<close>

definition post :: "handler \<Rightarrow> peer \<Rightarrow> peer" where
  "post h p = p\<lparr>handlers := handlers p @ [h]\<rparr>"

definition enqueue_signal :: "peer_signal \<Rightarrow> peer \<Rightarrow> peer" where
  "enqueue_signal s p = p\<lparr>signals := signals p @ [s]\<rparr>"

definition cancel_timer :: "peer_timer \<Rightarrow> peer \<Rightarrow> peer" where
  "cancel_timer t p =
     (if armed p t then post (Timer_handler t Operation_aborted) (p\<lparr>armed := (armed p)(t := False)\<rparr>)
      else p)"

definition expires_after :: "peer_timer \<Rightarrow> milliseconds \<Rightarrow> peer \<Rightarrow> peer" where
  "expires_after t d p = (cancel_timer t p)\<lparr>expiry := (expiry p)(t := d)\<rparr>"

definition async_wait :: "peer_timer \<Rightarrow> peer \<Rightarrow> peer" where
  "async_wait t p = p\<lparr>armed := (armed p)(t := True)\<rparr>"

text \<open>Starting an operation on a closed socket completes it with \<open>Bad_descriptor\<close>.\<close>

definition async_read :: "read_operation \<Rightarrow> peer \<Rightarrow> peer" where
  "async_read r p =
     (if socket_open p then p\<lparr>reading := reading p @ [r]\<rparr>
      else post (Read_handler r Bad_descriptor 0) p)"

definition async_write :: "bytes \<Rightarrow> peer \<Rightarrow> peer" where
  "async_write frame p =
     (if socket_open p then p\<lparr>writing := writing p @ [frame]\<rparr>
      else post (Write_handler Bad_descriptor) p)"

text \<open>\<^verbatim>\<open>socket_.cancel\<close> and \<^verbatim>\<open>socket_.close\<close> abort the outstanding operations.\<close>

definition socket_close :: "peer \<Rightarrow> peer" where
  "socket_close p =
     p\<lparr>socket_open := False, reading := [], writing := [],
       handlers := handlers p @ map (\<lambda>r. Read_handler r Operation_aborted 0) (reading p)
                              @ map (\<lambda>_. Write_handler Operation_aborted) (writing p)\<rparr>"

definition vector_resize :: "nat \<Rightarrow> bytes \<Rightarrow> bytes" where
  "vector_resize n xs = take n xs @ replicate (n - length xs) 0"

section \<open>Closing\<close>

definition close_socket :: "peer \<Rightarrow> peer" where
  "close_socket p =
     (let p = p\<lparr>closed_on_executor := True\<rparr>;
          p = cancel_timer Ready_deadline p;
          p = cancel_timer Heartbeat_timer p;
          p = cancel_timer Heartbeat_deadline p;
          p = cancel_timer Read_deadline p;
          p = cancel_timer Write_deadline p
      in socket_close p)"

definition peer_close :: "peer \<Rightarrow> peer" where
  "peer_close p =
     (let socket_was_open = socket_open p;
          p = close_socket p
      in if socket_was_open then enqueue_signal Sig_closed p else p)"

definition handle_error :: "error_code \<Rightarrow> peer \<Rightarrow> peer" where
  "handle_error ec p =
     (if ec = Operation_aborted then p
      else peer_close (enqueue_signal (Sig_error_occurred ec) p))"

section \<open>Writing\<close>

definition valid_outgoing_frame :: "common_parameters \<Rightarrow> bytes \<Rightarrow> bool" where
  "valid_outgoing_frame options frame =
     (if vsize frame < header_size + type_size then False
      else
        let header = take 4 frame;
            body_size = (ucast (decode_uint32 header) :: size_t)
        in if vsize frame \<noteq> header_size + body_size \<or> body_size < type_size then False
           else (case message_type_of_byte (frame ! 4) of
                   Some request \<Rightarrow>
                     body_size \<ge> type_size + request_id_size \<and>
                     body_size \<le> max_message_size options + type_size + request_id_size
                 | Some response \<Rightarrow>
                     body_size \<ge> type_size + request_id_size \<and>
                     body_size \<le> max_message_size options + type_size + request_id_size
                 | Some heartbeat \<Rightarrow> body_size \<le> max_message_size options + type_size
                 | Some user_data \<Rightarrow> body_size \<le> max_message_size options + type_size
                 | Some health_check \<Rightarrow> body_size \<le> max_message_size options + type_size
                 | Some health_check_response \<Rightarrow> body_size \<le> max_message_size options + type_size
                 | None \<Rightarrow> False))"

definition peer_write :: "peer \<Rightarrow> peer" where
  "peer_write p =
     (if \<not> socket_open p \<or> write_queue p = [] then p
      else
        let p = expires_after Write_deadline (write_timeout (peer_options p)) p;
            p = async_wait Write_deadline p
        in async_write (hd (write_queue p)) p)"

definition push_frame :: "bytes \<Rightarrow> peer \<Rightarrow> peer" where
  "push_frame frame p =
     (if \<not> socket_open p then p
      else if \<not> valid_outgoing_frame (peer_options p) frame \<or>
              vsize (write_queue p) \<ge> max_send_queue_size (peer_options p)
      then handle_error No_buffer_space p
      else
        let was_empty = (write_queue p = []);
            p = p\<lparr>write_queue := write_queue p @ [frame],
                  accepted_frames := accepted_frames p @ [frame]\<rparr>
        in if was_empty then peer_write p else p)"

definition write_handler :: "error_code \<Rightarrow> peer \<Rightarrow> peer" where
  "write_handler ec p =
     (let p = cancel_timer Write_deadline p
      in if is_error ec then handle_error ec p
         else (case write_queue p of
                 [] \<Rightarrow> p\<lparr>undefined_behaviour := True\<rparr>
               | frame # rest \<Rightarrow>
                   let p = p\<lparr>write_queue := rest, sent_frames := sent_frames p @ [frame]\<rparr>
                   in if write_queue p = [] \<and> close_after_write p then peer_close p
                      else peer_write p))"

section \<open>Timers\<close>

definition start_heartbeat_timer :: "peer \<Rightarrow> peer" where
  "start_heartbeat_timer p =
     async_wait Heartbeat_timer
       (expires_after Heartbeat_timer
          (normalize_scheduling_interval (heartbeat_interval (peer_options p))) p)"

definition heartbeat_timer_handler :: "error_code \<Rightarrow> peer \<Rightarrow> peer" where
  "heartbeat_timer_handler ec p =
     (if \<not> is_error ec \<and> socket_open p
      then start_heartbeat_timer (push_frame make_heartbeat_frame p)
      else p)"

definition refresh_heartbeat_deadline :: "peer \<Rightarrow> peer" where
  "refresh_heartbeat_deadline p =
     async_wait Heartbeat_deadline
       (expires_after Heartbeat_deadline (heartbeat_timeout (peer_options p)) p)"

definition start_read_deadline :: "peer \<Rightarrow> peer" where
  "start_read_deadline p =
     async_wait Read_deadline (expires_after Read_deadline (read_timeout (peer_options p)) p)"

text \<open>The handlers of the heartbeat, read and write deadlines are the same.\<close>

definition deadline_handler :: "error_code \<Rightarrow> peer \<Rightarrow> peer" where
  "deadline_handler ec p = (if \<not> is_error ec then handle_error Timed_out p else p)"

definition ensure_ready :: "peer \<Rightarrow> peer" where
  "ensure_ready p =
     (if ready p then p
      else enqueue_signal Sig_ready (cancel_timer Ready_deadline (p\<lparr>ready := True\<rparr>)))"

definition start_ready_deadline :: "peer \<Rightarrow> peer" where
  "start_ready_deadline p = async_wait Ready_deadline (expires_after Ready_deadline 100 p)"

definition ready_deadline_handler :: "error_code \<Rightarrow> peer \<Rightarrow> peer" where
  "ready_deadline_handler ec p = (if \<not> is_error ec then ensure_ready p else p)"

section \<open>Reading\<close>

definition read_header :: "peer \<Rightarrow> peer" where
  "read_header p =
     (if \<not> socket_open p then p else async_read Read_header (start_read_deadline p))"

definition read_body :: "peer \<Rightarrow> peer" where
  "read_body p = async_read Read_body (start_read_deadline p)"

definition read_header_handler :: "error_code \<Rightarrow> nat \<Rightarrow> peer \<Rightarrow> peer" where
  "read_header_handler ec bytes_transferred p =
     (let p = cancel_timer Read_deadline p
      in if is_error ec
         then (if ec = Eof \<and> bytes_transferred = 0 then peer_close p else handle_error ec p)
         else if bytes_transferred \<noteq> unat header_size then handle_error Message_size p
         else
           let body_size = decode_uint32 (read_header_buffer p)
           in if (ucast body_size :: size_t) < type_size \<or>
                 ucast body_size >
                   max_message_size (peer_options p) + type_size + request_id_size
              then handle_error Message_size p
              else read_body (p\<lparr>read_body_buffer :=
                                  vector_resize (unat body_size) (read_body_buffer p)\<rparr>))"

text \<open>
  The switch on the message type: the peer after the case, and whether control falls through
  to the next \<^verbatim>\<open>read_header\<close> (a \<^verbatim>\<open>break\<close>) or the handler has returned.
\<close>

definition handle_user_data :: "peer \<Rightarrow> peer \<times> bool" where
  "handle_user_data p =
     (let p = ensure_ready p
      in if vsize (read_body_buffer p) > max_message_size (peer_options p) + type_size
         then (handle_error Message_size p, False)
         else (enqueue_signal (Sig_received (drop 1 (read_body_buffer p))) p, True))"

definition handle_request_response :: "message_type \<Rightarrow> peer \<Rightarrow> peer \<times> bool" where
  "handle_request_response type p =
     (let p = ensure_ready p
      in if vsize (read_body_buffer p) < type_size + request_id_size \<or>
            vsize (read_body_buffer p) >
              max_message_size (peer_options p) + type_size + request_id_size
         then (handle_error Message_size p, False)
         else (case decode_uint64 (read_body_buffer p) 1 of
                 None \<Rightarrow> (p\<lparr>undefined_behaviour := True\<rparr>, False)
               | Some rid \<Rightarrow>
                   let v = drop 9 (read_body_buffer p)
                   in (enqueue_signal (if type = request then Sig_request_received rid v
                                       else Sig_response_received rid v) p, True)))"

definition handle_health_check :: "peer \<Rightarrow> peer \<times> bool" where
  "handle_health_check p =
     (if ready p then (handle_error Operation_not_supported p, False)
      else (push_frame make_health_check_response_frame (p\<lparr>close_after_write := True\<rparr>), False))"

definition dispatch_body :: "peer \<Rightarrow> peer \<times> bool" where
  "dispatch_body p =
     (case read_body_buffer p of
        [] \<Rightarrow> (p\<lparr>undefined_behaviour := True\<rparr>, False)
      | b # _ \<Rightarrow>
          (case message_type_of_byte b of
             Some heartbeat \<Rightarrow> (p, True)
           | Some user_data \<Rightarrow> handle_user_data p
           | Some request \<Rightarrow> handle_request_response request p
           | Some response \<Rightarrow> handle_request_response response p
           | Some health_check \<Rightarrow> handle_health_check p
           | Some health_check_response \<Rightarrow>
               (enqueue_signal Sig_health_check_response_received p, True)
           | None \<Rightarrow> (handle_error Invalid_argument p, False)))"

definition read_body_handler :: "error_code \<Rightarrow> nat \<Rightarrow> peer \<Rightarrow> peer" where
  "read_body_handler ec bytes_transferred p =
     (let p = cancel_timer Read_deadline p
      in if is_error ec then handle_error ec p
         else if bytes_transferred \<noteq> length (read_body_buffer p) then handle_error Message_size p
         else (case dispatch_body (refresh_heartbeat_deadline p) of
                 (p, fall_through) \<Rightarrow> (if fall_through then read_header p else p)))"

section \<open>Public operations and the executor\<close>

definition async_start :: "peer \<Rightarrow> peer" where
  "async_start p = post Start_task p"

definition start_task :: "peer \<Rightarrow> peer" where
  "start_task p =
     read_header (refresh_heartbeat_deadline (start_heartbeat_timer (start_ready_deadline p)))"

definition async_close :: "nat option \<Rightarrow> peer \<Rightarrow> peer" where
  "async_close completion p = post (Close_task completion) p"

definition close_task :: "nat option \<Rightarrow> peer \<Rightarrow> peer" where
  "close_task completion p =
     (let p = peer_close p
      in case completion of None \<Rightarrow> p | Some c \<Rightarrow> p\<lparr>completions := completions p @ [c]\<rparr>)"

definition async_push_frame :: "bytes \<Rightarrow> peer \<Rightarrow> peer" where
  "async_push_frame frame p = post (Push_frame_task frame) p"

definition async_send :: "bytes \<Rightarrow> peer \<Rightarrow> peer" where
  "async_send data p = async_push_frame (make_user_data_frame data) p"

definition async_send_request :: "request_id \<Rightarrow> bytes \<Rightarrow> peer \<Rightarrow> peer" where
  "async_send_request rid data p = async_push_frame (make_request_frame rid data) p"

definition async_send_response :: "request_id \<Rightarrow> bytes \<Rightarrow> peer \<Rightarrow> peer" where
  "async_send_response rid data p = async_push_frame (make_response_frame rid data) p"

definition async_send_health_check :: "peer \<Rightarrow> peer" where
  "async_send_health_check p = async_push_frame make_health_check_frame p"

text \<open>\<^verbatim>\<open>~peer\<close> aborts the process unless the socket was closed on the executor.\<close>

definition destructor_aborts :: "peer \<Rightarrow> bool" where
  "destructor_aborts p \<longleftrightarrow> \<not> closed_on_executor p"

fun timer_handler :: "peer_timer \<Rightarrow> error_code \<Rightarrow> peer \<Rightarrow> peer" where
  "timer_handler Ready_deadline ec p = ready_deadline_handler ec p"
| "timer_handler Heartbeat_timer ec p = heartbeat_timer_handler ec p"
| "timer_handler Heartbeat_deadline ec p = deadline_handler ec p"
| "timer_handler Read_deadline ec p = deadline_handler ec p"
| "timer_handler Write_deadline ec p = deadline_handler ec p"

fun run_handler :: "handler \<Rightarrow> peer \<Rightarrow> peer" where
  "run_handler Start_task p = start_task p"
| "run_handler (Close_task c) p = close_task c p"
| "run_handler (Push_frame_task frame) p = push_frame frame p"
| "run_handler (Timer_handler t ec) p = timer_handler t ec p"
| "run_handler (Continue_read r) p = async_read r p"
| "run_handler (Continue_write frame) p = async_write frame p"
| "run_handler (Read_handler Read_header ec n) p = read_header_handler ec n p"
| "run_handler (Read_handler Read_body ec n) p = read_body_handler ec n p"
| "run_handler (Write_handler ec) p = write_handler ec p"

definition run_next :: "peer \<Rightarrow> peer" where
  "run_next p = (case handlers p of [] \<Rightarrow> p | h # hs \<Rightarrow> run_handler h (p\<lparr>handlers := hs\<rparr>))"

text \<open>Run queued handlers until none is left, at most \<open>n\<close> of them.\<close>

fun run_queued :: "nat \<Rightarrow> peer \<Rightarrow> peer" where
  "run_queued 0 p = p"
| "run_queued (Suc n) p = (if handlers p = [] then p else run_queued n (run_next p))"

end
