(* ===== verification/Peer_Invariant.thy ===== *)
theory Peer_Invariant
  imports Peer
begin

text \<open>
  The connection as a machine: the executor runs the queued handlers in order while the
  environment expires timers, transfers bytes, fails operations and posts requests of other
  threads. The invariant says what the interleavings of the handlers preserve: one read and one
  write operation at a time, one \<^verbatim>\<open>closed\<close> and one \<^verbatim>\<open>ready\<close> notification, a bounded queue of
  valid frames written in order, no undefined behaviour, and no open connection that has stopped
  reading.
\<close>

section \<open>Steps\<close>

definition buffer_size :: "read_operation \<Rightarrow> peer \<Rightarrow> nat" where
  "buffer_size r p = (case r of Read_header \<Rightarrow> length (read_header_buffer p)
                      | Read_body \<Rightarrow> length (read_body_buffer p))"

definition store_read :: "read_operation \<Rightarrow> bytes \<Rightarrow> peer \<Rightarrow> peer" where
  "store_read r bs p =
     (case r of Read_header \<Rightarrow> p\<lparr>read_header_buffer := bs @ drop (length bs) (read_header_buffer p)\<rparr>
      | Read_body \<Rightarrow> p\<lparr>read_body_buffer := bs @ drop (length bs) (read_body_buffer p)\<rparr>)"

text \<open>
  Documented behaviour of the operations: a read succeeds with its buffer full; a failed
  operation reports an error, and \<open>Operation_aborted\<close> or \<open>Bad_descriptor\<close> only once its socket
  was closed.
\<close>

definition io_error :: "error_code \<Rightarrow> bool" where
  "io_error ec \<longleftrightarrow> is_error ec \<and> ec \<noteq> Operation_aborted \<and> ec \<noteq> Bad_descriptor"

definition expire_timer :: "peer_timer \<Rightarrow> peer \<Rightarrow> peer" where
  "expire_timer t p = post (Timer_handler t No_error) (p\<lparr>armed := (armed p)(t := False)\<rparr>)"

text \<open>The outstanding read succeeds with \<open>bs\<close> in its buffer.\<close>

definition complete_read :: "bytes \<Rightarrow> peer \<Rightarrow> peer" where
  "complete_read bs p =
     (case reading p of
        [] \<Rightarrow> p
      | r # rs \<Rightarrow> post (Read_handler r No_error (length bs)) (store_read r bs (p\<lparr>reading := rs\<rparr>)))"

inductive peer_step :: "peer \<Rightarrow> peer \<Rightarrow> bool" where
  ps_run: "handlers p = h # hs \<Longrightarrow> peer_step p (run_handler h (p\<lparr>handlers := hs\<rparr>))"
| ps_timer: "armed p t \<Longrightarrow> peer_step p (expire_timer t p)"
| ps_read_some: "reading p = r # rs \<Longrightarrow> length bs < buffer_size r p \<Longrightarrow>
    peer_step p (post (Continue_read r) (store_read r bs (p\<lparr>reading := rs\<rparr>)))"
| ps_read_full: "reading p = r # rs \<Longrightarrow> length bs = buffer_size r p \<Longrightarrow>
    peer_step p (complete_read bs p)"
| ps_read_error: "reading p = r # rs \<Longrightarrow> length bs < buffer_size r p \<Longrightarrow> io_error ec \<Longrightarrow>
    peer_step p (post (Read_handler r ec (length bs)) (store_read r bs (p\<lparr>reading := rs\<rparr>)))"
| ps_write_some: "writing p = f # fs \<Longrightarrow>
    peer_step p (post (Continue_write f) (p\<lparr>writing := fs\<rparr>))"
| ps_write_done: "writing p = f # fs \<Longrightarrow>
    peer_step p (post (Write_handler No_error) (p\<lparr>writing := fs\<rparr>))"
| ps_write_error: "writing p = f # fs \<Longrightarrow> io_error ec \<Longrightarrow>
    peer_step p (post (Write_handler ec) (p\<lparr>writing := fs\<rparr>))"
| ps_push: "peer_step p (async_push_frame frame p)"
| ps_close: "peer_step p (async_close c p)"

definition peer_started :: "peer \<Rightarrow> bool" where
  "peer_started p \<longleftrightarrow> (\<exists>options. p = async_start (new_peer options))"

section \<open>What each operation does to the fields\<close>

fun is_read_handler :: "handler \<Rightarrow> bool" where
  "is_read_handler Start_task = True"
| "is_read_handler (Continue_read _) = True"
| "is_read_handler (Read_handler _ _ _) = True"
| "is_read_handler _ = False"

fun is_write_handler :: "handler \<Rightarrow> bool" where
  "is_write_handler (Continue_write _) = True"
| "is_write_handler (Write_handler _) = True"
| "is_write_handler _ = False"

fun is_body_handler :: "handler \<Rightarrow> bool" where
  "is_body_handler (Continue_read r) = (r = Read_body)"
| "is_body_handler (Read_handler r _ _) = (r = Read_body)"
| "is_body_handler _ = False"

text \<open>A handler that tells of a closed socket.\<close>

fun is_closed_handler :: "handler \<Rightarrow> bool" where
  "is_closed_handler (Read_handler _ ec _) = (ec = Operation_aborted \<or> ec = Bad_descriptor)"
| "is_closed_handler (Write_handler ec) = (ec = Operation_aborted \<or> ec = Bad_descriptor)"
| "is_closed_handler _ = False"

definition read_tokens :: "peer \<Rightarrow> nat" where
  "read_tokens p = length (reading p) + length (filter is_read_handler (handlers p))"

definition write_tokens :: "peer \<Rightarrow> nat" where
  "write_tokens p = length (writing p) + length (filter is_write_handler (handlers p))"

definition body_pending :: "peer \<Rightarrow> bool" where
  "body_pending p \<longleftrightarrow> Read_body \<in> set (reading p) \<or> (\<exists>h \<in> set (handlers p). is_body_handler h)"

definition closed_handler_pending :: "peer \<Rightarrow> bool" where
  "closed_handler_pending p \<longleftrightarrow> (\<exists>h \<in> set (handlers p). is_closed_handler h)"

lemmas token_defs = read_tokens_def write_tokens_def body_pending_def closed_handler_pending_def

text \<open>The counts look at the outstanding operations and the queued handlers only.\<close>

lemma token_updates [simp]:
  "read_tokens (p\<lparr>socket_open := x0\<rparr>) = read_tokens p"
  "write_tokens (p\<lparr>socket_open := x0\<rparr>) = write_tokens p"
  "body_pending (p\<lparr>socket_open := x0\<rparr>) = body_pending p"
  "closed_handler_pending (p\<lparr>socket_open := x0\<rparr>) = closed_handler_pending p"
  "read_tokens (p\<lparr>closed_on_executor := x1\<rparr>) = read_tokens p"
  "write_tokens (p\<lparr>closed_on_executor := x1\<rparr>) = write_tokens p"
  "body_pending (p\<lparr>closed_on_executor := x1\<rparr>) = body_pending p"
  "closed_handler_pending (p\<lparr>closed_on_executor := x1\<rparr>) = closed_handler_pending p"
  "read_tokens (p\<lparr>ready := x2\<rparr>) = read_tokens p"
  "write_tokens (p\<lparr>ready := x2\<rparr>) = write_tokens p"
  "body_pending (p\<lparr>ready := x2\<rparr>) = body_pending p"
  "closed_handler_pending (p\<lparr>ready := x2\<rparr>) = closed_handler_pending p"
  "read_tokens (p\<lparr>close_after_write := x3\<rparr>) = read_tokens p"
  "write_tokens (p\<lparr>close_after_write := x3\<rparr>) = write_tokens p"
  "body_pending (p\<lparr>close_after_write := x3\<rparr>) = body_pending p"
  "closed_handler_pending (p\<lparr>close_after_write := x3\<rparr>) = closed_handler_pending p"
  "read_tokens (p\<lparr>read_header_buffer := x4\<rparr>) = read_tokens p"
  "write_tokens (p\<lparr>read_header_buffer := x4\<rparr>) = write_tokens p"
  "body_pending (p\<lparr>read_header_buffer := x4\<rparr>) = body_pending p"
  "closed_handler_pending (p\<lparr>read_header_buffer := x4\<rparr>) = closed_handler_pending p"
  "read_tokens (p\<lparr>read_body_buffer := x5\<rparr>) = read_tokens p"
  "write_tokens (p\<lparr>read_body_buffer := x5\<rparr>) = write_tokens p"
  "body_pending (p\<lparr>read_body_buffer := x5\<rparr>) = body_pending p"
  "closed_handler_pending (p\<lparr>read_body_buffer := x5\<rparr>) = closed_handler_pending p"
  "read_tokens (p\<lparr>write_queue := x6\<rparr>) = read_tokens p"
  "write_tokens (p\<lparr>write_queue := x6\<rparr>) = write_tokens p"
  "body_pending (p\<lparr>write_queue := x6\<rparr>) = body_pending p"
  "closed_handler_pending (p\<lparr>write_queue := x6\<rparr>) = closed_handler_pending p"
  "read_tokens (p\<lparr>expiry := x7\<rparr>) = read_tokens p"
  "write_tokens (p\<lparr>expiry := x7\<rparr>) = write_tokens p"
  "body_pending (p\<lparr>expiry := x7\<rparr>) = body_pending p"
  "closed_handler_pending (p\<lparr>expiry := x7\<rparr>) = closed_handler_pending p"
  "read_tokens (p\<lparr>armed := x8\<rparr>) = read_tokens p"
  "write_tokens (p\<lparr>armed := x8\<rparr>) = write_tokens p"
  "body_pending (p\<lparr>armed := x8\<rparr>) = body_pending p"
  "closed_handler_pending (p\<lparr>armed := x8\<rparr>) = closed_handler_pending p"
  "read_tokens (p\<lparr>signals := x9\<rparr>) = read_tokens p"
  "write_tokens (p\<lparr>signals := x9\<rparr>) = write_tokens p"
  "body_pending (p\<lparr>signals := x9\<rparr>) = body_pending p"
  "closed_handler_pending (p\<lparr>signals := x9\<rparr>) = closed_handler_pending p"
  "read_tokens (p\<lparr>accepted_frames := x10\<rparr>) = read_tokens p"
  "write_tokens (p\<lparr>accepted_frames := x10\<rparr>) = write_tokens p"
  "body_pending (p\<lparr>accepted_frames := x10\<rparr>) = body_pending p"
  "closed_handler_pending (p\<lparr>accepted_frames := x10\<rparr>) = closed_handler_pending p"
  "read_tokens (p\<lparr>sent_frames := x11\<rparr>) = read_tokens p"
  "write_tokens (p\<lparr>sent_frames := x11\<rparr>) = write_tokens p"
  "body_pending (p\<lparr>sent_frames := x11\<rparr>) = body_pending p"
  "closed_handler_pending (p\<lparr>sent_frames := x11\<rparr>) = closed_handler_pending p"
  "read_tokens (p\<lparr>completions := x12\<rparr>) = read_tokens p"
  "write_tokens (p\<lparr>completions := x12\<rparr>) = write_tokens p"
  "body_pending (p\<lparr>completions := x12\<rparr>) = body_pending p"
  "closed_handler_pending (p\<lparr>completions := x12\<rparr>) = closed_handler_pending p"
  "read_tokens (p\<lparr>undefined_behaviour := x13\<rparr>) = read_tokens p"
  "write_tokens (p\<lparr>undefined_behaviour := x13\<rparr>) = write_tokens p"
  "body_pending (p\<lparr>undefined_behaviour := x13\<rparr>) = body_pending p"
  "closed_handler_pending (p\<lparr>undefined_behaviour := x13\<rparr>) = closed_handler_pending p"
  by (simp_all add: token_defs)

lemma cancel_timer_fields [simp]:
  "socket_open (cancel_timer t p) = socket_open p"
  "peer_options (cancel_timer t p) = peer_options p"
  "closed_on_executor (cancel_timer t p) = closed_on_executor p"
  "ready (cancel_timer t p) = ready p"
  "close_after_write (cancel_timer t p) = close_after_write p"
  "read_header_buffer (cancel_timer t p) = read_header_buffer p"
  "read_body_buffer (cancel_timer t p) = read_body_buffer p"
  "write_queue (cancel_timer t p) = write_queue p"
  "reading (cancel_timer t p) = reading p"
  "writing (cancel_timer t p) = writing p"
  "signals (cancel_timer t p) = signals p"
  "accepted_frames (cancel_timer t p) = accepted_frames p"
  "sent_frames (cancel_timer t p) = sent_frames p"
  "completions (cancel_timer t p) = completions p"
  "undefined_behaviour (cancel_timer t p) = undefined_behaviour p"
  "read_tokens (cancel_timer t p) = read_tokens p"
  "write_tokens (cancel_timer t p) = write_tokens p"
  "body_pending (cancel_timer t p) = body_pending p"
  "closed_handler_pending (cancel_timer t p) = closed_handler_pending p"
  by (simp_all add: cancel_timer_def post_def token_defs)

lemma armed_cancel_timer [simp]: "armed (cancel_timer t p) = (armed p)(t := False)"
  by (auto simp: cancel_timer_def post_def fun_eq_iff)

lemma expires_after_fields [simp]:
  "socket_open (expires_after t d p) = socket_open p"
  "peer_options (expires_after t d p) = peer_options p"
  "closed_on_executor (expires_after t d p) = closed_on_executor p"
  "ready (expires_after t d p) = ready p"
  "close_after_write (expires_after t d p) = close_after_write p"
  "read_header_buffer (expires_after t d p) = read_header_buffer p"
  "read_body_buffer (expires_after t d p) = read_body_buffer p"
  "write_queue (expires_after t d p) = write_queue p"
  "reading (expires_after t d p) = reading p"
  "writing (expires_after t d p) = writing p"
  "signals (expires_after t d p) = signals p"
  "accepted_frames (expires_after t d p) = accepted_frames p"
  "sent_frames (expires_after t d p) = sent_frames p"
  "completions (expires_after t d p) = completions p"
  "undefined_behaviour (expires_after t d p) = undefined_behaviour p"
  "read_tokens (expires_after t d p) = read_tokens p"
  "write_tokens (expires_after t d p) = write_tokens p"
  "body_pending (expires_after t d p) = body_pending p"
  "closed_handler_pending (expires_after t d p) = closed_handler_pending p"
  by (simp_all add: expires_after_def)

lemma async_wait_fields [simp]:
  "socket_open (async_wait t p) = socket_open p"
  "peer_options (async_wait t p) = peer_options p"
  "closed_on_executor (async_wait t p) = closed_on_executor p"
  "ready (async_wait t p) = ready p"
  "close_after_write (async_wait t p) = close_after_write p"
  "read_header_buffer (async_wait t p) = read_header_buffer p"
  "read_body_buffer (async_wait t p) = read_body_buffer p"
  "write_queue (async_wait t p) = write_queue p"
  "reading (async_wait t p) = reading p"
  "writing (async_wait t p) = writing p"
  "signals (async_wait t p) = signals p"
  "accepted_frames (async_wait t p) = accepted_frames p"
  "sent_frames (async_wait t p) = sent_frames p"
  "completions (async_wait t p) = completions p"
  "undefined_behaviour (async_wait t p) = undefined_behaviour p"
  "read_tokens (async_wait t p) = read_tokens p"
  "write_tokens (async_wait t p) = write_tokens p"
  "body_pending (async_wait t p) = body_pending p"
  "closed_handler_pending (async_wait t p) = closed_handler_pending p"
  by (simp_all add: async_wait_def)

lemma enqueue_signal_fields [simp]:
  "socket_open (enqueue_signal s p) = socket_open p"
  "peer_options (enqueue_signal s p) = peer_options p"
  "closed_on_executor (enqueue_signal s p) = closed_on_executor p"
  "ready (enqueue_signal s p) = ready p"
  "close_after_write (enqueue_signal s p) = close_after_write p"
  "read_header_buffer (enqueue_signal s p) = read_header_buffer p"
  "read_body_buffer (enqueue_signal s p) = read_body_buffer p"
  "write_queue (enqueue_signal s p) = write_queue p"
  "reading (enqueue_signal s p) = reading p"
  "writing (enqueue_signal s p) = writing p"
  "accepted_frames (enqueue_signal s p) = accepted_frames p"
  "sent_frames (enqueue_signal s p) = sent_frames p"
  "completions (enqueue_signal s p) = completions p"
  "undefined_behaviour (enqueue_signal s p) = undefined_behaviour p"
  "read_tokens (enqueue_signal s p) = read_tokens p"
  "write_tokens (enqueue_signal s p) = write_tokens p"
  "body_pending (enqueue_signal s p) = body_pending p"
  "closed_handler_pending (enqueue_signal s p) = closed_handler_pending p"
  "signals (enqueue_signal s p) = signals p @ [s]"
  "armed (enqueue_signal s p) = armed p"
  "handlers (enqueue_signal s p) = handlers p"
  by (simp_all add: enqueue_signal_def)

lemma close_socket_fields [simp]:
  "peer_options (close_socket p) = peer_options p"
  "ready (close_socket p) = ready p"
  "close_after_write (close_socket p) = close_after_write p"
  "read_header_buffer (close_socket p) = read_header_buffer p"
  "read_body_buffer (close_socket p) = read_body_buffer p"
  "write_queue (close_socket p) = write_queue p"
  "signals (close_socket p) = signals p"
  "accepted_frames (close_socket p) = accepted_frames p"
  "sent_frames (close_socket p) = sent_frames p"
  "completions (close_socket p) = completions p"
  "undefined_behaviour (close_socket p) = undefined_behaviour p"
  "read_tokens (close_socket p) = read_tokens p"
  "write_tokens (close_socket p) = write_tokens p"
  "socket_open (close_socket p) = False"
  "closed_on_executor (close_socket p) = True"
  "reading (close_socket p) = []"
  "writing (close_socket p) = []"
  "body_pending (close_socket p) = body_pending p"
  "armed (close_socket p) = (\<lambda>_. False)"
proof -
  define q where "q = cancel_timer Write_deadline (cancel_timer Read_deadline
    (cancel_timer Heartbeat_deadline (cancel_timer Heartbeat_timer
      (cancel_timer Ready_deadline (p\<lparr>closed_on_executor := True\<rparr>)))))"
  have q: "close_socket p = socket_close q"
    by (simp add: close_socket_def q_def Let_def)
  have tokens: "read_tokens (socket_close q) = read_tokens q"
    "write_tokens (socket_close q) = write_tokens q"
    "body_pending (socket_close q) = body_pending q"
    by (simp_all add: socket_close_def token_defs filter_map comp_def bex_Un) (auto; force)
  have "\<not> armed q t" for t
    by (cases t) (simp_all add: q_def)
  then have armed: "armed (close_socket p) = (\<lambda>_. False)"
    by (auto simp: q socket_close_def)

  show
    "peer_options (close_socket p) = peer_options p"
    "ready (close_socket p) = ready p"
    "close_after_write (close_socket p) = close_after_write p"
    "read_header_buffer (close_socket p) = read_header_buffer p"
    "read_body_buffer (close_socket p) = read_body_buffer p"
    "write_queue (close_socket p) = write_queue p"
    "signals (close_socket p) = signals p"
    "accepted_frames (close_socket p) = accepted_frames p"
    "sent_frames (close_socket p) = sent_frames p"
    "completions (close_socket p) = completions p"
    "undefined_behaviour (close_socket p) = undefined_behaviour p"
    "read_tokens (close_socket p) = read_tokens p"
    "write_tokens (close_socket p) = write_tokens p"
    "socket_open (close_socket p) = False"
    "closed_on_executor (close_socket p) = True"
    "reading (close_socket p) = []"
    "writing (close_socket p) = []"
    "body_pending (close_socket p) = body_pending p"
    unfolding q by (simp_all add: tokens) (simp_all add: socket_close_def q_def)
  show "armed (close_socket p) = (\<lambda>_. False)" by (rule armed)
qed


lemma async_read_fields [simp]:
  "socket_open (async_read r p) = socket_open p" "peer_options (async_read r p) = peer_options p"
  "closed_on_executor (async_read r p) = closed_on_executor p" "ready (async_read r p) = ready p"
  "close_after_write (async_read r p) = close_after_write p"
  "read_header_buffer (async_read r p) = read_header_buffer p"
  "read_body_buffer (async_read r p) = read_body_buffer p"
  "write_queue (async_read r p) = write_queue p" "writing (async_read r p) = writing p"
  "signals (async_read r p) = signals p" "accepted_frames (async_read r p) = accepted_frames p"
  "sent_frames (async_read r p) = sent_frames p" "armed (async_read r p) = armed p"
  "undefined_behaviour (async_read r p) = undefined_behaviour p"
  "read_tokens (async_read r p) = Suc (read_tokens p)"
  "write_tokens (async_read r p) = write_tokens p"
  "body_pending (async_read r p) \<longleftrightarrow> body_pending p \<or> r = Read_body"
  "socket_open p \<Longrightarrow> closed_handler_pending (async_read r p) = closed_handler_pending p"
  by (auto simp: async_read_def post_def token_defs)

lemma async_write_fields [simp]:
  "socket_open (async_write f p) = socket_open p" "peer_options (async_write f p) = peer_options p"
  "closed_on_executor (async_write f p) = closed_on_executor p" "ready (async_write f p) = ready p"
  "close_after_write (async_write f p) = close_after_write p"
  "read_header_buffer (async_write f p) = read_header_buffer p"
  "read_body_buffer (async_write f p) = read_body_buffer p"
  "write_queue (async_write f p) = write_queue p" "reading (async_write f p) = reading p"
  "signals (async_write f p) = signals p" "accepted_frames (async_write f p) = accepted_frames p"
  "sent_frames (async_write f p) = sent_frames p" "armed (async_write f p) = armed p"
  "undefined_behaviour (async_write f p) = undefined_behaviour p"
  "read_tokens (async_write f p) = read_tokens p"
  "write_tokens (async_write f p) = Suc (write_tokens p)"
  "body_pending (async_write f p) = body_pending p"
  "socket_open p \<Longrightarrow> closed_handler_pending (async_write f p) = closed_handler_pending p"
  by (auto simp: async_write_def post_def token_defs)

section \<open>The invariant\<close>

text \<open>
  The invariant is stated for the moment a handler runs: the handler has been taken from the
  queue, and holds the read token (\<open>rt = 1\<close>) or the write token (\<open>wt = 1\<close>) it stands for.
  Between handlers both are 0.
\<close>

definition body_in_bounds :: "peer \<Rightarrow> bool" where
  "body_in_bounds p \<longleftrightarrow>
     read_body_buffer p \<noteq> [] \<and>
     length (read_body_buffer p) \<le> unat (max_message_size (peer_options p) + type_size + request_id_size)"

definition signal_in_bounds :: "common_parameters \<Rightarrow> peer_signal \<Rightarrow> bool" where
  "signal_in_bounds options s =
     (case s of Sig_received d \<Rightarrow> length d \<le> unat (max_message_size options)
      | Sig_request_received _ d \<Rightarrow> length d \<le> unat (max_message_size options)
      | Sig_response_received _ d \<Rightarrow> length d \<le> unat (max_message_size options)
      | _ \<Rightarrow> True)"

definition token_inv :: "nat \<Rightarrow> nat \<Rightarrow> peer \<Rightarrow> bool" where
  "token_inv rt wt p \<longleftrightarrow>
     read_tokens p + rt \<le> 1 \<and>
     write_tokens p + wt \<le> 1 \<and>
     (write_tokens p + wt = 1 \<longrightarrow> write_queue p \<noteq> []) \<and>
     (socket_open p \<and> write_queue p \<noteq> [] \<longrightarrow> write_tokens p + wt = 1) \<and>
     (socket_open p \<and> \<not> close_after_write p \<longrightarrow> read_tokens p + rt = 1) \<and>
     (socket_open p \<and> close_after_write p \<longrightarrow> write_queue p \<noteq> []) \<and>
     (socket_open p \<longrightarrow> \<not> closed_handler_pending p)"

definition data_inv :: "peer \<Rightarrow> bool" where
  "data_inv p \<longleftrightarrow>
     closed_on_executor p = (\<not> socket_open p) \<and>
     count_list (signals p) Sig_closed = (if socket_open p then 0 else 1) \<and>
     count_list (signals p) Sig_ready = (if ready p then 1 else 0) \<and>
     accepted_frames p = sent_frames p @ write_queue p \<and>
     length (write_queue p) \<le> unat (max_send_queue_size (peer_options p)) \<and>
     (\<forall>f \<in> set (accepted_frames p). valid_outgoing_frame (peer_options p) f) \<and>
     (\<forall>s \<in> set (signals p). signal_in_bounds (peer_options p) s) \<and>
     length (read_header_buffer p) = 4 \<and>
     (body_pending p \<longrightarrow> body_in_bounds p) \<and>
     \<not> undefined_behaviour p"

definition peer_inv :: "nat \<Rightarrow> nat \<Rightarrow> peer \<Rightarrow> bool" where
  "peer_inv rt wt p \<longleftrightarrow> token_inv rt wt p \<and> data_inv p"

lemmas peer_inv_defs = peer_inv_def token_inv_def data_inv_def

lemma signal_in_bounds_simps [simp]:
  "signal_in_bounds options Sig_ready" "signal_in_bounds options Sig_closed"
  "signal_in_bounds options (Sig_error_occurred ec)"
  "signal_in_bounds options Sig_health_check_response_received"
  "signal_in_bounds options (Sig_received d) \<longleftrightarrow> length d \<le> unat (max_message_size options)"
  "signal_in_bounds options (Sig_request_received rid d) \<longleftrightarrow> length d \<le> unat (max_message_size options)"
  "signal_in_bounds options (Sig_response_received rid d) \<longleftrightarrow> length d \<le> unat (max_message_size options)"
  by (simp_all add: signal_in_bounds_def)

text \<open>The part that closing needs, and that still holds where an open connection is half-way.\<close>

definition closing_ok :: "nat \<Rightarrow> nat \<Rightarrow> peer \<Rightarrow> bool" where
  "closing_ok rt wt p \<longleftrightarrow>
     read_tokens p + rt \<le> 1 \<and> write_tokens p + wt \<le> 1 \<and>
     (write_tokens p + wt = 1 \<longrightarrow> write_queue p \<noteq> []) \<and> data_inv p"

lemma peer_inv_closing: "peer_inv rt wt p \<Longrightarrow> rt' \<le> rt \<Longrightarrow> wt' \<le> wt \<Longrightarrow> closing_ok rt' wt' p"
  by (auto simp: peer_inv_defs closing_ok_def)

lemma closed_peer_inv: "closing_ok rt wt p \<Longrightarrow> \<not> socket_open p \<Longrightarrow> peer_inv rt wt p"
  by (simp add: closing_ok_def peer_inv_def token_inv_def)

lemma peer_close_open [simp]: "\<not> socket_open (peer_close p)"
  by (simp add: peer_close_def Let_def)

lemma data_inv_close: "data_inv p \<Longrightarrow> data_inv (peer_close p)"
  by (auto simp: data_inv_def peer_close_def Let_def body_in_bounds_def)

lemma peer_close_tokens [simp]:
  "read_tokens (peer_close p) = read_tokens p" "write_tokens (peer_close p) = write_tokens p"
  "write_queue (peer_close p) = write_queue p" "body_pending (peer_close p) = body_pending p"
  "peer_options (peer_close p) = peer_options p" "ready (peer_close p) = ready p"
  "armed (peer_close p) = (\<lambda>_. False)"
  by (simp_all add: peer_close_def Let_def)

lemma close_inv [inv_intros]: "closing_ok rt wt p \<Longrightarrow> peer_inv rt wt (peer_close p)"
  by (rule closed_peer_inv) (simp_all add: closing_ok_def data_inv_close)

lemma data_inv_signal [inv_intros]:
  "data_inv p \<Longrightarrow> s \<noteq> Sig_closed \<Longrightarrow> s \<noteq> Sig_ready \<Longrightarrow> signal_in_bounds (peer_options p) s \<Longrightarrow>
     data_inv (enqueue_signal s p)"
  by (simp add: data_inv_def body_in_bounds_def)

lemma peer_inv_signal [inv_intros]:
  "peer_inv rt wt p \<Longrightarrow> s \<noteq> Sig_closed \<Longrightarrow> s \<noteq> Sig_ready \<Longrightarrow> signal_in_bounds (peer_options p) s \<Longrightarrow>
     peer_inv rt wt (enqueue_signal s p)"
  by (simp add: peer_inv_def token_inv_def data_inv_signal)

lemma closing_ok_signal:
  "closing_ok rt wt p \<Longrightarrow> s \<noteq> Sig_closed \<Longrightarrow> s \<noteq> Sig_ready \<Longrightarrow> signal_in_bounds (peer_options p) s \<Longrightarrow>
     closing_ok rt wt (enqueue_signal s p)"
  by (simp add: closing_ok_def data_inv_signal)

lemma handle_error_inv [inv_intros]:
  assumes "closing_ok rt wt p" and "ec = Operation_aborted \<Longrightarrow> \<not> socket_open p"
  shows "peer_inv rt wt (handle_error ec p)"
  using assms
  by (auto simp: handle_error_def intro!: close_inv closing_ok_signal closed_peer_inv)

text \<open>Timer operations touch neither tokens nor data.\<close>

lemma peer_inv_timers [simp]:
  "peer_inv rt wt (cancel_timer t p) = peer_inv rt wt p"
  "peer_inv rt wt (expires_after t d p) = peer_inv rt wt p"
  "peer_inv rt wt (async_wait t p) = peer_inv rt wt p"
  "closing_ok rt wt (cancel_timer t p) = closing_ok rt wt p"
  "data_inv (cancel_timer t p) = data_inv p"
  by (simp_all add: peer_inv_defs closing_ok_def body_in_bounds_def)

lemma peer_write_inv [inv_intros]:
  assumes "closing_ok rt 0 p" and "write_tokens p = 0"
    and "socket_open p \<Longrightarrow> \<not> closed_handler_pending p"
    and "socket_open p \<Longrightarrow> \<not> close_after_write p \<Longrightarrow> read_tokens p + rt = 1"
    and "socket_open p \<Longrightarrow> close_after_write p \<Longrightarrow> write_queue p \<noteq> []"
  shows "peer_inv rt 0 (peer_write p)"
  using assms
  by (auto simp: peer_write_def Let_def closing_ok_def peer_inv_defs body_in_bounds_def)

lemma push_frame_inv [inv_intros]:
  assumes "closing_ok rt wt p"
    and "socket_open p \<Longrightarrow> write_queue p \<noteq> [] \<Longrightarrow> write_tokens p + wt = 1"
    and "socket_open p \<Longrightarrow> \<not> closed_handler_pending p"
    and "socket_open p \<Longrightarrow> \<not> close_after_write p \<Longrightarrow> read_tokens p + rt = 1"
  shows "peer_inv rt wt (push_frame frame p)"
proof (cases "socket_open p \<and> valid_outgoing_frame (peer_options p) frame \<and>
    vsize (write_queue p) < max_send_queue_size (peer_options p)")
  case False
  then consider "\<not> socket_open p" | "socket_open p" "push_frame frame p = handle_error No_buffer_space p"
    by (cases "socket_open p") (auto simp: push_frame_def not_less)
  then show ?thesis
  proof cases
    case 1
    then show ?thesis using closed_peer_inv [OF assms(1)] by (simp add: push_frame_def)
  next
    case 2
    then show ?thesis using handle_error_inv [OF assms(1), of No_buffer_space] by simp
  qed
next
  case True
  have len: "length (write_queue p) < unat (max_send_queue_size (peer_options p))"
  proof -
    have "length (write_queue p) < 2 ^ 64"
      using assms(1) unsigned_less [of "max_send_queue_size (peer_options p)"]
      by (auto simp: closing_ok_def data_inv_def elim: le_less_trans)
    from unat_vsize [OF this] show ?thesis
      using True by (simp add: word_less_nat_alt)
  qed
  let ?q = "p\<lparr>write_queue := write_queue p @ [frame], accepted_frames := accepted_frames p @ [frame]\<rparr>"
  have data: "data_inv ?q"
    using assms(1) True len by (auto simp: closing_ok_def data_inv_def body_in_bounds_def)
  show ?thesis
  proof (cases "write_queue p = []")
    case empty: True
    then have "write_tokens p + wt = 0"
      using assms(1) by (auto simp: closing_ok_def)
    then have "peer_inv rt 0 (peer_write ?q)" and "wt = 0"
      using assms data True empty by (auto simp: closing_ok_def intro!: peer_write_inv)
    then show ?thesis using True empty by (auto simp: push_frame_def Let_def)
  next
    case False
    then show ?thesis
      using assms data True by (auto simp: push_frame_def Let_def peer_inv_def token_inv_def closing_ok_def)
  qed
qed

section \<open>The handlers keep the invariant\<close>

lemma ensure_ready_inv [inv_intros]: "peer_inv rt wt p \<Longrightarrow> peer_inv rt wt (ensure_ready p)"
  by (auto simp: ensure_ready_def peer_inv_defs body_in_bounds_def)

lemma ensure_ready_fields [simp]:
  "socket_open (ensure_ready p) = socket_open p" "peer_options (ensure_ready p) = peer_options p"
  "read_body_buffer (ensure_ready p) = read_body_buffer p"
  "body_pending (ensure_ready p) = body_pending p"
  by (simp_all add: ensure_ready_def)

lemma refresh_heartbeat_deadline_inv [simp]:
  "peer_inv rt wt (refresh_heartbeat_deadline p) = peer_inv rt wt p"
  "peer_inv rt wt (start_read_deadline p) = peer_inv rt wt p"
  "peer_inv rt wt (start_ready_deadline p) = peer_inv rt wt p"
  "peer_inv rt wt (start_heartbeat_timer p) = peer_inv rt wt p"
  by (simp_all add: refresh_heartbeat_deadline_def start_read_deadline_def start_ready_deadline_def
      start_heartbeat_timer_def)

lemma read_header_inv [inv_intros]: "peer_inv 1 wt p \<Longrightarrow> peer_inv 0 wt (read_header p)"
  by (auto simp: read_header_def start_read_deadline_def peer_inv_defs body_in_bounds_def)

lemma read_body_inv [inv_intros]:
  assumes "peer_inv 1 wt p" and "body_in_bounds p"
  shows "peer_inv 0 wt (read_body p)"
  using assms
  by (cases "socket_open p")
     (auto simp: read_body_def start_read_deadline_def peer_inv_defs body_in_bounds_def)

lemma start_task_inv [inv_intros]: "peer_inv 1 wt p \<Longrightarrow> peer_inv 0 wt (start_task p)"
  by (simp add: start_task_def read_header_inv)

lemma close_task_inv [inv_intros]:
  assumes "peer_inv 0 0 p"
  shows "peer_inv 0 0 (close_task c p)"
proof -
  have "peer_inv 0 0 (peer_close p)"
    using assms by (intro close_inv peer_inv_closing [of 0 0]) simp_all
  then show ?thesis
    by (auto simp: close_task_def Let_def peer_inv_defs body_in_bounds_def split: option.splits)
qed

lemma deadline_handler_inv [inv_intros]: "peer_inv 0 0 p \<Longrightarrow> peer_inv 0 0 (deadline_handler ec p)"
  by (auto simp: deadline_handler_def intro!: handle_error_inv peer_inv_closing [of 0 0])

lemma push_frame_inv_idle [inv_intros]: "peer_inv rt wt p \<Longrightarrow> peer_inv rt wt (push_frame frame p)"
  by (rule push_frame_inv) (auto simp: peer_inv_def token_inv_def closing_ok_def)

lemma timer_handler_inv [inv_intros]: "peer_inv 0 0 p \<Longrightarrow> peer_inv 0 0 (timer_handler t ec p)"
  by (cases t)
     (auto simp: ready_deadline_handler_def heartbeat_timer_handler_def
        intro!: inv_intros)

lemma length_vector_resize [simp]: "length (vector_resize n xs) = n"
  by (simp add: vector_resize_def)

lemma read_header_handler_inv [inv_intros]:
  assumes "peer_inv 1 0 p" and "ec = Operation_aborted \<Longrightarrow> \<not> socket_open p"
  shows "peer_inv 0 0 (read_header_handler ec n p)"
proof -
  let ?p = "cancel_timer Read_deadline p"
  let ?b = "decode_uint32 (read_header_buffer p)"
  have closing: "closing_ok 0 0 ?p"
    using assms(1) by (simp add: peer_inv_closing)
  have err: "peer_inv 0 0 (handle_error e ?p)" if "e = Operation_aborted \<Longrightarrow> \<not> socket_open p" for e
    using closing that by (intro handle_error_inv) simp_all
  show ?thesis
  proof (cases "is_error ec \<or> n \<noteq> unat header_size \<or> (ucast ?b :: size_t) < type_size \<or>
      ucast ?b > max_message_size (peer_options p) + type_size + request_id_size")
    case True
    then show ?thesis
      using err assms(2) close_inv [OF closing] by (auto simp: read_header_handler_def Let_def)
  next
    case False
    let ?q = "?p\<lparr>read_body_buffer := vector_resize (unat ?b) (read_body_buffer ?p)\<rparr>"
    have b: "unat (ucast ?b :: size_t) = unat ?b"
      by (rule unat_ucast_u32)
    have bounds: "0 < unat ?b"
        "unat ?b \<le> unat (max_message_size (peer_options p) + type_size + request_id_size)"
      using False b unfolding word_less_nat_alt not_less word_le_nat_alt not_le
      by (auto simp: type_size_def)
    then have in_bounds: "body_in_bounds ?q"
      by (auto simp: body_in_bounds_def simp flip: length_greater_0_conv)
    moreover have "peer_inv 1 0 ?q"
      using assms(1) in_bounds by (auto simp: peer_inv_defs body_in_bounds_def)
    ultimately have "peer_inv 0 0 (read_body ?q)"
      by (rule read_body_inv [rotated])
    then show ?thesis using False by (auto simp: read_header_handler_def Let_def)
  qed
qed

text \<open>
  The switch: afterwards the read token is held exactly if control falls through to the next
  \<^verbatim>\<open>read_header\<close>.
\<close>

lemma vsize_body: "body_in_bounds p \<Longrightarrow> unat (vsize (read_body_buffer p)) = length (read_body_buffer p)"
proof (rule unat_vsize)
  assume "body_in_bounds p"
  moreover have "unat (max_message_size (peer_options p) + type_size + request_id_size) < 2 ^ 64"
    by (rule unat_size_t_less)
  ultimately show "length (read_body_buffer p) < 2 ^ 64" by (simp add: body_in_bounds_def)
qed

lemma handle_user_data_inv:
  assumes "peer_inv 1 0 p" and "body_in_bounds p" and "handle_user_data p = (q, ft)"
  shows "peer_inv (if ft then 1 else 0) 0 q"
proof (cases "vsize (read_body_buffer p) > max_message_size (peer_options p) + type_size")
  case True
  then show ?thesis
    using assms(1,3) handle_error_inv [of 0 0 "ensure_ready p" Message_size]
      peer_inv_closing [OF ensure_ready_inv [OF assms(1)], of 0 0]
    by (auto simp: handle_user_data_def Let_def)
next
  case False
  have "unat (max_message_size (peer_options p) + type_size) \<le> unat (max_message_size (peer_options p)) + 1"
    using unat_add_le [of "max_message_size (peer_options p)" type_size] by (simp add: type_size_def)
  then have "length (drop 1 (read_body_buffer p)) \<le> unat (max_message_size (peer_options p))"
    using False vsize_body [OF assms(2)] by (simp add: not_less word_le_nat_alt)
  then show ?thesis
    using assms(1,3) False by (auto simp: handle_user_data_def Let_def intro!: inv_intros)
qed

lemma handle_request_response_inv:
  assumes "peer_inv 1 0 p" and "body_in_bounds p" and "handle_request_response ty p = (q, ft)"
  shows "peer_inv (if ft then 1 else 0) 0 q"
proof (cases "vsize (read_body_buffer p) < type_size + request_id_size \<or>
    vsize (read_body_buffer p) > max_message_size (peer_options p) + type_size + request_id_size")
  case True
  then show ?thesis
    using assms(1,3) handle_error_inv [of 0 0 "ensure_ready p" Message_size]
      peer_inv_closing [OF ensure_ready_inv [OF assms(1)], of 0 0]
    by (auto simp: handle_request_response_def Let_def)
next
  case False
  let ?m = "max_message_size (peer_options p)"
  have "unat (?m + type_size + request_id_size) \<le> unat ?m + 9"
    using unat_add_le [of ?m "type_size + request_id_size"]
    by (simp add: type_size_def request_id_size_def add.assoc)
  moreover have "unat (type_size + request_id_size) = 9"
    by (simp add: type_size_def request_id_size_def)
  ultimately have len: "9 \<le> length (read_body_buffer p)"
      "length (drop 9 (read_body_buffer p)) \<le> unat ?m"
    using False vsize_body [OF assms(2)] by (auto simp: not_less word_le_nat_alt)
  then obtain rid where "decode_uint64 (read_body_buffer p) 1 = Some rid"
    by (auto simp: decode_uint64_def)
  then show ?thesis
    using assms(1,3) False len(2)
    by (cases "ty = request") (auto simp: handle_request_response_def Let_def intro!: inv_intros)
qed

lemma handle_health_check_inv:
  assumes "peer_inv 1 0 p" and "handle_health_check p = (q, ft)"
  shows "peer_inv (if ft then 1 else 0) 0 q"
proof (cases "ready p")
  case True
  then show ?thesis
    using assms handle_error_inv [OF peer_inv_closing [OF assms(1), of 0 0], of Operation_not_supported]
    by (auto simp: handle_health_check_def)
next
  case False
  have "peer_inv 0 0 (push_frame make_health_check_response_frame (p\<lparr>close_after_write := True\<rparr>))"
    using assms(1)
    by (intro push_frame_inv) (auto simp: peer_inv_defs closing_ok_def body_in_bounds_def)
  then show ?thesis using assms(2) False by (auto simp: handle_health_check_def)
qed

lemma dispatch_body_inv:
  assumes "peer_inv 1 0 p" and "body_in_bounds p" and "dispatch_body p = (q, ft)"
  shows "peer_inv (if ft then 1 else 0) 0 q"
proof -
  obtain b rest where b: "read_body_buffer p = b # rest"
    using assms(2) by (cases "read_body_buffer p") (auto simp: body_in_bounds_def)
  show ?thesis
  proof (cases "message_type_of_byte b")
    case None
    have "peer_inv 0 0 (handle_error Invalid_argument p)"
      using assms(1) by (intro handle_error_inv) (auto intro: peer_inv_closing)
    then show ?thesis using assms(3) None by (auto simp: dispatch_body_def b)
  next
    case (Some ty)
    have eq: "(q, ft) = (case ty of heartbeat \<Rightarrow> (p, True) | user_data \<Rightarrow> handle_user_data p
        | request \<Rightarrow> handle_request_response request p
        | response \<Rightarrow> handle_request_response response p
        | health_check \<Rightarrow> handle_health_check p
        | health_check_response \<Rightarrow> (enqueue_signal Sig_health_check_response_received p, True))"
      using assms(3) Some by (simp add: dispatch_body_def b)
    show ?thesis
    proof (cases ty)
      case health_check_response
      have "peer_inv 1 0 (enqueue_signal Sig_health_check_response_received p)"
        using assms(1) by (intro peer_inv_signal) simp_all
      then show ?thesis using eq health_check_response by simp
    qed (use eq assms(1) handle_user_data_inv [OF assms(1,2)] handle_request_response_inv [OF assms(1,2)]
        handle_health_check_inv [OF assms(1)] in simp_all)
  qed
qed

lemma read_body_handler_inv [inv_intros]:
  assumes "peer_inv 1 0 p" and "body_in_bounds p" and "ec = Operation_aborted \<Longrightarrow> \<not> socket_open p"
  shows "peer_inv 0 0 (read_body_handler ec n p)"
proof -
  let ?p = "cancel_timer Read_deadline p"
  have closing: "closing_ok 0 0 ?p"
    using assms(1) by (simp add: peer_inv_closing)
  have err: "peer_inv 0 0 (handle_error e ?p)" if "e = Operation_aborted \<Longrightarrow> \<not> socket_open p" for e
    using closing that by (intro handle_error_inv) simp_all
  obtain q ft where q: "dispatch_body (refresh_heartbeat_deadline ?p) = (q, ft)" by fastforce
  have "peer_inv (if ft then 1 else 0) 0 q"
    using assms(1,2)
    by (intro dispatch_body_inv [OF _ _ q])
       (simp_all add: refresh_heartbeat_deadline_def body_in_bounds_def)
  then have "peer_inv 0 0 (if ft then read_header q else q)"
    by (cases ft) (simp_all add: read_header_inv)
  then show ?thesis
    using err [of ec] err [of Message_size] assms(3) q by (simp add: read_body_handler_def Let_def)
qed

lemma write_handler_inv [inv_intros]:
  assumes "peer_inv 0 1 p" and "ec = Operation_aborted \<Longrightarrow> \<not> socket_open p"
  shows "peer_inv 0 0 (write_handler ec p)"
proof (cases "is_error ec")
  case True
  have "peer_inv 0 0 (handle_error ec (cancel_timer Write_deadline p))"
    using assms by (intro handle_error_inv) (simp_all add: peer_inv_closing)
  then show ?thesis using True by (simp add: write_handler_def Let_def)
next
  case False
  from assms(1) have "write_tokens p = 0" "write_queue p \<noteq> []"
    by (auto simp: peer_inv_def token_inv_def)
  then obtain f rest where q: "write_queue p = f # rest" by (cases "write_queue p") auto
  let ?q = "(cancel_timer Write_deadline p)\<lparr>write_queue := rest,
      sent_frames := sent_frames p @ [f]\<rparr>"
  have data: "data_inv ?q"
    using assms(1) q by (auto simp: peer_inv_def data_inv_def body_in_bounds_def)
  have closing: "closing_ok 0 0 ?q"
    using data assms(1) \<open>write_tokens p = 0\<close>
    by (simp add: closing_ok_def peer_inv_def token_inv_def)
  have "peer_inv 0 0 (peer_write ?q)" if "\<not> (rest = [] \<and> close_after_write p)"
  proof (rule peer_write_inv [OF closing])
    show "write_tokens ?q = 0" using \<open>write_tokens p = 0\<close> by simp
    show "\<not> closed_handler_pending ?q" "\<not> close_after_write ?q \<Longrightarrow> read_tokens ?q + 0 = 1"
      if "socket_open ?q"
      using assms(1) that by (auto simp: peer_inv_def token_inv_def)
    show "close_after_write ?q \<Longrightarrow> write_queue ?q \<noteq> []"
      using that by simp
  qed
  then have "peer_inv 0 0 (if rest = [] \<and> close_after_write p then peer_close ?q else peer_write ?q)"
    using close_inv [OF closing] by (cases "rest = []") simp_all
  then show ?thesis using False q by (simp add: write_handler_def Let_def)
qed

section \<open>The steps keep the invariant\<close>

text \<open>Taking a handler from the queue: it then holds its token.\<close>

lemma take_handler_inv:
  assumes "peer_inv 0 0 p" and "handlers p = h # hs"
  defines "q \<equiv> p\<lparr>handlers := hs\<rparr>"
  shows "peer_inv (if is_read_handler h then 1 else 0) (if is_write_handler h then 1 else 0) q"
    and "is_body_handler h \<Longrightarrow> body_in_bounds q"
    and "socket_open q \<Longrightarrow> \<not> is_closed_handler h"
proof -
  have tokens: "read_tokens p = read_tokens q + (if is_read_handler h then 1 else 0)"
    "write_tokens p = write_tokens q + (if is_write_handler h then 1 else 0)"
    "body_pending q \<Longrightarrow> body_pending p"
    "closed_handler_pending p \<longleftrightarrow> is_closed_handler h \<or> closed_handler_pending q"
    "is_body_handler h \<Longrightarrow> body_pending p"
    using assms(2) by (auto simp: token_defs q_def)
  show "peer_inv (if is_read_handler h then 1 else 0) (if is_write_handler h then 1 else 0) q"
    using assms(1) tokens by (auto simp: peer_inv_defs body_in_bounds_def q_def)
  show "is_body_handler h \<Longrightarrow> body_in_bounds q"
    using assms(1) tokens(5) by (auto simp: peer_inv_defs body_in_bounds_def q_def)
  show "socket_open q \<Longrightarrow> \<not> is_closed_handler h"
    using assms(1) tokens(4) by (auto simp: peer_inv_defs q_def)
qed

lemma async_operation_inv:
  "peer_inv 1 0 p \<Longrightarrow> (r = Read_body \<Longrightarrow> body_in_bounds p) \<Longrightarrow> peer_inv 0 0 (async_read r p)"
  "peer_inv 0 1 p \<Longrightarrow> peer_inv 0 0 (async_write f p)"
  by (cases "socket_open p"; auto simp: peer_inv_defs body_in_bounds_def)+

lemma run_handler_inv:
  assumes "peer_inv 0 0 p" and "handlers p = h # hs"
  shows "peer_inv 0 0 (run_handler h (p\<lparr>handlers := hs\<rparr>))"
proof -
  note take = take_handler_inv [OF assms]
  show ?thesis
  proof (cases h)
    case (Read_handler r ec n)
    then show ?thesis
      using take by (cases r) (auto intro: read_header_handler_inv read_body_handler_inv)
  next
    case (Continue_read r)
    then show ?thesis using take by (auto intro!: async_operation_inv)
  next
    case (Write_handler ec)
    then show ?thesis using take by (auto intro!: write_handler_inv)
  qed (use take in \<open>auto intro!: inv_intros async_operation_inv\<close>)
qed

lemma post_fields [simp]:
  "socket_open (post h p) = socket_open p" "peer_options (post h p) = peer_options p"
  "closed_on_executor (post h p) = closed_on_executor p" "ready (post h p) = ready p"
  "close_after_write (post h p) = close_after_write p"
  "read_header_buffer (post h p) = read_header_buffer p"
  "read_body_buffer (post h p) = read_body_buffer p" "write_queue (post h p) = write_queue p"
  "armed (post h p) = armed p" "reading (post h p) = reading p" "writing (post h p) = writing p"
  "signals (post h p) = signals p" "accepted_frames (post h p) = accepted_frames p"
  "sent_frames (post h p) = sent_frames p" "undefined_behaviour (post h p) = undefined_behaviour p"
  "read_tokens (post h p) = read_tokens p + (if is_read_handler h then 1 else 0)"
  "write_tokens (post h p) = write_tokens p + (if is_write_handler h then 1 else 0)"
  "body_pending (post h p) \<longleftrightarrow> body_pending p \<or> is_body_handler h"
  "closed_handler_pending (post h p) \<longleftrightarrow> closed_handler_pending p \<or> is_closed_handler h"
  by (auto simp: post_def token_defs)

lemma post_inv:
  assumes "peer_inv 0 0 p" and "\<not> is_read_handler h" and "\<not> is_write_handler h"
  shows "peer_inv 0 0 (post h p)"
proof -
  have "\<not> is_body_handler h" "\<not> is_closed_handler h"
    using assms(2,3) by (cases h; simp)+
  then show ?thesis
    using assms by (simp add: peer_inv_defs body_in_bounds_def)
qed

text \<open>An operation that ends hands its token to its handler.\<close>

lemma take_reading_inv:
  assumes "peer_inv 0 0 p" and "reading p = r # rs"
  shows "peer_inv 1 0 (p\<lparr>reading := rs\<rparr>)" and "r = Read_body \<Longrightarrow> body_in_bounds (p\<lparr>reading := rs\<rparr>)"
proof -
  have "read_tokens p = Suc (read_tokens (p\<lparr>reading := rs\<rparr>))"
    "write_tokens (p\<lparr>reading := rs\<rparr>) = write_tokens p"
    "body_pending p \<longleftrightarrow> r = Read_body \<or> body_pending (p\<lparr>reading := rs\<rparr>)"
    "closed_handler_pending (p\<lparr>reading := rs\<rparr>) = closed_handler_pending p"
    using assms(2) by (auto simp: token_defs)
  then show "peer_inv 1 0 (p\<lparr>reading := rs\<rparr>)"
    "r = Read_body \<Longrightarrow> body_in_bounds (p\<lparr>reading := rs\<rparr>)"
    using assms(1) by (simp_all add: peer_inv_defs body_in_bounds_def)
qed

lemma store_read_inv:
  assumes "peer_inv 1 0 p" and "r = Read_body \<Longrightarrow> body_in_bounds p" and "length bs \<le> buffer_size r p"
  shows "peer_inv 1 0 (store_read r bs p)" and "r = Read_body \<Longrightarrow> body_in_bounds (store_read r bs p)"
  using assms
  by (cases r; auto simp: store_read_def buffer_size_def peer_inv_defs body_in_bounds_def)+

lemma post_read_inv:
  assumes "peer_inv 1 0 p" and "r = Read_body \<Longrightarrow> body_in_bounds p"
    and "h = Continue_read r \<or>
      (\<exists>ec n. h = Read_handler r ec n \<and> ec \<noteq> Operation_aborted \<and> ec \<noteq> Bad_descriptor)"
  shows "peer_inv 0 0 (post h p)"
proof -
  have "is_read_handler h" "\<not> is_write_handler h" "\<not> is_closed_handler h"
    "is_body_handler h \<longleftrightarrow> r = Read_body"
    using assms(3) by auto
  then show ?thesis using assms(1,2) by (simp add: peer_inv_defs body_in_bounds_def)
qed

lemma finish_read_inv:
  assumes "peer_inv 0 0 p" and "reading p = r # rs" and "length bs \<le> buffer_size r p"
    and "h = Continue_read r \<or>
      (\<exists>ec n. h = Read_handler r ec n \<and> ec \<noteq> Operation_aborted \<and> ec \<noteq> Bad_descriptor)"
  shows "peer_inv 0 0 (post h (store_read r bs (p\<lparr>reading := rs\<rparr>)))"
proof (rule post_read_inv [OF _ _ assms(4)])
  have "length bs \<le> buffer_size r (p\<lparr>reading := rs\<rparr>)"
    using assms(3) by (simp add: buffer_size_def split: read_operation.splits)
  with take_reading_inv [OF assms(1,2)] store_read_inv
  show "peer_inv 1 0 (store_read r bs (p\<lparr>reading := rs\<rparr>))"
    "r = Read_body \<Longrightarrow> body_in_bounds (store_read r bs (p\<lparr>reading := rs\<rparr>))"
    by blast+
qed

lemma finish_write_inv:
  assumes "peer_inv 0 0 p" and "writing p = f # fs"
    and "h = Continue_write f \<or> (\<exists>ec. h = Write_handler ec \<and> ec \<noteq> Operation_aborted \<and> ec \<noteq> Bad_descriptor)"
  shows "peer_inv 0 0 (post h (p\<lparr>writing := fs\<rparr>))"
proof -
  have "write_tokens p = Suc (write_tokens (p\<lparr>writing := fs\<rparr>))"
    "read_tokens (p\<lparr>writing := fs\<rparr>) = read_tokens p"
    "body_pending (p\<lparr>writing := fs\<rparr>) = body_pending p"
    "closed_handler_pending (p\<lparr>writing := fs\<rparr>) = closed_handler_pending p"
    using assms(2) by (auto simp: token_defs)
  moreover have "is_write_handler h" "\<not> is_read_handler h" "\<not> is_closed_handler h" "\<not> is_body_handler h"
    using assms(3) by auto
  ultimately show ?thesis using assms(1) by (simp add: peer_inv_defs body_in_bounds_def)
qed

lemma peer_step_inv: "peer_step p q \<Longrightarrow> peer_inv 0 0 p \<Longrightarrow> peer_inv 0 0 q"
proof (induction rule: peer_step.induct)
  case (ps_run p h hs)
  then show ?case by (intro run_handler_inv)
next
  case (ps_timer p t)
  then have "peer_inv 0 0 (p\<lparr>armed := (armed p)(t := False)\<rparr>)"
    by (simp add: peer_inv_defs body_in_bounds_def)
  then show ?case unfolding expire_timer_def by (rule post_inv) simp_all
next
  case (ps_read_some p r rs bs)
  then show ?case by (intro finish_read_inv) simp_all
next
  case (ps_read_full p r rs bs)
  then show ?case by (simp add: complete_read_def finish_read_inv)
next
  case (ps_read_error p r rs bs ec)
  then show ?case by (intro finish_read_inv) (auto simp: io_error_def)
next
  case (ps_write_some p f fs)
  then show ?case by (intro finish_write_inv) simp_all
next
  case (ps_write_done p f fs)
  then show ?case by (intro finish_write_inv) simp_all
next
  case (ps_write_error p f fs ec)
  then show ?case by (intro finish_write_inv) (auto simp: io_error_def)
qed (simp_all add: async_push_frame_def async_close_def post_inv)

lemma peer_started_inv: "peer_started p \<Longrightarrow> peer_inv 0 0 p"
  by (auto simp: peer_started_def async_start_def post_def new_peer_def peer_inv_defs token_defs)

interpretation peer_machine: event_machine peer_started peer_step "peer_inv 0 0"
  by unfold_locales (auto intro: peer_started_inv peer_step_inv)

end
