(* ===== verification/Peer_Frames.thy ===== *)
theory Peer_Frames
  imports Peer_Invariant
begin

text \<open>
  Which frames a connection agrees to send: exactly those of the messages whose payload is
  within the configured limit and whose body's length fits the 32-bit length field.
\<close>

lemma unat_type_sizes [simp]:
  "unat type_size = 1" "unat request_id_size = 8" "unat header_size = 4"
  "unat (type_size + request_id_size) = 9" "unat (header_size + type_size) = 5"
  by (simp_all add: type_size_def request_id_size_def header_size_def)

lemma unat_add_no_wrap: "unat (x :: size_t) + unat y < 2 ^ 64 \<Longrightarrow> unat (x + y) = unat x + unat y"
  by (simp add: unat_word_ariths)

text \<open>The limits as numbers, when they do not wrap around.\<close>

definition limits_exact :: "common_parameters \<Rightarrow> bool" where
  "limits_exact options \<longleftrightarrow> unat (max_message_size options) + 9 < 2 ^ 64"

lemma unat_limits:
  assumes "limits_exact options"
  shows "unat (max_message_size options + type_size) = unat (max_message_size options) + 1"
    and "unat (max_message_size options + type_size + request_id_size) = unat (max_message_size options) + 9"
proof -
  show one: "unat (max_message_size options + type_size) = unat (max_message_size options) + 1"
    using assms unat_add_no_wrap [of "max_message_size options" type_size] by (simp add: limits_exact_def)
  show "unat (max_message_size options + type_size + request_id_size) = unat (max_message_size options) + 9"
    using assms one unat_add_no_wrap [of "max_message_size options + type_size" request_id_size]
    by (simp add: limits_exact_def)
qed

lemma frame_fields:
  assumes "length (payload_of m) + 13 < 2 ^ 64"
  shows "unat (vsize (frame_of m)) = 4 + length (body_of m)"
    and "unat (ucast (decode_uint32 (take 4 (frame_of m))) :: size_t) = length (body_of m) mod 2 ^ 32"
    and "frame_of m ! 4 = hd (body_of m)"
proof -
  have f: "frame_of m = encode_uint32 (of_nat (length (body_of m))) @ body_of m"
    using assms by (intro frame_of_eq) simp
  have "length (frame_of m) < 2 ^ 64"
    using assms length_body_of_bounds(2) [of m] by (simp add: f)
  then show "unat (vsize (frame_of m)) = 4 + length (body_of m)"
    by (simp add: unat_vsize f)
  show "unat (ucast (decode_uint32 (take 4 (frame_of m))) :: size_t) = length (body_of m) mod 2 ^ 32"
    by (simp add: f unat_of_nat)
  show "frame_of m ! 4 = hd (body_of m)"
    using length_body_of_bounds(1) [of m] by (cases "body_of m") (simp_all add: f nth_append)
qed

lemma hd_body_of:
  "hd (body_of m) = to_underlying (case m of Heartbeat \<Rightarrow> heartbeat | User_data _ \<Rightarrow> user_data
     | Health_check \<Rightarrow> health_check | Health_check_response \<Rightarrow> health_check_response
     | Request _ _ \<Rightarrow> request | Response _ _ \<Rightarrow> response)"
  by (cases m) simp_all

lemma frame_size_matches:
  assumes "length (payload_of m) + 13 < 2 ^ 64"
  shows "vsize (frame_of m) = header_size + ucast (decode_uint32 (take 4 (frame_of m))) \<longleftrightarrow>
    length (body_of m) < 2 ^ 32"
proof -
  let ?b = "ucast (decode_uint32 (take 4 (frame_of m))) :: size_t"
  have b: "unat ?b = length (body_of m) mod 2 ^ 32"
    by (rule frame_fields(2) [OF assms])
  then have "unat ?b < 2 ^ 32" by (metis mod_less_divisor zero_less_numeral zero_less_power)
  then have "unat header_size + unat ?b < 2 ^ 64"
    by simp
  then have "unat (header_size + ?b) = 4 + length (body_of m) mod 2 ^ 32"
    unfolding unat_add_no_wrap [OF \<open>unat header_size + unat ?b < 2 ^ 64\<close>] b by simp
  then have "vsize (frame_of m) = header_size + ?b \<longleftrightarrow> length (body_of m) mod 2 ^ 32 = length (body_of m)"
    using frame_fields(1) [OF assms] by (auto simp: word_unat_eq_iff)
  also have "\<dots> \<longleftrightarrow> length (body_of m) < 2 ^ 32"
    by (metis mod_less mod_less_divisor zero_less_numeral zero_less_power)
  finally show ?thesis .
qed

lemma valid_frame_of:
  assumes "length (payload_of m) + 13 < 2 ^ 64" and "limits_exact options"
  shows "valid_outgoing_frame options (frame_of m) \<longleftrightarrow>
    length (payload_of m) \<le> unat (max_message_size options) \<and> length (body_of m) < 2 ^ 32"
proof (cases "length (body_of m) < 2 ^ 32")
  case True
  define f where "f = frame_of m"
  define b :: size_t where "b = ucast (decode_uint32 (take 4 f))"
  have b: "unat b = length (body_of m)"
    using frame_fields(2) [OF assms(1)] True unfolding b_def f_def by simp
  have size: "\<not> vsize f < header_size + type_size" "\<not> b < type_size" "vsize f = header_size + b"
    using frame_fields(1) [OF assms(1)] b length_body_of_bounds(1) [of m]
      frame_size_matches [OF assms(1)] True
    unfolding f_def [symmetric] b_def [symmetric] by (auto simp: word_less_nat_alt)
  have ty: "f ! 4 = to_underlying (case m of Heartbeat \<Rightarrow> heartbeat | User_data _ \<Rightarrow> user_data
     | Health_check \<Rightarrow> health_check | Health_check_response \<Rightarrow> health_check_response
     | Request _ _ \<Rightarrow> request | Response _ _ \<Rightarrow> response)"
    using frame_fields(3) [OF assms(1)] by (simp only: f_def hd_body_of)
  have "valid_outgoing_frame options f \<longleftrightarrow> length (payload_of m) \<le> unat (max_message_size options)"
    using size ty b unat_limits [OF assms(2)]
    unfolding valid_outgoing_frame_def Let_def b_def [symmetric]
    by (cases m) (simp_all add: word_le_nat_alt)
  then show ?thesis using True by (simp add: f_def)
next
  case False
  then show ?thesis
    using frame_size_matches [OF assms(1)] by (auto simp: valid_outgoing_frame_def Let_def)
qed

end
