(* ===== verification/Peer_Contract.thy ===== *)
theory Peer_Contract
  imports Peer_Invariant
begin

text \<open>
  What a connection promises to the client and the server that own it, as a small abstract
  machine, and the proof that the detailed peer simulates it: every step of the peer is a run of
  the abstract connection. The owners only see the abstract connection: its signals, in order,
  and the frames it accepted.
\<close>

section \<open>The abstract connection\<close>

record connection =
  conn_options :: common_parameters
  conn_open :: bool
  conn_ready :: bool
  conn_accepted :: "bytes list"
  conn_log :: "peer_signal list"

fun is_message_signal :: "peer_signal \<Rightarrow> bool" where
  "is_message_signal (Sig_received _) = True"
| "is_message_signal (Sig_request_received _ _) = True"
| "is_message_signal (Sig_response_received _ _) = True"
| "is_message_signal Sig_health_check_response_received = True"
| "is_message_signal _ = False"

text \<open>
  \<open>ready\<close> is announced once; a frame is accepted on an open connection only; a failure is
  announced and closes the connection; \<open>closed\<close> is announced when the open connection closes,
  and a closed connection never opens again. Messages may still be announced after the close:
  the handler of a read that had completed is already in the queue of the executor.
\<close>

inductive connection_step :: "connection \<Rightarrow> connection \<Rightarrow> bool" where
  cs_ready: "\<not> conn_ready c \<Longrightarrow>
    connection_step c (c\<lparr>conn_ready := True, conn_log := conn_log c @ [Sig_ready]\<rparr>)"
| cs_message: "is_message_signal s \<Longrightarrow> connection_step c (c\<lparr>conn_log := conn_log c @ [s]\<rparr>)"
| cs_accept: "conn_open c \<Longrightarrow> valid_outgoing_frame (conn_options c) f \<Longrightarrow>
    connection_step c (c\<lparr>conn_accepted := conn_accepted c @ [f]\<rparr>)"
| cs_close: "conn_open c \<Longrightarrow>
    connection_step c (c\<lparr>conn_open := False, conn_log := conn_log c @ [Sig_closed]\<rparr>)"
| cs_fail: "ec \<noteq> Operation_aborted \<Longrightarrow>
    connection_step c (c\<lparr>conn_open := False, conn_log := conn_log c @ Sig_error_occurred ec #
                         (if conn_open c then [Sig_closed] else [])\<rparr>)"

definition connection_init :: "connection \<Rightarrow> bool" where
  "connection_init c \<longleftrightarrow> conn_open c \<and> \<not> conn_ready c \<and> conn_accepted c = [] \<and> conn_log c = []"

text \<open>The promises: one \<open>ready\<close>, one \<open>closed\<close>, and no failure without \<open>closed\<close>.\<close>

definition connection_inv :: "connection \<Rightarrow> bool" where
  "connection_inv c \<longleftrightarrow>
     count_list (conn_log c) Sig_ready = (if conn_ready c then 1 else 0) \<and>
     count_list (conn_log c) Sig_closed = (if conn_open c then 0 else 1) \<and>
     (\<forall>ec. Sig_error_occurred ec \<in> set (conn_log c) \<longrightarrow> ec \<noteq> Operation_aborted \<and> \<not> conn_open c) \<and>
     (\<forall>f \<in> set (conn_accepted c). valid_outgoing_frame (conn_options c) f)"

lemma connection_init_inv: "connection_init c \<Longrightarrow> connection_inv c"
  by (simp add: connection_init_def connection_inv_def)

lemma connection_step_inv: "connection_step c d \<Longrightarrow> connection_inv c \<Longrightarrow> connection_inv d"
  by (induction rule: connection_step.induct)
     (auto simp: connection_inv_def elim: is_message_signal.elims)

interpretation connection_machine: event_machine connection_init connection_step connection_inv
  by unfold_locales (auto intro: connection_init_inv connection_step_inv)

section \<open>The peer simulates the connection\<close>

definition connection_of :: "peer \<Rightarrow> connection" where
  "connection_of p =
     \<lparr>conn_options = peer_options p, conn_open = socket_open p, conn_ready = ready p,
      conn_accepted = accepted_frames p, conn_log = signals p\<rparr>"

abbreviation conn_runs :: "peer \<Rightarrow> peer \<Rightarrow> bool" where
  "conn_runs p q \<equiv> connection_step\<^sup>*\<^sup>* (connection_of p) (connection_of q)"

lemma connection_of_same [simp]:
  "connection_of (cancel_timer t p) = connection_of p"
  "connection_of (expires_after t d p) = connection_of p"
  "connection_of (async_wait t p) = connection_of p"
  "connection_of (async_read r p) = connection_of p"
  "connection_of (async_write f p) = connection_of p"
  "connection_of (post h p) = connection_of p"
  "connection_of (p\<lparr>handlers := hs\<rparr>) = connection_of p"
  "connection_of (p\<lparr>reading := rs\<rparr>) = connection_of p"
  "connection_of (p\<lparr>writing := fs\<rparr>) = connection_of p"
  "connection_of (p\<lparr>armed := a\<rparr>) = connection_of p"
  "connection_of (p\<lparr>close_after_write := b\<rparr>) = connection_of p"
  "connection_of (p\<lparr>read_header_buffer := bs\<rparr>) = connection_of p"
  "connection_of (p\<lparr>read_body_buffer := bs\<rparr>) = connection_of p"
  "connection_of (p\<lparr>undefined_behaviour := b\<rparr>) = connection_of p"
  "connection_of (p\<lparr>completions := cs\<rparr>) = connection_of p"
  "connection_of (p\<lparr>write_queue := q, sent_frames := s\<rparr>) = connection_of p"
  "connection_of (store_read r bs p) = connection_of p"
  by (simp_all add: connection_of_def store_read_def split: read_operation.split)

lemma connection_of_timers [simp]:
  "connection_of (start_heartbeat_timer p) = connection_of p"
  "connection_of (refresh_heartbeat_deadline p) = connection_of p"
  "connection_of (start_read_deadline p) = connection_of p"
  "connection_of (start_ready_deadline p) = connection_of p"
  "connection_of (read_header p) = connection_of p"
  "connection_of (read_body p) = connection_of p"
  "connection_of (peer_write p) = connection_of p"
  "connection_of (start_task p) = connection_of p"
  by (simp_all add: start_heartbeat_timer_def refresh_heartbeat_deadline_def start_read_deadline_def
      start_ready_deadline_def read_header_def read_body_def peer_write_def Let_def start_task_def)

lemma conn_runs_trans: "conn_runs p q \<Longrightarrow> conn_runs q r \<Longrightarrow> conn_runs p r"
  by (rule rtranclp_trans)

lemma conn_runs_close: "conn_runs p (peer_close p)"
proof (cases "socket_open p")
  case True
  have "connection_step (connection_of p) (connection_of (peer_close p))"
    using cs_close [of "connection_of p"] True
    by (simp add: connection_of_def peer_close_def Let_def)
  then show ?thesis by (rule r_into_rtranclp)
next
  case False
  then have "connection_of (peer_close p) = connection_of p"
    by (simp add: connection_of_def peer_close_def Let_def)
  then show ?thesis by simp
qed

lemma conn_runs_error: "conn_runs p (handle_error ec p)"
proof (cases "ec = Operation_aborted")
  case False
  then have "connection_step (connection_of p) (connection_of (handle_error ec p))"
    using cs_fail [OF False, of "connection_of p"]
    by (cases "socket_open p")
       (simp_all add: connection_of_def handle_error_def peer_close_def Let_def)
  then show ?thesis by (rule r_into_rtranclp)
qed (simp add: handle_error_def)

lemma conn_runs_message: "is_message_signal s \<Longrightarrow> conn_runs p (enqueue_signal s p)"
  using cs_message [of s "connection_of p"]
  by (intro r_into_rtranclp) (simp add: connection_of_def)

lemma conn_runs_ready: "conn_runs p (ensure_ready p)"
proof (cases "ready p")
  case False
  have "connection_step (connection_of p) (connection_of (ensure_ready p))"
    using cs_ready [of "connection_of p"] False by (simp add: connection_of_def ensure_ready_def)
  then show ?thesis by (rule r_into_rtranclp)
qed (simp add: ensure_ready_def)

lemma conn_runs_push: "conn_runs p (push_frame frame p)"
proof (cases "socket_open p \<and> valid_outgoing_frame (peer_options p) frame \<and>
    vsize (write_queue p) < max_send_queue_size (peer_options p)")
  case True
  let ?q = "p\<lparr>write_queue := write_queue p @ [frame], accepted_frames := accepted_frames p @ [frame]\<rparr>"
  have "connection_step (connection_of p) (connection_of ?q)"
    using cs_accept [of "connection_of p" frame] True by (simp add: connection_of_def)
  moreover have "connection_of (push_frame frame p) = connection_of ?q"
    using True by (auto simp: push_frame_def Let_def)
  ultimately show ?thesis by simp
next
  case False
  then show ?thesis
    using conn_runs_error [of p No_buffer_space] by (auto simp: push_frame_def not_less)
qed

lemma conn_runs_write_handler: "conn_runs p (write_handler ec p)"
  using conn_runs_error [of "cancel_timer Write_deadline p" ec]
    conn_runs_close [of "(cancel_timer Write_deadline p)\<lparr>write_queue := [],
      sent_frames := sent_frames p @ [hd (write_queue p)]\<rparr>"]
  by (auto simp: write_handler_def Let_def split: list.splits)

lemma conn_runs_timer: "conn_runs p (timer_handler t ec p)"
  by (cases t)
     (auto simp: ready_deadline_handler_def heartbeat_timer_handler_def deadline_handler_def
        conn_runs_error conn_runs_ready conn_runs_push)

lemma conn_runs_read_header: "conn_runs p (read_header_handler ec n p)"
  using conn_runs_error [of "cancel_timer Read_deadline p"]
    conn_runs_close [of "cancel_timer Read_deadline p"]
  by (auto simp: read_header_handler_def Let_def)

lemma conn_runs_user_data: "conn_runs p (fst (handle_user_data p))"
  using conn_runs_ready [of p] conn_runs_error [of "ensure_ready p"] conn_runs_message
  by (auto simp: handle_user_data_def Let_def intro: conn_runs_trans)

lemma conn_runs_request_response: "conn_runs p (fst (handle_request_response ty p))"
  using conn_runs_ready [of p] conn_runs_error [of "ensure_ready p"] conn_runs_message
  by (auto simp: handle_request_response_def Let_def split: option.splits intro: conn_runs_trans)

lemma conn_runs_health_check: "conn_runs p (fst (handle_health_check p))"
  using conn_runs_error conn_runs_push [of "p\<lparr>close_after_write := True\<rparr>"]
  by (auto simp: handle_health_check_def)

lemma conn_runs_dispatch: "conn_runs p (fst (dispatch_body p))"
  by (auto simp: dispatch_body_def conn_runs_error conn_runs_user_data conn_runs_request_response
      conn_runs_health_check conn_runs_message split: list.split option.split message_type.split)

lemma conn_runs_read_body: "conn_runs p (read_body_handler ec n p)"
proof -
  let ?p = "refresh_heartbeat_deadline (cancel_timer Read_deadline p)"
  have "conn_runs p (fst (dispatch_body ?p))"
    using conn_runs_dispatch [of ?p] by simp
  then show ?thesis
    using conn_runs_error [of "cancel_timer Read_deadline p"]
    by (auto simp: read_body_handler_def Let_def split: prod.split)
qed

lemma conn_runs_handler: "conn_runs p (run_handler h p)"
proof (cases "(h, p)" rule: run_handler.cases)
  case (2 c p)
  then show ?thesis
    using conn_runs_close [of p] by (auto simp: close_task_def Let_def split: option.split)
qed (auto simp: conn_runs_push conn_runs_timer conn_runs_read_header conn_runs_read_body
    conn_runs_write_handler)

lemma conn_runs_step: "peer_step p q \<Longrightarrow> conn_runs p q"
proof (induction rule: peer_step.induct)
  case (ps_run p h hs)
  then show ?case using conn_runs_handler [of "p\<lparr>handlers := hs\<rparr>" h] by simp
qed (simp_all add: async_push_frame_def async_close_def expire_timer_def complete_read_def)

interpretation peer_refines:
  simulation peer_started peer_step "peer_inv 0 0" connection_of connection_init connection_step
proof unfold_locales
  show "connection_init (connection_of p)" if "peer_started p" for p
    using that by (auto simp: peer_started_def connection_of_def connection_init_def async_start_def
        new_peer_def post_def)
  show "conn_runs p q" if "peer_step p q" for p q
    using that by (rule conn_runs_step)
qed

end
