(* ===== verification/Peer_Deadlines.thy ===== *)
theory Peer_Deadlines
  imports Peer_Contract
begin

text \<open>
  The timers of an open connection: an operation never waits without the timer that ends it, and
  an expired deadline closes the connection within the handlers already queued. Together they
  say that a connection whose other side goes silent is closed, never kept for ever.
\<close>

section \<open>Which timers are needed\<close>

definition read_waiting :: "peer \<Rightarrow> bool" where
  "read_waiting p \<longleftrightarrow>
     reading p \<noteq> [] \<or> (\<exists>h \<in> set (handlers p). is_read_handler h \<and> h \<noteq> Start_task)"

definition write_waiting :: "peer \<Rightarrow> bool" where
  "write_waiting p \<longleftrightarrow> writing p \<noteq> [] \<or> (\<exists>h \<in> set (handlers p). is_write_handler h)"

definition start_done :: "peer \<Rightarrow> bool" where
  "start_done p \<longleftrightarrow> Start_task \<notin> set (handlers p)"

text \<open>A timer is pending while it is armed, and once it has expired until its handler runs.\<close>

definition timer_pending :: "peer \<Rightarrow> peer_timer \<Rightarrow> bool" where
  "timer_pending p t \<longleftrightarrow> armed p t \<or> Timer_handler t No_error \<in> set (handlers p)"

fun timer_needed :: "peer_timer \<Rightarrow> peer \<Rightarrow> bool" where
  "timer_needed Read_deadline p = read_waiting p"
| "timer_needed Write_deadline p = write_waiting p"
| "timer_needed Heartbeat_timer p = start_done p"
| "timer_needed Heartbeat_deadline p = start_done p"
| "timer_needed Ready_deadline p = (start_done p \<and> \<not> ready p)"

text \<open>The timers outside \<open>X\<close> are in order; \<open>X\<close> holds the timer whose handler is running.\<close>

definition deadlines_ok :: "peer_timer set \<Rightarrow> peer \<Rightarrow> bool" where
  "deadlines_ok X p \<longleftrightarrow>
     (socket_open p \<longrightarrow> (\<forall>t. t \<notin> X \<longrightarrow> timer_needed t p \<longrightarrow> timer_pending p t))"

lemmas deadline_defs = deadlines_ok_def timer_pending_def read_waiting_def write_waiting_def start_done_def

lemma all_peer_timers:
  "(\<forall>t. P t) \<longleftrightarrow> P Ready_deadline \<and> P Heartbeat_timer \<and> P Heartbeat_deadline \<and> P Read_deadline \<and>
     P Write_deadline"
  by (metis peer_timer.exhaust)

lemma deadlines_ok_closed [simp]: "\<not> socket_open p \<Longrightarrow> deadlines_ok X p"
  by (simp add: deadlines_ok_def)

lemma deadlines_ok_mono: "deadlines_ok X p \<Longrightarrow> X \<subseteq> Y \<Longrightarrow> deadlines_ok Y p"
  by (auto simp: deadlines_ok_def)

section \<open>How the operations treat the timers\<close>

lemma waiting_cancel [simp]:
  "read_waiting (cancel_timer t p) = read_waiting p"
  "write_waiting (cancel_timer t p) = write_waiting p"
  "start_done (cancel_timer t p) = start_done p"
  by (auto simp: read_waiting_def write_waiting_def start_done_def cancel_timer_def post_def)

lemma pending_cancel: "t \<noteq> t' \<Longrightarrow> timer_pending (cancel_timer t p) t' = timer_pending p t'"
  by (auto simp: timer_pending_def cancel_timer_def post_def)

lemma waiting_wait [simp]:
  "read_waiting (async_wait t (expires_after t d p)) = read_waiting p"
  "write_waiting (async_wait t (expires_after t d p)) = write_waiting p"
  "start_done (async_wait t (expires_after t d p)) = start_done p"
proof -
  have "reading (async_wait t (expires_after t d p)) = reading (cancel_timer t p)"
    "writing (async_wait t (expires_after t d p)) = writing (cancel_timer t p)"
    "handlers (async_wait t (expires_after t d p)) = handlers (cancel_timer t p)"
    by (simp_all add: async_wait_def expires_after_def)
  then have "read_waiting (async_wait t (expires_after t d p)) = read_waiting (cancel_timer t p)"
    "write_waiting (async_wait t (expires_after t d p)) = write_waiting (cancel_timer t p)"
    "start_done (async_wait t (expires_after t d p)) = start_done (cancel_timer t p)"
    by (simp_all add: read_waiting_def write_waiting_def start_done_def)
  then show "read_waiting (async_wait t (expires_after t d p)) = read_waiting p"
    "write_waiting (async_wait t (expires_after t d p)) = write_waiting p"
    "start_done (async_wait t (expires_after t d p)) = start_done p"
    by simp_all
qed

lemma pending_wait:
  "timer_pending (async_wait t (expires_after t d p)) t' \<longleftrightarrow> t' = t \<or> timer_pending p t'"
  by (auto simp: timer_pending_def async_wait_def expires_after_def cancel_timer_def post_def)

lemma needed_wait [simp]:
  "timer_needed t' (async_wait t (expires_after t d p)) = timer_needed t' p"
  by (cases t') simp_all

lemma needed_cancel [simp]: "timer_needed t' (cancel_timer t p) = timer_needed t' p"
  by (cases t') simp_all

lemma deadlines_wait:
  "deadlines_ok X p \<Longrightarrow> deadlines_ok (X - {t}) (async_wait t (expires_after t d p))"
  by (auto simp: deadlines_ok_def pending_wait)

lemma deadlines_cancel:
  "deadlines_ok X p \<Longrightarrow> \<not> timer_needed t p \<Longrightarrow> deadlines_ok X (cancel_timer t p)"
  by (auto simp: deadlines_ok_def) (metis pending_cancel)

text \<open>Updates that no timer depends on.\<close>

lemma deadlines_fields [simp]:
  "timer_pending (enqueue_signal s p) = timer_pending p"
  "timer_needed t (enqueue_signal s p) = timer_needed t p"
  "timer_needed t (p\<lparr>write_queue := q, accepted_frames := a\<rparr>) = timer_needed t p"
  "timer_pending (p\<lparr>write_queue := q, accepted_frames := a\<rparr>) = timer_pending p"
  "timer_needed t (p\<lparr>write_queue := q, sent_frames := a\<rparr>) = timer_needed t p"
  "timer_pending (p\<lparr>write_queue := q, sent_frames := a\<rparr>) = timer_pending p"
  "timer_needed t (p\<lparr>read_body_buffer := b\<rparr>) = timer_needed t p"
  "timer_pending (p\<lparr>read_body_buffer := b\<rparr>) = timer_pending p"
  "timer_needed t (p\<lparr>close_after_write := c\<rparr>) = timer_needed t p"
  "timer_pending (p\<lparr>close_after_write := c\<rparr>) = timer_pending p"
  "timer_needed t (p\<lparr>undefined_behaviour := c\<rparr>) = timer_needed t p"
  "timer_pending (p\<lparr>undefined_behaviour := c\<rparr>) = timer_pending p"
  "timer_needed t (p\<lparr>completions := cs\<rparr>) = timer_needed t p"
  "timer_pending (p\<lparr>completions := cs\<rparr>) = timer_pending p"
  by (cases t; simp add: fun_eq_iff deadline_defs)+

lemma deadlines_updates [simp]:
  "deadlines_ok X (enqueue_signal s p) = deadlines_ok X p"
  "deadlines_ok X (p\<lparr>write_queue := q, accepted_frames := a\<rparr>) = deadlines_ok X p"
  "deadlines_ok X (p\<lparr>write_queue := q, sent_frames := a\<rparr>) = deadlines_ok X p"
  "deadlines_ok X (p\<lparr>read_body_buffer := b\<rparr>) = deadlines_ok X p"
  "deadlines_ok X (p\<lparr>close_after_write := c\<rparr>) = deadlines_ok X p"
  "deadlines_ok X (p\<lparr>undefined_behaviour := c\<rparr>) = deadlines_ok X p"
  "deadlines_ok X (p\<lparr>completions := cs\<rparr>) = deadlines_ok X p"
  by (simp_all add: deadlines_ok_def)

lemma deadlines_close [simp]: "deadlines_ok X (peer_close p)"
  by simp

lemma deadlines_error: "deadlines_ok X p \<Longrightarrow> deadlines_ok X (handle_error ec p)"
  by (simp add: handle_error_def)

text \<open>Starting an operation after its deadline was set.\<close>

lemma start_operation [simp]:
  "timer_pending (async_read r p) = timer_pending p"
  "timer_pending (async_write f p) = timer_pending p"
  "t \<noteq> Read_deadline \<Longrightarrow> timer_needed t (async_read r p) = timer_needed t p"
  "t \<noteq> Write_deadline \<Longrightarrow> timer_needed t (async_write f p) = timer_needed t p"
  by (cases t; auto simp: async_read_def async_write_def post_def deadline_defs fun_eq_iff)+

lemma deadlines_async_read:
  "deadlines_ok X p \<Longrightarrow> timer_pending p Read_deadline \<Longrightarrow> deadlines_ok X (async_read r p)"
  by (simp add: deadlines_ok_def) (metis start_operation(3))

lemma deadlines_async_write:
  "deadlines_ok X p \<Longrightarrow> timer_pending p Write_deadline \<Longrightarrow> deadlines_ok X (async_write f p)"
  by (simp add: deadlines_ok_def) (metis start_operation(4))

lemma deadlines_read:
  assumes "deadlines_ok {} p"
  shows "deadlines_ok {} (async_read r (start_read_deadline p))"
  using deadlines_wait [OF assms, of Read_deadline]
  by (intro deadlines_async_read) (simp_all add: start_read_deadline_def pending_wait)

lemma deadlines_read_header: "deadlines_ok {} p \<Longrightarrow> deadlines_ok {} (read_header p)"
  by (simp add: read_header_def deadlines_read)

lemma deadlines_read_body: "deadlines_ok {} p \<Longrightarrow> deadlines_ok {} (read_body p)"
  by (simp add: read_body_def deadlines_read)

lemma deadlines_write:
  assumes "deadlines_ok X p"
  shows "deadlines_ok X (peer_write p)"
proof -
  have "deadlines_ok X (async_wait Write_deadline (expires_after Write_deadline d p))" for d
    using deadlines_wait [OF assms] by (rule deadlines_ok_mono) simp
  then show ?thesis
    using assms by (auto simp: peer_write_def Let_def pending_wait intro!: deadlines_async_write)
qed

lemma deadlines_push: "deadlines_ok X p \<Longrightarrow> deadlines_ok X (push_frame f p)"
  by (auto simp: push_frame_def Let_def intro!: deadlines_error deadlines_write)

lemma deadlines_refresh: "deadlines_ok X p \<Longrightarrow> deadlines_ok (X - {Heartbeat_deadline}) (refresh_heartbeat_deadline p)"
  unfolding refresh_heartbeat_deadline_def by (rule deadlines_wait)

lemma deadlines_heartbeat: "deadlines_ok X p \<Longrightarrow> deadlines_ok (X - {Heartbeat_timer}) (start_heartbeat_timer p)"
  unfolding start_heartbeat_timer_def by (rule deadlines_wait)

lemma deadlines_ready:
  assumes "deadlines_ok X p"
  shows "deadlines_ok (X - {Ready_deadline}) (ensure_ready p)"
proof (cases "ready p")
  case True
  then show ?thesis using assms by (auto simp: ensure_ready_def deadlines_ok_def)
next
  case False
  let ?q = "p\<lparr>ready := True\<rparr>"
  have pending: "timer_pending ?q t = timer_pending p t"
    and needed: "timer_needed t ?q \<Longrightarrow> t \<noteq> Ready_deadline \<and> timer_needed t p" for t
    by (cases t; simp add: deadline_defs)+
  have "deadlines_ok (X - {Ready_deadline}) ?q"
    unfolding deadlines_ok_def pending
  proof (intro impI allI)
    fix t
    assume open_p: "socket_open ?q" and t: "t \<notin> X - {Ready_deadline}" and "timer_needed t ?q"
    then have "t \<notin> X" "timer_needed t p" using needed by auto
    then show "timer_pending p t" using assms open_p by (simp add: deadlines_ok_def)
  qed
  moreover have "\<not> timer_needed Ready_deadline ?q" by simp
  ultimately show ?thesis
    using False by (simp add: ensure_ready_def deadlines_cancel)
qed

section \<open>The handlers keep the timers in order\<close>

lemma deadlines_timer_handler:
  "deadlines_ok {t} p \<Longrightarrow> deadlines_ok {} (timer_handler t No_error p)"
  using deadlines_ready [of "{Ready_deadline}" p]
    deadlines_heartbeat [OF deadlines_push, of "{Heartbeat_timer}" p make_heartbeat_frame]
  by (cases t) (simp_all add: ready_deadline_handler_def heartbeat_timer_handler_def
      deadline_handler_def handle_error_def)

lemma deadlines_timer_cancelled:
  "is_error ec \<Longrightarrow> timer_handler t ec p = p"
  by (cases t) (simp_all add: ready_deadline_handler_def heartbeat_timer_handler_def deadline_handler_def)

lemma deadlines_read_header_handler:
  assumes "deadlines_ok {} p" and "\<not> read_waiting p"
  shows "deadlines_ok {} (read_header_handler ec n p)"
  using deadlines_cancel [OF assms(1), of Read_deadline] assms(2)
  by (auto simp: read_header_handler_def Let_def intro!: deadlines_error deadlines_read_body)

lemma deadlines_dispatch:
  assumes "deadlines_ok {} p"
  shows "deadlines_ok {} (fst (dispatch_body p))"
  using assms deadlines_ready [OF assms]
  by (auto simp: dispatch_body_def handle_user_data_def handle_request_response_def
      handle_health_check_def Let_def deadlines_error deadlines_push
      split: list.split option.split message_type.split)

lemma deadlines_read_body_handler:
  assumes "deadlines_ok {} p" and "\<not> read_waiting p"
  shows "deadlines_ok {} (read_body_handler ec n p)"
proof -
  let ?p = "cancel_timer Read_deadline p"
  have p: "deadlines_ok {} ?p"
    using assms by (intro deadlines_cancel) simp_all
  have "deadlines_ok {} (fst (dispatch_body (refresh_heartbeat_deadline ?p)))"
    using deadlines_refresh [OF p] by (intro deadlines_dispatch) simp
  then show ?thesis
    using p by (auto simp: read_body_handler_def Let_def deadlines_error deadlines_read_header
        split: prod.split)
qed

lemma deadlines_write_handler:
  assumes "deadlines_ok {} p" and "\<not> write_waiting p"
  shows "deadlines_ok {} (write_handler ec p)"
  using deadlines_cancel [OF assms(1), of Write_deadline] assms(2)
  by (auto simp: write_handler_def Let_def deadlines_error deadlines_write split: list.split)

lemma deadlines_start:
  assumes "deadlines_ok {Ready_deadline, Heartbeat_timer, Heartbeat_deadline} p"
  shows "deadlines_ok {} (start_task p)"
proof -
  let ?p1 = "start_ready_deadline p" and ?p2 = "start_heartbeat_timer (start_ready_deadline p)"
  have "deadlines_ok {Heartbeat_timer, Heartbeat_deadline} ?p1"
    unfolding start_ready_deadline_def by (rule deadlines_ok_mono [OF deadlines_wait [OF assms]]) auto
  then have "deadlines_ok {Heartbeat_deadline} ?p2"
    by (rule deadlines_ok_mono [OF deadlines_heartbeat]) auto
  then have "deadlines_ok {} (refresh_heartbeat_deadline ?p2)"
    by (rule deadlines_ok_mono [OF deadlines_refresh]) auto
  then show ?thesis by (simp add: start_task_def deadlines_read_header)
qed

text \<open>Taking a handler from the queue exempts the timers that its run is about to set.\<close>

fun exempted :: "handler \<Rightarrow> peer_timer set" where
  "exempted Start_task = {Ready_deadline, Heartbeat_timer, Heartbeat_deadline}"
| "exempted (Timer_handler t ec) = (if ec = No_error then {t} else {})"
| "exempted _ = {}"

lemma deadlines_take:
  assumes "deadlines_ok {} p" and "handlers p = h # hs"
  shows "deadlines_ok (exempted h) (p\<lparr>handlers := hs\<rparr>)"
  unfolding deadlines_ok_def
proof (intro impI allI)
  fix t
  assume "socket_open (p\<lparr>handlers := hs\<rparr>)" and t: "t \<notin> exempted h"
    and needed: "timer_needed t (p\<lparr>handlers := hs\<rparr>)"
  have "timer_needed t p"
    using needed assms(2) t by (cases t; cases h) (auto simp: deadline_defs)
  then have "timer_pending p t"
    using assms(1) \<open>socket_open (p\<lparr>handlers := hs\<rparr>)\<close> by (simp add: deadlines_ok_def)
  then show "timer_pending (p\<lparr>handlers := hs\<rparr>) t"
    using assms(2) t by (cases h) (auto simp: timer_pending_def split: if_splits)
qed

lemma waiting_take:
  assumes "peer_inv 0 0 p" and "handlers p = h # hs"
  shows "is_read_handler h \<Longrightarrow> \<not> read_waiting (p\<lparr>handlers := hs\<rparr>)"
    and "is_write_handler h \<Longrightarrow> \<not> write_waiting (p\<lparr>handlers := hs\<rparr>)"
  using assms
  by (auto simp: peer_inv_defs token_defs read_waiting_def write_waiting_def filter_empty_conv)

lemma pending_take:
  assumes "deadlines_ok {} p" and "handlers p = h # hs" and "exempted h = {}" and "socket_open p"
  shows "timer_needed t p \<Longrightarrow> timer_pending (p\<lparr>handlers := hs\<rparr>) t"
  using assms by (cases h) (auto simp: deadlines_ok_def timer_pending_def split: if_splits)

lemma deadlines_run_handler:
  assumes inv: "peer_inv 0 0 p" and ok: "deadlines_ok {} p" and h: "handlers p = h # hs"
  shows "deadlines_ok {} (run_handler h (p\<lparr>handlers := hs\<rparr>))"
proof -
  let ?q = "p\<lparr>handlers := hs\<rparr>"
  note q = deadlines_take [OF ok h] and waiting = waiting_take [OF inv h] and pending = pending_take [OF ok h]
  show ?thesis
  proof (cases h)
    case (Close_task c)
    have "\<not> socket_open (close_task c ?q)"
      by (simp add: close_task_def Let_def split: option.split)
    then show ?thesis using Close_task by simp
  next
    case (Timer_handler t ec)
    then show ?thesis
      using q deadlines_timer_handler [of t ?q] deadlines_timer_cancelled [of ec t ?q]
      by (cases "ec = No_error") (simp_all add: is_error_def)
  next
    case (Continue_read r)
    then have "socket_open ?q \<Longrightarrow> timer_pending ?q Read_deadline"
      using pending [of Read_deadline] h by (auto simp: read_waiting_def)
    then show ?thesis
      using q Continue_read by (cases "socket_open ?q") (simp_all add: deadlines_async_read)
  next
    case (Continue_write f)
    then have "socket_open ?q \<Longrightarrow> timer_pending ?q Write_deadline"
      using pending [of Write_deadline] h by (auto simp: write_waiting_def)
    then show ?thesis
      using q Continue_write by (cases "socket_open ?q") (simp_all add: deadlines_async_write)
  next
    case (Read_handler r ec n)
    then show ?thesis
      using q waiting by (cases r) (simp_all add: deadlines_read_header_handler deadlines_read_body_handler)
  qed (use q waiting in \<open>simp_all add: deadlines_start deadlines_push deadlines_write_handler\<close>)
qed

section \<open>The steps keep the timers in order\<close>

lemma deadlines_post:
  assumes "deadlines_ok {} p" and "h \<noteq> Start_task"
    and "is_read_handler h \<Longrightarrow> socket_open p \<Longrightarrow> timer_pending p Read_deadline"
    and "is_write_handler h \<Longrightarrow> socket_open p \<Longrightarrow> timer_pending p Write_deadline"
  shows "deadlines_ok {} (post h p)"
  unfolding deadlines_ok_def
proof (intro impI allI)
  fix t
  assume "socket_open (post h p)" and needed: "timer_needed t (post h p)"
  then have "socket_open p" by simp
  have "timer_needed t p \<or> timer_pending p t"
    using needed assms(2-4) \<open>socket_open p\<close> by (cases t) (auto simp: deadline_defs post_def)
  then have "timer_pending p t"
    using assms(1) \<open>socket_open p\<close> by (auto simp: deadlines_ok_def)
  then show "timer_pending (post h p) t" by (auto simp: timer_pending_def post_def)
qed

lemma deadlines_take_io:
  assumes "deadlines_ok {} p"
  shows "reading p = r # rs \<Longrightarrow> deadlines_ok {} (store_read r bs (p\<lparr>reading := rs\<rparr>)) \<and>
      (socket_open p \<longrightarrow> timer_pending (store_read r bs (p\<lparr>reading := rs\<rparr>)) Read_deadline)"
    and "writing p = f # fs \<Longrightarrow> deadlines_ok {} (p\<lparr>writing := fs\<rparr>) \<and>
      (socket_open p \<longrightarrow> timer_pending (p\<lparr>writing := fs\<rparr>) Write_deadline)"
  using assms
  by (auto simp: deadlines_ok_def timer_pending_def all_peer_timers read_waiting_def write_waiting_def
      start_done_def store_read_def split: read_operation.split)

lemma deadlines_expire:
  assumes "deadlines_ok {} p"
  shows "deadlines_ok {} (expire_timer t p)"
  using assms
  by (auto simp: expire_timer_def deadlines_ok_def timer_pending_def all_peer_timers read_waiting_def write_waiting_def
      start_done_def post_def)

lemma store_read_open [simp]: "socket_open (store_read r bs p) = socket_open p"
  by (simp add: store_read_def split: read_operation.split)

lemma deadlines_step: "peer_step p q \<Longrightarrow> peer_inv 0 0 p \<Longrightarrow> deadlines_ok {} p \<Longrightarrow> deadlines_ok {} q"
proof (induction rule: peer_step.induct)
  case (ps_run p h hs)
  then show ?case by (intro deadlines_run_handler)
next
  case (ps_timer p t)
  then show ?case by (intro deadlines_expire)
next
  case (ps_read_some p r rs bs)
  then show ?case using deadlines_take_io(1) [of p r rs bs] by (intro deadlines_post) auto
next
  case (ps_read_full p r rs bs)
  then show ?case
    using deadlines_take_io(1) [of p r rs bs] by (auto simp: complete_read_def intro!: deadlines_post)
next
  case (ps_read_error p r rs bs ec)
  then show ?case using deadlines_take_io(1) [of p r rs bs] by (intro deadlines_post) auto
next
  case (ps_write_some p f fs)
  then show ?case using deadlines_take_io(2) [of p f fs] by (intro deadlines_post) auto
next
  case (ps_write_done p f fs)
  then show ?case using deadlines_take_io(2) [of p f fs] by (intro deadlines_post) auto
next
  case (ps_write_error p f fs ec)
  then show ?case using deadlines_take_io(2) [of p f fs] by (intro deadlines_post) auto
qed (auto simp: async_push_frame_def async_close_def intro!: deadlines_post)

definition timed_peer_inv :: "peer \<Rightarrow> bool" where
  "timed_peer_inv p \<longleftrightarrow> peer_inv 0 0 p \<and> deadlines_ok {} p"

interpretation timed_peer: event_machine peer_started peer_step timed_peer_inv
proof unfold_locales
  show "timed_peer_inv p" if "peer_started p" for p
  proof -
    from that have "deadlines_ok {} p"
      by (auto simp: peer_started_def async_start_def post_def new_peer_def deadlines_ok_def
          all_peer_timers read_waiting_def write_waiting_def start_done_def)
    then show ?thesis using that by (simp add: timed_peer_inv_def peer_started_inv)
  qed
  show "timed_peer_inv q" if "timed_peer_inv p" "peer_step p q" for p q
    using that by (auto simp: timed_peer_inv_def peer_step_inv deadlines_step)
qed

section \<open>An expired deadline closes the connection\<close>

text \<open>A closed connection stays closed, and handlers only add to the end of the queue.\<close>

lemma conn_runs_closed:
  assumes "conn_runs p q" and "\<not> socket_open p"
  shows "\<not> socket_open q"
proof -
  have "\<not> conn_open d" if "connection_step\<^sup>*\<^sup>* c d" "\<not> conn_open c" for c d
    using that by (induction rule: rtranclp_induct) (auto elim!: connection_step.cases)
  from this [OF assms(1)] show ?thesis using assms(2) by (simp add: connection_of_def)
qed

definition only_appends :: "peer \<Rightarrow> peer \<Rightarrow> bool" where
  "only_appends p q \<longleftrightarrow> (\<exists>hs. handlers q = handlers p @ hs)"

lemma appends_refl [simp]: "only_appends p p"
  by (simp add: only_appends_def)

lemma appends_trans [trans]: "only_appends p q \<Longrightarrow> only_appends q r \<Longrightarrow> only_appends p r"
  by (auto simp: only_appends_def)

lemma appends_updates [simp]:
  "only_appends p (q\<lparr>socket_open := x1\<rparr>) = only_appends p q"
  "only_appends p (q\<lparr>closed_on_executor := x2\<rparr>) = only_appends p q"
  "only_appends p (q\<lparr>ready := x3\<rparr>) = only_appends p q"
  "only_appends p (q\<lparr>close_after_write := x4\<rparr>) = only_appends p q"
  "only_appends p (q\<lparr>read_body_buffer := x5\<rparr>) = only_appends p q"
  "only_appends p (q\<lparr>write_queue := x6, sent_frames := x7\<rparr>) = only_appends p q"
  "only_appends p (q\<lparr>write_queue := x6, accepted_frames := x7\<rparr>) = only_appends p q"
  "only_appends p (q\<lparr>completions := x8\<rparr>) = only_appends p q"
  "only_appends p (q\<lparr>undefined_behaviour := x9\<rparr>) = only_appends p q"
  "only_appends p (enqueue_signal s q) = only_appends p q"
  "only_appends p (q\<lparr>expiry := e\<rparr>) = only_appends p q"
  "only_appends p (q\<lparr>armed := a\<rparr>) = only_appends p q"
  by (simp_all add: only_appends_def)

named_theorems appends_intros

lemma appends_primitives [appends_intros]:
  "only_appends p q \<Longrightarrow> only_appends p (post h q)"
  "only_appends p q \<Longrightarrow> only_appends p (cancel_timer t q)"
  "only_appends p q \<Longrightarrow> only_appends p (expires_after t d q)"
  "only_appends p q \<Longrightarrow> only_appends p (async_wait t q)"
  "only_appends p q \<Longrightarrow> only_appends p (async_read r q)"
  "only_appends p q \<Longrightarrow> only_appends p (async_write f q)"
  "only_appends p q \<Longrightarrow> only_appends p (socket_close q)"
  by (auto simp: only_appends_def post_def cancel_timer_def expires_after_def async_wait_def
      async_read_def async_write_def socket_close_def)

lemma appends_composites [appends_intros]:
  "only_appends p q \<Longrightarrow> only_appends p (close_socket q)"
  "only_appends p q \<Longrightarrow> only_appends p (start_heartbeat_timer q)"
  "only_appends p q \<Longrightarrow> only_appends p (refresh_heartbeat_deadline q)"
  "only_appends p q \<Longrightarrow> only_appends p (start_read_deadline q)"
  "only_appends p q \<Longrightarrow> only_appends p (start_ready_deadline q)"
  "only_appends p q \<Longrightarrow> only_appends p (ensure_ready q)"
  "only_appends p q \<Longrightarrow> only_appends p (peer_write q)"
  by (simp_all add: close_socket_def start_heartbeat_timer_def refresh_heartbeat_deadline_def
      start_read_deadline_def start_ready_deadline_def ensure_ready_def peer_write_def Let_def
      appends_primitives)

lemma appends_closing [appends_intros]:
  "only_appends p q \<Longrightarrow> only_appends p (peer_close q)"
  "only_appends p q \<Longrightarrow> only_appends p (read_header q)"
  "only_appends p q \<Longrightarrow> only_appends p (read_body q)"
  by (simp_all add: peer_close_def Let_def read_header_def read_body_def
      appends_primitives appends_composites)

lemma appends_error [appends_intros]:
  "only_appends p q \<Longrightarrow> only_appends p (handle_error ec q)"
  by (simp add: handle_error_def appends_closing)

lemma appends_push [appends_intros]: "only_appends p q \<Longrightarrow> only_appends p (push_frame f q)"
  by (simp add: push_frame_def Let_def appends_error appends_composites)

lemma appends_dispatch: "only_appends p q \<Longrightarrow> only_appends p (fst (dispatch_body q))"
  by (simp add: dispatch_body_def handle_user_data_def handle_request_response_def
      handle_health_check_def Let_def appends_intros
      split: list.split option.split message_type.split)

lemma appends_run_handler: "only_appends q (run_handler h q)"
proof (cases "(h, q)" rule: run_handler.cases)
  case (4 t ec p)
  then show ?thesis
    by (cases t) (simp_all add: ready_deadline_handler_def heartbeat_timer_handler_def
        deadline_handler_def appends_intros)
next
  case (8 ec n p)
  have "only_appends p (fst (dispatch_body (refresh_heartbeat_deadline (cancel_timer Read_deadline p))))"
    by (intro appends_dispatch appends_intros) simp
  then show ?thesis
    using 8 by (auto simp: read_body_handler_def Let_def appends_intros split: prod.split)
qed (auto simp: start_task_def close_task_def read_header_handler_def write_handler_def Let_def
    appends_intros split: option.split list.split)

lemma run_queued_closed: "\<not> socket_open p \<Longrightarrow> \<not> socket_open (run_queued n p)"
proof (induction n arbitrary: p)
  case (Suc n)
  show ?case
  proof (cases "handlers p")
    case (Cons h hs)
    have "\<not> socket_open (run_handler h (p\<lparr>handlers := hs\<rparr>))"
      using conn_runs_closed [OF conn_runs_handler] Suc.prems by simp
    then show ?thesis using Suc.IH Cons by (simp add: run_next_def)
  qed (use Suc.prems in simp)
qed simp

lemma run_queued_steps: "peer_step\<^sup>*\<^sup>* p (run_queued n p)"
proof (induction n arbitrary: p)
  case (Suc n)
  show ?case
  proof (cases "handlers p")
    case (Cons h hs)
    then have "peer_step p (run_next p)" by (simp add: run_next_def ps_run)
    then have "peer_step\<^sup>*\<^sup>* p (run_queued n (run_next p))"
      using Suc.IH by (rule converse_rtranclp_into_rtranclp)
    then show ?thesis using Cons by simp
  qed simp
qed simp

definition is_deadline :: "peer_timer \<Rightarrow> bool" where
  "is_deadline t \<longleftrightarrow> t \<in> {Heartbeat_deadline, Read_deadline, Write_deadline}"

lemma deadline_queued_closes:
  "handlers p = pre @ Timer_handler t No_error # suf \<Longrightarrow> is_deadline t \<Longrightarrow> length pre < n \<Longrightarrow>
     \<not> socket_open (run_queued n p)"
proof (induction pre arbitrary: p n suf)
  case Nil
  then obtain m where n: "n = Suc m" by (cases n) auto
  have "\<not> socket_open (run_next p)"
    using Nil by (auto simp: run_next_def is_deadline_def deadline_handler_def is_error_def handle_error_def)
  then show ?case using Nil(1) run_queued_closed by (simp add: n)
next
  case (Cons h pre)
  then obtain m where n: "n = Suc m" by (cases n) auto
  let ?q = "p\<lparr>handlers := pre @ Timer_handler t No_error # suf\<rparr>"
  obtain hs where "handlers (run_handler h ?q) = pre @ Timer_handler t No_error # (suf @ hs)"
    using appends_run_handler [of ?q h] by (auto simp: only_appends_def)
  from Cons.IH [OF this Cons.prems(2)] show ?case
    using Cons.prems by (simp add: n run_next_def)
qed

end
