(* ===== verification/Peer_Reader.thy ===== *)
theory Peer_Reader
  imports Peer_Frames Peer_Deadlines
begin

text \<open>
  The reader of a connection against a reference parser: whatever bytes arrive, well formed or
  not, the asynchronous reader announces exactly what the reference parser reads from them.
\<close>

section \<open>The reference parser\<close>

text \<open>
  \<open>L\<close> is the limit on the payload, \<open>rdy\<close> whether \<open>ready\<close> was announced. The result is the
  list of announcements; it ends where the stream is incomplete, where it is refused, or at a
  health check, after which the connection reads no more.
\<close>

definition announce_ready :: "bool \<Rightarrow> peer_signal list" where
  "announce_ready rdy = (if rdy then [] else [Sig_ready])"

definition refuse :: "error_code \<Rightarrow> peer_signal list" where
  "refuse ec = [Sig_error_occurred ec, Sig_closed]"

lemma split_frame_shorter: "split_frame bs = Some (body, rest) \<Longrightarrow> length rest < length bs"
  by (auto simp: split_frame_def Let_def split: if_splits)

function reader_spec :: "nat \<Rightarrow> bool \<Rightarrow> bytes \<Rightarrow> peer_signal list" where
  "reader_spec L rdy bs =
     (if length bs < 4 then []
      else if decode_uint32 bs = 0 \<or> L + 9 < unat (decode_uint32 bs) then refuse Message_size
      else (case split_frame bs of
              None \<Rightarrow> []
            | Some (body, rest) \<Rightarrow>
                (case message_of_body body of
                   None \<Rightarrow> (if message_type_of_byte (hd body) = None then refuse Invalid_argument
                            else announce_ready rdy @ refuse Message_size)
                 | Some Heartbeat \<Rightarrow> reader_spec L rdy rest
                 | Some (User_data d) \<Rightarrow> announce_ready rdy @
                     (if L < length d then refuse Message_size
                      else Sig_received d # reader_spec L True rest)
                 | Some (Request rid d) \<Rightarrow>
                     announce_ready rdy @ Sig_request_received rid d # reader_spec L True rest
                 | Some (Response rid d) \<Rightarrow>
                     announce_ready rdy @ Sig_response_received rid d # reader_spec L True rest
                 | Some Health_check \<Rightarrow> (if rdy then refuse Operation_not_supported else [])
                 | Some Health_check_response \<Rightarrow>
                     Sig_health_check_response_received # reader_spec L rdy rest)))"
  by pat_completeness auto

termination
  by (relation "measure (\<lambda>(L, rdy, bs). length bs)") (auto dest: split_frame_shorter)

declare reader_spec.simps [simp del]

section \<open>Feeding a connection\<close>

text \<open>
  The bytes arrive, the outstanding read takes what its buffer holds, and the executor runs
  what was queued. Every read takes at least one byte, so \<open>length bs\<close> rounds are enough.
\<close>

definition read_and_run :: "bytes \<Rightarrow> peer \<Rightarrow> peer" where
  "read_and_run bs p = (let q = complete_read bs p in run_queued (length (handlers q)) q)"

fun feed :: "nat \<Rightarrow> bytes \<Rightarrow> peer \<Rightarrow> peer" where
  "feed 0 bs p = p"
| "feed (Suc n) bs p =
     (case reading p of
        [] \<Rightarrow> p
      | r # _ \<Rightarrow>
          (let k = buffer_size r p
           in if length bs < k then p else feed n (drop k bs) (read_and_run (take k bs) p)))"

lemma feed_steps: "peer_step\<^sup>*\<^sup>* p (feed n bs p)"
proof (induction n bs p rule: feed.induct)
  case (2 n bs p)
  show ?case
  proof (cases "reading p")
    case (Cons r rs)
    show ?thesis
    proof (cases "length bs < buffer_size r p")
      case False
      then have "peer_step p (complete_read (take (buffer_size r p) bs) p)"
        using Cons by (intro ps_read_full) simp_all
      then have "peer_step\<^sup>*\<^sup>* p (read_and_run (take (buffer_size r p) bs) p)"
        unfolding read_and_run_def Let_def
        by (rule converse_rtranclp_into_rtranclp [OF _ run_queued_steps])
      then show ?thesis
        using Cons False "2.IH" [OF Cons refl] by (simp add: Let_def)
    qed (simp add: Cons Let_def)
  qed simp
qed simp

section \<open>Handlers of cancelled timers do nothing\<close>

definition quiet_handler :: "handler \<Rightarrow> bool" where
  "quiet_handler h \<longleftrightarrow> (\<exists>t. h = Timer_handler t Operation_aborted)"

definition quiet :: "peer \<Rightarrow> bool" where
  "quiet p \<longleftrightarrow> (\<forall>h \<in> set (handlers p). quiet_handler h)"

lemma quiet_timers [simp]:
  "quiet (cancel_timer t p) = quiet p" "quiet (expires_after t d p) = quiet p"
  "quiet (async_wait t p) = quiet p" "quiet (enqueue_signal s p) = quiet p"
  "quiet (p\<lparr>handlers := []\<rparr>)" "quiet (p\<lparr>reading := rs\<rparr>) = quiet p"
  "quiet (p\<lparr>read_body_buffer := b\<rparr>) = quiet p" "quiet (p\<lparr>read_header_buffer := b\<rparr>) = quiet p"
  "quiet (p\<lparr>ready := r\<rparr>) = quiet p"
  by (auto simp: quiet_def quiet_handler_def cancel_timer_def expires_after_def async_wait_def post_def)

lemma quiet_composites [simp]:
  "quiet (refresh_heartbeat_deadline p) = quiet p" "quiet (start_read_deadline p) = quiet p"
  "quiet (start_ready_deadline p) = quiet p" "quiet (start_heartbeat_timer p) = quiet p"
  "quiet (ensure_ready p) = quiet p"
  by (simp_all add: refresh_heartbeat_deadline_def start_read_deadline_def start_ready_deadline_def
      start_heartbeat_timer_def ensure_ready_def)

lemma quiet_async_read [simp]: "socket_open p \<Longrightarrow> quiet (async_read r p) = quiet p"
  by (simp add: async_read_def quiet_def)

lemma run_queued_quiet:
  "handlers p = ns @ hs \<Longrightarrow> \<forall>h \<in> set ns. quiet_handler h \<Longrightarrow>
     run_queued (length ns + k) p = run_queued k (p\<lparr>handlers := hs\<rparr>)"
proof (induction ns arbitrary: p)
  case (Cons h ns)
  obtain t where "h = Timer_handler t Operation_aborted"
    using Cons.prems(2) by (auto simp: quiet_handler_def)
  then have "run_next p = p\<lparr>handlers := ns @ hs\<rparr>"
    using Cons.prems(1) by (simp add: run_next_def deadlines_timer_cancelled is_error_def)
  then show ?case
    using Cons.IH [of "p\<lparr>handlers := ns @ hs\<rparr>"] Cons.prems by simp
next
  case Nil
  then show ?case by (cases p) simp
qed

lemma read_and_run_quiet:
  assumes "quiet p" and "reading p = r # rs"
  shows "read_and_run bs p =
    run_handler (Read_handler r No_error (length bs))
      ((store_read r bs (p\<lparr>reading := rs\<rparr>))\<lparr>handlers := []\<rparr>)"
proof -
  let ?q = "store_read r bs (p\<lparr>reading := rs\<rparr>)"
  have h: "handlers ?q = handlers p" by (simp add: store_read_def split: read_operation.split)
  have "read_and_run bs p = run_queued (length (handlers p) + 1) (complete_read bs p)"
    using assms(2) by (simp add: read_and_run_def complete_read_def Let_def post_def h)
  also have "\<dots> = run_queued 1 ((complete_read bs p)\<lparr>handlers := [Read_handler r No_error (length bs)]\<rparr>)"
    using assms by (intro run_queued_quiet) (simp_all add: complete_read_def post_def h quiet_def)
  finally show ?thesis
    using assms(2) by (simp add: complete_read_def post_def run_next_def)
qed

section \<open>One frame\<close>

text \<open>The answer to a health check is one frame of the write queue.\<close>

definition queue_has_room :: "peer \<Rightarrow> bool" where
  "queue_has_room p \<longleftrightarrow> vsize (write_queue p) < max_send_queue_size (peer_options p)"

definition reader_idle :: "peer \<Rightarrow> bool" where
  "reader_idle p \<longleftrightarrow>
     socket_open p \<and> reading p = [Read_header] \<and> length (read_header_buffer p) = 4 \<and> quiet p \<and>
     limits_exact (peer_options p) \<and> queue_has_room p"

definition reader_in_body :: "nat \<Rightarrow> peer \<Rightarrow> bool" where
  "reader_in_body n p \<longleftrightarrow>
     socket_open p \<and> reading p = [Read_body] \<and> length (read_body_buffer p) = n \<and>
     length (read_header_buffer p) = 4 \<and> quiet p \<and> limits_exact (peer_options p) \<and>
     queue_has_room p"

text \<open>How reading one frame can end.\<close>

definition reader_continues :: "peer \<Rightarrow> peer \<Rightarrow> peer_signal list \<Rightarrow> bool \<Rightarrow> bool" where
  "reader_continues p q sigs rdy \<longleftrightarrow>
     reader_idle q \<and> signals q = signals p @ sigs \<and> ready q = rdy \<and> peer_options q = peer_options p"

definition reader_stops :: "peer \<Rightarrow> peer \<Rightarrow> peer_signal list \<Rightarrow> bool" where
  "reader_stops p q sigs \<longleftrightarrow> reading q = [] \<and> signals q = signals p @ sigs"

lemma peer_close_signals [simp]:
  "signals (peer_close p) = signals p @ (if socket_open p then [Sig_closed] else [])"
  "reading (peer_close p) = []"
  by (simp_all add: peer_close_def Let_def)

lemma handle_error_effect:
  "socket_open p \<Longrightarrow> ec \<noteq> Operation_aborted \<Longrightarrow>
     reading (handle_error ec p) = [] \<and> signals (handle_error ec p) = signals p @ refuse ec"
  by (simp add: handle_error_def refuse_def)

lemma reader_fields [simp]:
  "reading (refresh_heartbeat_deadline p) = reading p"
  "socket_open (refresh_heartbeat_deadline p) = socket_open p"
  "read_body_buffer (refresh_heartbeat_deadline p) = read_body_buffer p"
  "read_header_buffer (refresh_heartbeat_deadline p) = read_header_buffer p"
  "peer_options (refresh_heartbeat_deadline p) = peer_options p"
  "write_queue (refresh_heartbeat_deadline p) = write_queue p"
  "write_queue (start_read_deadline p) = write_queue p"
  "signals (refresh_heartbeat_deadline p) = signals p" "ready (refresh_heartbeat_deadline p) = ready p"
  "reading (start_read_deadline p) = reading p" "socket_open (start_read_deadline p) = socket_open p"
  "read_body_buffer (start_read_deadline p) = read_body_buffer p"
  "read_header_buffer (start_read_deadline p) = read_header_buffer p"
  "peer_options (start_read_deadline p) = peer_options p"
  "signals (start_read_deadline p) = signals p" "ready (start_read_deadline p) = ready p"
  by (simp_all add: refresh_heartbeat_deadline_def start_read_deadline_def)

lemma ensure_ready_effect [simp]:
  "signals (ensure_ready p) = signals p @ announce_ready (ready p)" "ready (ensure_ready p)"
  "write_queue (ensure_ready p) = write_queue p"
  "reading (ensure_ready p) = reading p" "read_header_buffer (ensure_ready p) = read_header_buffer p"
  by (simp_all add: ensure_ready_def announce_ready_def)

lemma read_header_effect:
  assumes "socket_open p" and "reading p = []" and "length (read_header_buffer p) = 4" and "quiet p"
    and "limits_exact (peer_options p)" and "queue_has_room p"
  shows "reader_idle (read_header p)" and "signals (read_header p) = signals p"
    and "ready (read_header p) = ready p" and "peer_options (read_header p) = peer_options p"
  using assms by (simp_all add: read_header_def reader_idle_def queue_has_room_def) (simp add: async_read_def)

lemma header_step:
  assumes "reader_idle p" and "length header = 4"
  defines "q \<equiv> read_and_run header p" and "b \<equiv> unat (decode_uint32 header)"
    and "L \<equiv> unat (max_message_size (peer_options p))"
  shows "b = 0 \<or> L + 9 < b \<Longrightarrow> reader_stops p q (refuse Message_size)"
    and "\<not> (b = 0 \<or> L + 9 < b) \<Longrightarrow> reader_in_body b q \<and> signals q = signals p \<and> ready q = ready p \<and>
      peer_options q = peer_options p"
proof -
  let ?p = "p\<lparr>reading := [], read_header_buffer := header, handlers := []\<rparr>"
  let ?c = "cancel_timer Read_deadline ?p"
  have p: "socket_open p" "reading p = [Read_header]" "length (read_header_buffer p) = 4" "quiet p"
    "limits_exact (peer_options p)" "queue_has_room p"
    using assms(1) by (simp_all add: reader_idle_def)
  have q: "q = read_header_handler No_error 4 ?p"
    using read_and_run_quiet [OF p(4,2)] assms(2) p(3) by (simp add: q_def store_read_def)
  have limit: "(ucast (decode_uint32 header) :: size_t) < type_size \<or>
      ucast (decode_uint32 header) > max_message_size (peer_options p) + type_size + request_id_size \<longleftrightarrow>
      b = 0 \<or> L + 9 < b"
    using unat_limits [OF p(5)] by (auto simp: word_less_nat_alt b_def L_def)
  show "reader_stops p q (refuse Message_size)" if "b = 0 \<or> L + 9 < b"
    using that limit handle_error_effect [of ?c Message_size] p(1)
    by (auto simp: q read_header_handler_def Let_def is_error_def reader_stops_def)
  show "reader_in_body b q \<and> signals q = signals p \<and> ready q = ready p \<and> peer_options q = peer_options p"
    if "\<not> (b = 0 \<or> L + 9 < b)"
  proof -
    have "q = read_body (?c\<lparr>read_body_buffer := vector_resize b (read_body_buffer p)\<rparr>)"
      using that limit by (auto simp: q read_header_handler_def Let_def is_error_def b_def)
    then show ?thesis
      using p assms(2) by (simp add: reader_in_body_def read_body_def queue_has_room_def) (simp add: async_read_def)
  qed
qed

text \<open>
  What the body of a frame makes the reader do: its announcements, and whether it goes on (with
  \<open>ready\<close> announced or not) or stops.
\<close>

definition body_spec :: "nat \<Rightarrow> bool \<Rightarrow> bytes \<Rightarrow> peer_signal list \<times> bool option" where
  "body_spec L rdy body =
     (case message_of_body body of
        None \<Rightarrow> (if message_type_of_byte (hd body) = None then refuse Invalid_argument
                 else announce_ready rdy @ refuse Message_size, None)
      | Some Heartbeat \<Rightarrow> ([], Some rdy)
      | Some (User_data d) \<Rightarrow>
          (if L < length d then (announce_ready rdy @ refuse Message_size, None)
           else (announce_ready rdy @ [Sig_received d], Some True))
      | Some (Request rid d) \<Rightarrow> (announce_ready rdy @ [Sig_request_received rid d], Some True)
      | Some (Response rid d) \<Rightarrow> (announce_ready rdy @ [Sig_response_received rid d], Some True)
      | Some Health_check \<Rightarrow> (if rdy then refuse Operation_not_supported else [], None)
      | Some Health_check_response \<Rightarrow> ([Sig_health_check_response_received], Some rdy))"

definition body_outcome :: "peer \<Rightarrow> peer \<Rightarrow> peer_signal list \<times> bool option \<Rightarrow> bool" where
  "body_outcome p q out =
     (case snd out of None \<Rightarrow> reader_stops p q (fst out)
      | Some rdy \<Rightarrow> reader_continues p q (fst out) rdy)"

text \<open>The peer as the switch sees it: the body is in the buffer and no read is outstanding.\<close>

definition at_switch :: "bytes \<Rightarrow> peer \<Rightarrow> bool" where
  "at_switch body p \<longleftrightarrow>
     socket_open p \<and> reading p = [] \<and> read_body_buffer p = body \<and> length (read_header_buffer p) = 4 \<and>
     quiet p \<and> limits_exact (peer_options p) \<and> queue_has_room p \<and> body \<noteq> [] \<and>
     length body \<le> unat (max_message_size (peer_options p)) + 9"

definition after_switch :: "peer \<times> bool \<Rightarrow> peer" where
  "after_switch r = (if snd r then read_header (fst r) else fst r)"

lemma vsize_at_switch:
  "at_switch body p \<Longrightarrow> unat (vsize body) = length body"
  by (rule unat_vsize) (simp add: at_switch_def limits_exact_def)

lemma continues_read_header:
  assumes "at_switch body p" and "signals q = signals p @ sigs" and "ready q = rdy"
    and "socket_open q" "reading q = []" "read_header_buffer q = read_header_buffer p"
    "quiet q" "peer_options q = peer_options p" "write_queue q = write_queue p"
  shows "reader_continues p (read_header q) sigs rdy"
  using assms read_header_effect [of q]
  by (simp add: reader_continues_def at_switch_def queue_has_room_def)

lemma stops_error:
  "socket_open q \<Longrightarrow> signals q = signals p @ sigs \<Longrightarrow> ec \<noteq> Operation_aborted \<Longrightarrow>
     reader_stops p (handle_error ec q) (sigs @ refuse ec)"
  using handle_error_effect [of q ec] by (simp add: reader_stops_def)

lemma user_data_step:
  assumes "at_switch (b # d) p"
  shows "body_outcome p (after_switch (handle_user_data p))
    (if unat (max_message_size (peer_options p)) < length d
     then (announce_ready (ready p) @ refuse Message_size, None)
     else (announce_ready (ready p) @ [Sig_received d], Some True))"
proof -
  have lim: "vsize (b # d) > max_message_size (peer_options p) + type_size \<longleftrightarrow>
      unat (max_message_size (peer_options p)) < length d"
    using vsize_at_switch [OF assms] unat_limits(1) [of "peer_options p"] assms
    by (simp add: word_less_nat_alt at_switch_def)
  have body: "read_body_buffer p = b # d" using assms by (simp add: at_switch_def)
  show ?thesis
  proof (cases "unat (max_message_size (peer_options p)) < length d")
    case True
    then show ?thesis
      using lim body assms stops_error [of "ensure_ready p" p "announce_ready (ready p)" Message_size]
      by (simp add: handle_user_data_def Let_def after_switch_def body_outcome_def at_switch_def)
  next
    case False
    have "reader_continues p (read_header (enqueue_signal (Sig_received d) (ensure_ready p)))
        (announce_ready (ready p) @ [Sig_received d]) True"
      using assms by (intro continues_read_header [OF assms]) (simp_all add: at_switch_def)
    then show ?thesis
      using False lim body by (simp add: handle_user_data_def Let_def after_switch_def body_outcome_def)
  qed
qed

lemma request_response_step:
  assumes "at_switch (b # payload) p"
  shows "body_outcome p (after_switch (handle_request_response ty p))
    (case decode_uint64 payload 0 of
       None \<Rightarrow> (announce_ready (ready p) @ refuse Message_size, None)
     | Some rid \<Rightarrow>
         (announce_ready (ready p) @
            [if ty = request then Sig_request_received rid (drop 8 payload)
             else Sig_response_received rid (drop 8 payload)], Some True))"
proof -
  have body: "read_body_buffer p = b # payload" using assms by (simp add: at_switch_def)
  have lim: "vsize (b # payload) < type_size + request_id_size \<or>
      vsize (b # payload) > max_message_size (peer_options p) + type_size + request_id_size \<longleftrightarrow>
      length payload < 8"
    using vsize_at_switch [OF assms] unat_limits(2) [of "peer_options p"] assms
    by (auto simp: word_less_nat_alt at_switch_def)
  show ?thesis
  proof (cases "length payload < 8")
    case True
    then have "decode_uint64 payload 0 = None" by (simp add: decode_uint64_def)
    then show ?thesis
      using True lim body assms stops_error [of "ensure_ready p" p "announce_ready (ready p)" Message_size]
      by (simp add: handle_request_response_def Let_def after_switch_def body_outcome_def at_switch_def)
  next
    case False
    then obtain rid where rid: "decode_uint64 payload 0 = Some rid"
      by (auto simp: decode_uint64_def)
    then have rid1: "decode_uint64 (b # payload) 1 = Some rid"
      using decode_uint64_prefix [of "[b]" payload] by simp
    define s where "s = (if ty = request then Sig_request_received rid (drop 8 payload)
             else Sig_response_received rid (drop 8 payload))"
    have "reader_continues p (read_header (enqueue_signal s (ensure_ready p)))
        (announce_ready (ready p) @ [s]) True"
      using assms by (intro continues_read_header [OF assms]) (simp_all add: at_switch_def)
    then show ?thesis
      using False lim body rid rid1
      by (simp add: handle_request_response_def Let_def after_switch_def body_outcome_def s_def)
  qed
qed

lemma push_frame_stops:
  assumes "socket_open p" and "reading p = []" and "frame = make_health_check_response_frame"
    and "limits_exact (peer_options p)" and "queue_has_room p"
  shows "reader_stops p (push_frame frame p) []"
proof -
  have "valid_outgoing_frame (peer_options p) frame"
    using valid_frame_of [of Health_check_response "peer_options p"] assms(3,4) by simp
  then show ?thesis
    using assms by (auto simp: push_frame_def Let_def reader_stops_def peer_write_def queue_has_room_def)
qed

lemma health_check_step:
  assumes "at_switch body p"
  shows "body_outcome p (after_switch (handle_health_check p))
    (if ready p then refuse Operation_not_supported else [], None)"
proof (cases "ready p")
  case True
  then show ?thesis
    using assms stops_error [of p p "[]" Operation_not_supported]
    by (simp add: handle_health_check_def after_switch_def body_outcome_def at_switch_def)
next
  case False
  have "reader_stops (p\<lparr>close_after_write := True\<rparr>)
      (push_frame make_health_check_response_frame (p\<lparr>close_after_write := True\<rparr>)) []"
    using assms by (intro push_frame_stops) (simp_all add: at_switch_def queue_has_room_def)
  then show ?thesis
    using False by (simp add: handle_health_check_def after_switch_def body_outcome_def reader_stops_def)
qed

lemma message_of_body_Cons:
  "message_of_body (b # payload) =
     (case message_type_of_byte b of
        None \<Rightarrow> None
      | Some heartbeat \<Rightarrow> Some Heartbeat
      | Some user_data \<Rightarrow> Some (User_data payload)
      | Some health_check \<Rightarrow> Some Health_check
      | Some health_check_response \<Rightarrow> Some Health_check_response
      | Some request \<Rightarrow> map_option (\<lambda>rid. Request rid (drop 8 payload)) (decode_uint64 payload 0)
      | Some response \<Rightarrow> map_option (\<lambda>rid. Response rid (drop 8 payload)) (decode_uint64 payload 0))"
  by (simp add: message_of_body_def)

lemma switch_step:
  assumes "at_switch body p"
  shows "body_outcome p (after_switch (dispatch_body p))
    (body_spec (unat (max_message_size (peer_options p))) (ready p) body)"
proof -
  obtain b payload where b: "body = b # payload"
    using assms by (cases body) (auto simp: at_switch_def)
  note sw = assms [unfolded b]
  have buf: "read_body_buffer p = b # payload" using sw by (simp add: at_switch_def)
  show ?thesis
  proof (cases "message_type_of_byte b")
    case None
    then show ?thesis
      using sw stops_error [of p p "[]" Invalid_argument]
      by (simp add: b buf dispatch_body_def body_spec_def message_of_body_Cons body_outcome_def
          after_switch_def at_switch_def)
  next
    case (Some ty)
    note defs = b buf Some dispatch_body_def body_spec_def message_of_body_Cons
    have go_on: "reader_continues p (read_header p) [] (ready p)"
      "reader_continues p (read_header (enqueue_signal Sig_health_check_response_received p))
         [Sig_health_check_response_received] (ready p)"
      using sw by (intro continues_read_header [OF sw]; simp add: at_switch_def)+
    show ?thesis
    proof (cases ty)
      case user_data
      then show ?thesis using user_data_step [OF sw] by (simp add: defs)
    next
      case request
      then show ?thesis
        using request_response_step [OF sw, of request]
        by (cases "decode_uint64 payload 0") (simp_all add: defs)
    next
      case response
      then show ?thesis
        using request_response_step [OF sw, of response]
        by (cases "decode_uint64 payload 0") (simp_all add: defs)
    next
      case health_check
      then show ?thesis using health_check_step [OF sw] by (simp add: defs)
    qed (use go_on in \<open>simp_all add: defs body_outcome_def after_switch_def\<close>)
  qed
qed

lemma body_step:
  assumes "reader_in_body (length body) p" and "body \<noteq> []"
    and "length body \<le> unat (max_message_size (peer_options p)) + 9"
  shows "body_outcome p (read_and_run body p)
    (body_spec (unat (max_message_size (peer_options p))) (ready p) body)"
proof -
  let ?p = "p\<lparr>reading := [], read_body_buffer := body, handlers := []\<rparr>"
  let ?r = "refresh_heartbeat_deadline (cancel_timer Read_deadline ?p)"
  have p: "reading p = [Read_body]" "quiet p"
    using assms(1) by (simp_all add: reader_in_body_def)
  have "read_and_run body p = read_body_handler No_error (length body) ?p"
    using read_and_run_quiet [OF p(2,1)] assms(1) by (simp add: store_read_def reader_in_body_def)
  also have "\<dots> = after_switch (dispatch_body ?r)"
    by (simp add: read_body_handler_def Let_def is_error_def after_switch_def case_prod_beta)
  finally have eq: "read_and_run body p = after_switch (dispatch_body ?r)" .
  have "at_switch body ?r"
    using assms by (simp add: at_switch_def reader_in_body_def queue_has_room_def)
  from switch_step [OF this] show ?thesis
    unfolding eq
    by (simp add: body_outcome_def reader_stops_def reader_continues_def split: option.splits)
qed

section \<open>The whole stream\<close>

lemma reader_spec_body:
  assumes "\<not> length bs < 4" and "\<not> (decode_uint32 bs = 0 \<or> L + 9 < unat (decode_uint32 bs))"
    and "split_frame bs = Some (body, rest)"
  shows "reader_spec L rdy bs =
    fst (body_spec L rdy body) @
    (case snd (body_spec L rdy body) of None \<Rightarrow> [] | Some rdy' \<Rightarrow> reader_spec L rdy' rest)"
  using assms
  by (simp add: reader_spec.simps [of L rdy bs] body_spec_def split: option.split message.split)

lemma feed_stopped: "reading p = [] \<Longrightarrow> feed n bs p = p"
  by (cases n) simp_all

lemma feed_waiting: "reading p = r # rs \<Longrightarrow> length bs < buffer_size r p \<Longrightarrow> feed n bs p = p"
  by (cases n) (simp_all add: Let_def)

lemma feed_read:
  "reading p = r # rs \<Longrightarrow> \<not> length bs < buffer_size r p \<Longrightarrow>
     feed (Suc n) bs p =
       feed n (drop (buffer_size r p) bs) (read_and_run (take (buffer_size r p) bs) p)"
  by (simp add: Let_def)

lemma decode_uint32_take: "\<not> length bs < 4 \<Longrightarrow> decode_uint32 (take 4 bs) = decode_uint32 bs"
  by (simp add: decode_uint32_def)

lemma feed_in_body:
  assumes "reader_in_body b q" and "0 < b" and "b \<le> unat (max_message_size (peer_options q)) + 9"
    and "length rest \<le> n"
    and IH: "\<And>q' rest' m. reader_idle q' \<Longrightarrow> length rest' < length rest \<Longrightarrow> length rest' \<le> m \<Longrightarrow>
      signals (feed m rest' q') =
        signals q' @ reader_spec (unat (max_message_size (peer_options q'))) (ready q') rest'"
  defines "out \<equiv> body_spec (unat (max_message_size (peer_options q))) (ready q) (take b rest)"
  shows "signals (feed n rest q) = signals q @
    (if length rest < b then []
     else fst out @ (case snd out of None \<Rightarrow> []
       | Some rdy \<Rightarrow> reader_spec (unat (max_message_size (peer_options q))) rdy (drop b rest)))"
proof -
  have reading: "reading q = [Read_body]" and size: "buffer_size Read_body q = b"
    using assms(1) by (simp_all add: reader_in_body_def buffer_size_def)
  show ?thesis
  proof (cases "length rest < b")
    case True
    then show ?thesis using feed_waiting [OF reading] size by simp
  next
    case False
    then obtain k where n: "n = Suc k" using assms(2,4) by (cases n) auto
    let ?q = "read_and_run (take b rest) q"
    have len: "length (take b rest) = b" and ne: "take b rest \<noteq> []"
      using False assms(2) by auto
    have step: "body_outcome q ?q out"
      unfolding out_def by (rule body_step [OF _ ne]) (use assms(1,3) len in simp_all)
    have eq: "feed n rest q = feed k (drop b rest) ?q"
      using feed_read [OF reading] False size n by simp
    show ?thesis
    proof (cases "snd out")
      case None
      then show ?thesis
        using step False eq by (simp add: body_outcome_def reader_stops_def feed_stopped)
    next
      case (Some rdy)
      then have go_on: "reader_continues q ?q (fst out) rdy"
        using step by (simp add: body_outcome_def)
      then have "signals (feed k (drop b rest) ?q) =
          signals ?q @ reader_spec (unat (max_message_size (peer_options ?q))) (ready ?q) (drop b rest)"
        using False assms(2,4) n by (intro IH) (simp_all add: reader_continues_def)
      then show ?thesis
        using go_on eq False Some by (simp add: reader_continues_def)
    qed
  qed
qed

lemma feed_reader:
  "reader_idle p \<Longrightarrow> length bs \<le> n \<Longrightarrow>
     signals (feed n bs p) =
       signals p @ reader_spec (unat (max_message_size (peer_options p))) (ready p) bs"
proof (induction "length bs" arbitrary: p bs n rule: less_induct)
  case less
  let ?L = "unat (max_message_size (peer_options p))"
  have reading: "reading p = [Read_header]" and size: "buffer_size Read_header p = 4"
    using less.prems(1) by (simp_all add: reader_idle_def buffer_size_def)
  show ?case
  proof (cases "length bs < 4")
    case True
    then show ?thesis using feed_waiting [OF reading] size by (simp add: reader_spec.simps)
  next
    case False
    then obtain m where n: "n = Suc m" using less.prems(2) by (cases n) auto
    let ?q = "read_and_run (take 4 bs) p" and ?b = "unat (decode_uint32 bs)"
    have eq: "feed n bs p = feed m (drop 4 bs) ?q"
      using feed_read [OF reading] False size n by simp
    note header = header_step [OF less.prems(1), of "take 4 bs", unfolded decode_uint32_take [OF False]]
    show ?thesis
    proof (cases "?b = 0 \<or> ?L + 9 < ?b")
      case True
      then have "reader_stops p ?q (refuse Message_size)" using header(1) False by simp
      moreover have "reader_spec ?L (ready p) bs = refuse Message_size"
        using True False by (simp add: reader_spec.simps [of _ _ bs] unat_eq_0)
      ultimately show ?thesis using eq by (simp add: reader_stops_def feed_stopped)
    next
      case inside: False
      then have q: "reader_in_body ?b ?q" "signals ?q = signals p" "ready ?q = ready p"
          "peer_options ?q = peer_options p"
        using header(2) False by simp_all
      have feed: "signals (feed m (drop 4 bs) ?q) = signals ?q @
          (if length (drop 4 bs) < ?b then []
           else fst (body_spec ?L (ready ?q) (take ?b (drop 4 bs))) @
             (case snd (body_spec ?L (ready ?q) (take ?b (drop 4 bs))) of None \<Rightarrow> []
              | Some rdy \<Rightarrow> reader_spec ?L rdy (drop ?b (drop 4 bs))))"
        unfolding q(4) [symmetric]
      proof (rule feed_in_body [OF q(1)])
        show "0 < ?b" "?b \<le> unat (max_message_size (peer_options ?q)) + 9"
          using inside q(4) by simp_all
        show "length (drop 4 bs) \<le> m" using less.prems(2) n by simp
        show "signals (feed k rest' q') =
            signals q' @ reader_spec (unat (max_message_size (peer_options q'))) (ready q') rest'"
          if "reader_idle q'" "length rest' < length (drop 4 bs)" "length rest' \<le> k" for q' rest' k
          using that by (intro less.hyps) simp_all
      qed
      have pos: "\<not> (decode_uint32 bs = 0 \<or> ?L + 9 < ?b)" using inside by (auto simp: unat_eq_0)
      show ?thesis
      proof (cases "length (drop 4 bs) < ?b")
        case True
        then have "split_frame bs = None" using False by (simp add: split_frame_def Let_def)
        then have "reader_spec ?L (ready p) bs = []"
          using pos False by (simp add: reader_spec.simps [of _ _ bs])
        then show ?thesis using True feed eq q by simp
      next
        case complete: False
        then have "split_frame bs = Some (take ?b (drop 4 bs), drop ?b (drop 4 bs))"
          using False by (simp add: split_frame_def Let_def)
        from reader_spec_body [OF False pos this, of "ready p"] show ?thesis
          using complete feed eq q by simp
      qed
    qed
  qed
qed

section \<open>Frames of messages\<close>

text \<open>What the owner of the receiving end is told of the messages of the other side.\<close>

fun message_signals :: "bool \<Rightarrow> message list \<Rightarrow> peer_signal list" where
  "message_signals rdy [] = []"
| "message_signals rdy (User_data d # ms) = announce_ready rdy @ Sig_received d # message_signals True ms"
| "message_signals rdy (Request rid d # ms) =
     announce_ready rdy @ Sig_request_received rid d # message_signals True ms"
| "message_signals rdy (Response rid d # ms) =
     announce_ready rdy @ Sig_response_received rid d # message_signals True ms"
| "message_signals rdy (Health_check_response # ms) =
     Sig_health_check_response_received # message_signals rdy ms"
| "message_signals rdy (Heartbeat # ms) = message_signals rdy ms"
| "message_signals rdy (Health_check # ms) = (if rdy then refuse Operation_not_supported else [])"

lemma reader_spec_frames:
  assumes "\<And>m. m \<in> set ms \<Longrightarrow> length (payload_of m) \<le> L \<and> length (body_of m) < 2 ^ 32"
  shows "reader_spec L rdy (concat (map frame_of ms)) = message_signals rdy ms"
  using assms
proof (induction ms arbitrary: rdy)
  case Nil
  then show ?case by (simp add: reader_spec.simps)
next
  case (Cons m ms)
  let ?rest = "concat (map frame_of ms)"
  have m: "length (payload_of m) \<le> L" "length (body_of m) < 2 ^ 32" using Cons.prems by auto
  have "length (payload_of m) < length (body_of m) \<or> payload_of m = []" by (cases m) simp_all
  then have "length (payload_of m) < 2 ^ 64" using m(2) by auto
  then have f: "frame_of m @ ?rest = encode_uint32 (of_nat (length (body_of m))) @ body_of m @ ?rest"
    by (simp add: frame_of_eq)
  have dec: "decode_uint32 (frame_of m @ ?rest) = of_nat (length (body_of m))"
    by (simp add: f)
  have size: "unat (decode_uint32 (frame_of m @ ?rest)) = length (body_of m)"
    unfolding dec using m(2) by (simp add: unat_of_nat)
  have "reader_spec L rdy (frame_of m @ ?rest) =
    fst (body_spec L rdy (body_of m)) @
    (case snd (body_spec L rdy (body_of m)) of None \<Rightarrow> [] | Some rdy' \<Rightarrow> reader_spec L rdy' ?rest)"
  proof (rule reader_spec_body)
    show "\<not> length (frame_of m @ ?rest) < 4" by (simp add: f)
    show "\<not> (decode_uint32 (frame_of m @ ?rest) = 0 \<or> L + 9 < unat (decode_uint32 (frame_of m @ ?rest)))"
      using size length_body_of_bounds [of m] m(1) by auto
    show "split_frame (frame_of m @ ?rest) = Some (body_of m, ?rest)"
      unfolding f by (rule split_frame_body [OF m(2)])
  qed
  moreover have "reader_spec L rdy' ?rest = message_signals rdy' ms" for rdy'
    using Cons by simp
  ultimately show ?case
    using m(1) by (cases m) (simp_all add: body_spec_def announce_ready_def del: body_of.simps)
qed

end
