(* ===== verification/Peer_Properties.thy ===== *)
theory Peer_Properties
  imports Peer_Reader
begin

text \<open>
  What holds of every reachable state of a connection, and of the bytes it exchanges with
  another one.
\<close>

section \<open>The outstanding write is the front of the queue\<close>

text \<open>
  \<^verbatim>\<open>async_write\<close> refers to the bytes of the front frame until it ends: that frame must stay
  at the front.
\<close>

definition write_front :: "peer \<Rightarrow> bool" where
  "write_front p \<longleftrightarrow>
     (\<forall>f. f \<in> set (writing p) \<or> Continue_write f \<in> set (handlers p) \<longrightarrow>
        write_queue p \<noteq> [] \<and> hd (write_queue p) = f)"

lemma write_front_primitives [simp]:
  "write_front (cancel_timer t p) = write_front p"
  "write_front (expires_after t d p) = write_front p"
  "write_front (async_wait t p) = write_front p"
  "write_front (async_read r p) = write_front p"
  "write_front (enqueue_signal s p) = write_front p"
  "write_front (p\<lparr>ready := x1\<rparr>) = write_front p"
  "write_front (p\<lparr>close_after_write := x2\<rparr>) = write_front p"
  "write_front (p\<lparr>read_body_buffer := x3\<rparr>) = write_front p"
  "write_front (p\<lparr>undefined_behaviour := x4\<rparr>) = write_front p"
  "write_front (p\<lparr>completions := x5\<rparr>) = write_front p"
  "write_front (p\<lparr>closed_on_executor := x6\<rparr>) = write_front p"
  by (auto simp: write_front_def cancel_timer_def expires_after_def async_wait_def async_read_def
      post_def enqueue_signal_def)

lemma write_front_timers [simp]:
  "write_front (start_heartbeat_timer p) = write_front p"
  "write_front (refresh_heartbeat_deadline p) = write_front p"
  "write_front (start_read_deadline p) = write_front p"
  "write_front (start_ready_deadline p) = write_front p"
  "write_front (ensure_ready p) = write_front p"
  "write_front (read_header p) = write_front p"
  "write_front (read_body p) = write_front p"
  by (simp_all add: start_heartbeat_timer_def refresh_heartbeat_deadline_def start_read_deadline_def
      start_ready_deadline_def ensure_ready_def read_header_def read_body_def)

lemma write_front_close: "write_front p \<Longrightarrow> write_front (peer_close p)"
proof -
  have "write_front (socket_close q)" if "write_front q" for q
    using that by (auto simp: write_front_def socket_close_def)
  then show "write_front p \<Longrightarrow> write_front (peer_close p)"
    by (simp add: peer_close_def close_socket_def Let_def)
qed

lemma write_front_error: "write_front p \<Longrightarrow> write_front (handle_error ec p)"
  by (simp add: handle_error_def write_front_close)

lemma write_front_write: "write_front p \<Longrightarrow> write_front (peer_write p)"
proof -
  have "write_front (async_write (hd (write_queue q)) q)" if "write_front q" "write_queue q \<noteq> []" for q
    using that by (auto simp: write_front_def async_write_def post_def)
  then show "write_front p \<Longrightarrow> write_front (peer_write p)"
    by (auto simp: peer_write_def Let_def)
       (metis async_wait_fields(8) expires_after_fields(8) write_front_primitives(2,3))
qed

lemma write_front_push: "write_front p \<Longrightarrow> write_front (push_frame f p)"
proof -
  have "write_front (p\<lparr>write_queue := write_queue p @ [f], accepted_frames := a\<rparr>)" if "write_front p" for a
    using that by (auto simp: write_front_def)
  then show "write_front p \<Longrightarrow> write_front (push_frame f p)"
    by (auto simp: push_frame_def Let_def write_front_error write_front_write)
qed

lemma write_front_write_handler:
  assumes "write_front p" and "write_tokens p = 0"
  shows "write_front (write_handler ec p)"
proof -
  have none: "writing p = []" "Continue_write f \<notin> set (handlers p)" for f
    using assms(2) by (auto simp: write_tokens_def filter_empty_conv)
  have "write_front ((cancel_timer Write_deadline p)\<lparr>write_queue := q, sent_frames := s\<rparr>)" for q s
    using none by (auto simp: write_front_def cancel_timer_def post_def)
  then show ?thesis
    using assms(1)
    by (auto simp: write_handler_def Let_def write_front_error write_front_write write_front_close
        split: list.split)
qed

lemma write_front_dispatch: "write_front p \<Longrightarrow> write_front (fst (dispatch_body p))"
  by (simp add: dispatch_body_def handle_user_data_def handle_request_response_def
      handle_health_check_def Let_def write_front_error write_front_push
      split: list.split option.split message_type.split)

lemma write_front_run:
  assumes "write_front p" and "peer_inv 0 0 p" and h: "handlers p = h # hs"
  shows "write_front (run_handler h (p\<lparr>handlers := hs\<rparr>))"
proof -
  let ?q = "p\<lparr>handlers := hs\<rparr>"
  have q: "write_front ?q" using assms(1) h by (auto simp: write_front_def)
  show ?thesis
  proof (cases "(h, ?q)" rule: run_handler.cases)
    case (2 c q)
    then show ?thesis using q by (auto simp: close_task_def Let_def write_front_close split: option.split)
  next
    case (4 t ec q)
    then show ?thesis
      using q by (cases t) (simp_all add: ready_deadline_handler_def heartbeat_timer_handler_def
          deadline_handler_def write_front_error write_front_push)
  next
    case (6 f q)
    then have "write_queue p \<noteq> [] \<and> hd (write_queue p) = f"
      using assms(1) h by (auto simp: write_front_def)
    then show ?thesis
      using 6 q by (auto simp: write_front_def async_write_def post_def)
  next
    case (8 ec n q)
    have "write_front (fst (dispatch_body (refresh_heartbeat_deadline (cancel_timer Read_deadline ?q))))"
      using q by (intro write_front_dispatch) simp
    then show ?thesis
      using 8 q by (auto simp: read_body_handler_def Let_def write_front_error split: prod.split)
  next
    case (9 ec q)
    have "write_tokens ?q = 0"
      using assms(2) h 9 by (auto simp: peer_inv_defs write_tokens_def)
    then show ?thesis using 9 q write_front_write_handler by simp
  qed (use q in \<open>auto simp: start_task_def write_front_push read_header_handler_def Let_def
      write_front_error write_front_close\<close>)
qed

lemma write_front_step: "peer_step p q \<Longrightarrow> peer_inv 0 0 p \<Longrightarrow> write_front p \<Longrightarrow> write_front q"
proof (induction rule: peer_step.induct)
  case (ps_run p h hs)
  then show ?case by (intro write_front_run)
next
  case (ps_write_some p f fs)
  then show ?case by (auto simp: write_front_def post_def)
qed (auto simp: write_front_def post_def expire_timer_def complete_read_def store_read_def
    async_push_frame_def async_close_def split: read_operation.split)

definition full_peer_inv :: "peer \<Rightarrow> bool" where
  "full_peer_inv p \<longleftrightarrow> timed_peer_inv p \<and> write_front p"

interpretation full_peer: event_machine peer_started peer_step full_peer_inv
proof unfold_locales
  show "full_peer_inv p" if "peer_started p" for p
  proof -
    have "write_front p"
      using that by (auto simp: peer_started_def write_front_def async_start_def new_peer_def post_def)
    then show ?thesis using timed_peer.inv_init [OF that] by (simp add: full_peer_inv_def)
  qed
  show "full_peer_inv q" if "full_peer_inv p" "peer_step p q" for p q
    using that timed_peer.inv_step [of p q] write_front_step [of p q]
    by (simp add: full_peer_inv_def timed_peer_inv_def)
qed

abbreviation reachable_peer :: "peer \<Rightarrow> bool" where
  "reachable_peer \<equiv> reachable_from peer_started peer_step"

lemma reachable_peer_facts:
  assumes "reachable_peer p"
  shows "token_inv 0 0 p" and "data_inv p" and "deadlines_ok {} p" and "write_front p"
  using full_peer.reachable_inv [OF assms]
  by (simp_all add: full_peer_inv_def timed_peer_inv_def peer_inv_def)

section \<open>A connection to apply the properties to\<close>

text \<open>A connection with the default options, just started, and the same one waiting for a frame.\<close>

definition fresh_peer :: peer where
  "fresh_peer = async_start (new_peer default_common_parameters)"

definition waiting_peer :: peer where
  "waiting_peer = run_queued 1 fresh_peer"

lemma fresh_peer_reachable: "reachable_peer fresh_peer"
  unfolding fresh_peer_def by (rule reach_init) (auto simp: peer_started_def)

lemma waiting_peer_reachable: "reachable_peer waiting_peer"
  unfolding waiting_peer_def
  by (rule full_peer.reachable_steps [OF run_queued_steps fresh_peer_reachable])

lemma waiting_peer_run: "waiting_peer = start_task (new_peer default_common_parameters)"
  by (simp add: waiting_peer_def fresh_peer_def async_start_def post_def run_next_def new_peer_def)

lemma waiting_peer_idle: "reader_idle waiting_peer"
  unfolding waiting_peer_run start_task_def
  by (rule read_header_effect)
     (simp_all add: start_heartbeat_timer_def start_ready_deadline_def new_peer_def quiet_def
        default_common_parameters_def limits_exact_def queue_has_room_def refresh_heartbeat_deadline_def
        expires_after_def async_wait_def cancel_timer_def)

lemma waiting_peer_fields:
  "socket_open waiting_peer" "armed waiting_peer Heartbeat_deadline" "signals waiting_peer = []"
  "\<not> ready waiting_peer" "peer_options waiting_peer = default_common_parameters"
  "handlers waiting_peer = []"
  by (simp_all add: waiting_peer_run start_task_def read_header_def start_heartbeat_timer_def
      start_ready_deadline_def start_read_deadline_def refresh_heartbeat_deadline_def new_peer_def
      expires_after_def async_wait_def cancel_timer_def async_read_def)

section \<open>Late handlers\<close>

text \<open>
  Two runs in which a close request of another thread is queued before the handler of an
  operation that has already completed: a heartbeat frame was read, and the ready deadline had
  expired.
\<close>

definition late_read_start :: peer where
  "late_read_start =
     (let p = read_and_run [0, 0, 0, 1] waiting_peer
      in async_close None (run_queued (length (handlers p)) p))"

definition late_read_run :: peer where
  "late_read_run = run_queued 2 (complete_read [0] late_read_start)"

definition late_deadline_run :: peer where
  "late_deadline_run =
     (let p = run_queued (length (handlers late_read_run)) late_read_run;
          p = expire_timer Heartbeat_deadline p
      in run_queued (length (handlers p)) p)"

definition late_ready_run :: peer where
  "late_ready_run = run_queued 2 (expire_timer Ready_deadline (async_close None waiting_peer))"

lemma complete_read_steps:
  "(case reading p of [] \<Rightarrow> True | r # _ \<Rightarrow> length bs = buffer_size r p) \<Longrightarrow>
     peer_step\<^sup>*\<^sup>* p (complete_read bs p)"
proof (cases "reading p")
  case (Cons r rs)
  assume "case reading p of [] \<Rightarrow> True | r # _ \<Rightarrow> length bs = buffer_size r p"
  then have "peer_step p (complete_read bs p)"
    using Cons by (intro ps_read_full [OF Cons]) simp
  then show ?thesis by (rule r_into_rtranclp)
qed (simp add: complete_read_def)

lemma expire_steps: "armed p t \<Longrightarrow> peer_step\<^sup>*\<^sup>* p (expire_timer t p)"
  by (rule r_into_rtranclp) (rule ps_timer)

lemma close_steps: "peer_step\<^sup>*\<^sup>* p (async_close c p)"
  by (rule r_into_rtranclp) (rule ps_close)

lemma read_and_run_steps:
  "(case reading p of [] \<Rightarrow> True | r # _ \<Rightarrow> length bs = buffer_size r p) \<Longrightarrow>
     peer_step\<^sup>*\<^sup>* p (read_and_run bs p)"
  unfolding read_and_run_def Let_def by (rule rtranclp_trans [OF complete_read_steps run_queued_steps])

lemma late_read_reachable: "reachable_peer late_read_run"
proof -
  have "case reading waiting_peer of [] \<Rightarrow> True
      | r # _ \<Rightarrow> length [0 :: byte, 0, 0, 1] = buffer_size r waiting_peer"
    by code_simp
  note first = read_and_run_steps [OF this]
  have "case reading late_read_start of [] \<Rightarrow> True
      | r # _ \<Rightarrow> length [0 :: byte] = buffer_size r late_read_start"
    by code_simp
  note second = complete_read_steps [OF this]
  have "peer_step\<^sup>*\<^sup>* waiting_peer late_read_start"
    unfolding late_read_start_def Let_def
    by (rule rtranclp_trans [OF rtranclp_trans [OF first run_queued_steps] close_steps])
  then have "peer_step\<^sup>*\<^sup>* waiting_peer late_read_run"
    unfolding late_read_run_def by (rule rtranclp_trans [OF rtranclp_trans [OF _ second] run_queued_steps])
  then show ?thesis
    by (rule full_peer.reachable_steps [OF _ waiting_peer_reachable])
qed

lemma late_deadline_reachable: "reachable_peer late_deadline_run"
proof -
  have "armed (run_queued (length (handlers late_read_run)) late_read_run) Heartbeat_deadline"
    by code_simp
  note expire = expire_steps [OF this]
  have "peer_step\<^sup>*\<^sup>* late_read_run late_deadline_run"
    unfolding late_deadline_run_def Let_def
    by (rule rtranclp_trans [OF rtranclp_trans [OF run_queued_steps expire] run_queued_steps])
  then show ?thesis
    by (rule full_peer.reachable_steps [OF _ late_read_reachable])
qed

lemma late_ready_reachable: "reachable_peer late_ready_run"
proof -
  have "armed (async_close None waiting_peer) Ready_deadline"
    by code_simp
  note expire = expire_steps [OF this]
  have "peer_step\<^sup>*\<^sup>* waiting_peer late_ready_run"
    unfolding late_ready_run_def
    by (rule rtranclp_trans [OF rtranclp_trans [OF close_steps expire] run_queued_steps])
  then show ?thesis
    by (rule full_peer.reachable_steps [OF _ waiting_peer_reachable])
qed

section \<open>Properties\<close>

text \<open>C11: In every reachable state of a connection, whatever the interleaving of its handlers,
  at most one read and one write operation are outstanding (an intermediate or final handler in
  the queue counts as its operation), the outstanding write is the front frame of the write
  queue, and no handler has read outside a buffer or popped an empty queue.\<close>

theorem peer_operations_exclusive:
  assumes "reachable_from peer_started peer_step p"
  shows "read_tokens p \<le> 1 \<and> write_tokens p \<le> 1 \<and> \<not> undefined_behaviour p \<and>
    (\<forall>f. f \<in> set (writing p) \<longrightarrow> (\<exists>rest. write_queue p = f # rest))"
proof -
  note p = reachable_peer_facts [OF assms]
  have "\<exists>rest. write_queue p = f # rest" if "f \<in> set (writing p)" for f
    using p(4) that by (cases "write_queue p") (auto simp: write_front_def)
  then show ?thesis using p(1,2) by (simp add: token_inv_def data_inv_def)
qed

lemma peer_operations_exclusive_witness:
  "read_tokens late_read_run \<le> 1 \<and> write_tokens late_read_run \<le> 1"
  using peer_operations_exclusive [OF late_read_reachable] by simp

text \<open>C10: The notifications of a connection's life. In every reachable state \<open>closed\<close> was
  announced exactly once if the socket is closed and not at all if it is open, \<open>ready\<close> exactly
  once if the connection is ready and not at all otherwise, a failure was announced only if the
  connection is closed, \<open>Operation_aborted\<close> never is; and the destructor aborts exactly while
  the socket is open. The detailed peer inherits this from the abstract connection it
  simulates.\<close>

theorem peer_lifecycle_notifications:
  assumes "reachable_from peer_started peer_step p"
  shows "count_list (signals p) Sig_closed = (if socket_open p then 0 else 1) \<and>
    count_list (signals p) Sig_ready = (if ready p then 1 else 0) \<and>
    (\<forall>ec. Sig_error_occurred ec \<in> set (signals p) \<longrightarrow> ec \<noteq> Operation_aborted \<and> \<not> socket_open p) \<and>
    destructor_aborts p = socket_open p"
proof -
  have "reachable_from connection_init connection_step (connection_of p)"
    using assms by (rule peer_refines.abstract_reachable)
  then have "connection_inv (connection_of p)"
    by (rule connection_machine.reachable_inv)
  moreover have "closed_on_executor p = (\<not> socket_open p)"
    using reachable_peer_facts(2) [OF assms] by (simp add: data_inv_def)
  ultimately show ?thesis
    by (simp add: connection_inv_def connection_of_def destructor_aborts_def)
qed

lemma peer_lifecycle_notifications_witness:
  "count_list (signals late_deadline_run) Sig_closed = 1 \<and> destructor_aborts waiting_peer"
proof
  have "\<not> socket_open late_deadline_run" by code_simp
  then show "count_list (signals late_deadline_run) Sig_closed = 1"
    using peer_lifecycle_notifications [OF late_deadline_reachable] by simp
  show "destructor_aborts waiting_peer"
    using peer_lifecycle_notifications [OF waiting_peer_reachable] waiting_peer_fields by simp
qed

text \<open>C12: The write queue is a bounded first-in first-out queue. In every reachable state the
  frames accepted are, in order, those sent completely followed by those queued; every one of
  them is a valid frame; and the queue is within its configured size.\<close>

theorem peer_write_queue_fifo:
  assumes "reachable_from peer_started peer_step p"
  shows "accepted_frames p = sent_frames p @ write_queue p \<and>
    length (write_queue p) \<le> unat (max_send_queue_size (peer_options p)) \<and>
    (\<forall>f \<in> set (accepted_frames p). valid_outgoing_frame (peer_options p) f)"
  using reachable_peer_facts(2) [OF assms] by (simp add: data_inv_def)

lemma peer_write_queue_fifo_witness:
  "accepted_frames waiting_peer = sent_frames waiting_peer @ write_queue waiting_peer"
  using peer_write_queue_fifo [OF waiting_peer_reachable] by simp

text \<open>C13: An open connection always has an operation outstanding. In every reachable state with the
  socket open: while frames are queued, exactly one write operation is outstanding; and exactly one
  read operation is outstanding, unless the connection has answered a health check. Such a connection
  may have stopped reading: it closes after its last write, and it still has a frame to write.\<close>

theorem peer_open_never_stuck:
  assumes "reachable_from peer_started peer_step p" and "socket_open p"
  shows "(close_after_write p \<or> read_tokens p = 1) \<and>
    (write_queue p = [] \<or> write_tokens p = 1) \<and>
    (close_after_write p \<longrightarrow> write_queue p \<noteq> [])"
  using reachable_peer_facts(1) [OF assms(1)] assms(2) by (auto simp: token_inv_def)

lemma peer_open_never_stuck_witness: "read_tokens waiting_peer = 1"
proof -
  have "\<not> close_after_write waiting_peer" by code_simp
  then show ?thesis
    using peer_open_never_stuck [OF waiting_peer_reachable] waiting_peer_fields by simp
qed

text \<open>C14: Nothing waits without a deadline. In every reachable state with the socket open, the
  read deadline is pending (armed, or expired with its handler queued) while a read is
  outstanding, the write deadline while a write is, both heartbeat timers once the connection
  was started, and the ready deadline until it is ready.\<close>

theorem peer_operations_have_deadlines:
  assumes "reachable_from peer_started peer_step p" and "socket_open p" and "timer_needed t p"
  shows "timer_pending p t"
  using reachable_peer_facts(3) [OF assms(1)] assms(2,3) by (simp add: deadlines_ok_def)

lemma peer_operations_have_deadlines_witness: "timer_pending waiting_peer Ready_deadline"
  by (rule peer_operations_have_deadlines [OF waiting_peer_reachable])
     (simp_all add: waiting_peer_fields start_done_def)

text \<open>C15: A deadline closes the connection. When the heartbeat, read or write deadline of a
  reachable connection expires, then after the handlers already queued and its own have run the
  socket is closed and \<open>closed\<close> was announced, exactly once.\<close>

theorem expired_deadline_closes:
  assumes "reachable_from peer_started peer_step p" and "armed p t"
    and "t \<in> {Heartbeat_deadline, Read_deadline, Write_deadline}"
  defines "q \<equiv> run_queued (Suc (length (handlers p))) (expire_timer t p)"
  shows "\<not> socket_open q \<and> count_list (signals q) Sig_closed = 1"
proof
  show closed: "\<not> socket_open q"
    unfolding q_def
    by (rule deadline_queued_closes [of _ "handlers p" t "[]"])
       (use assms(3) in \<open>simp_all add: expire_timer_def post_def is_deadline_def\<close>)
  have "peer_step\<^sup>*\<^sup>* p q"
    unfolding q_def by (rule rtranclp_trans [OF expire_steps [OF assms(2)] run_queued_steps])
  then have "reachable_peer q"
    using assms(1) by (rule full_peer.reachable_steps)
  then show "count_list (signals q) Sig_closed = 1"
    using reachable_peer_facts(2) closed by (simp add: data_inv_def)
qed

lemma expired_deadline_closes_witness:
  "\<not> socket_open (run_queued (Suc (length (handlers waiting_peer))) (expire_timer Heartbeat_deadline waiting_peer))"
  using expired_deadline_closes [OF waiting_peer_reachable waiting_peer_fields(2)] by simp

text \<open>C29: Sizes. In every reachable state of a connection every announced payload is within
  the configured \<^verbatim>\<open>max_message_size\<close>, and while a body is being read its buffer is not empty and
  within the limit the header was checked against: a peer cannot make the connection allocate
  more, or read the type byte of an empty body.\<close>

theorem peer_payloads_bounded:
  assumes "reachable_from peer_started peer_step p"
  shows "(\<forall>s \<in> set (signals p). signal_in_bounds (peer_options p) s) \<and>
    (body_pending p \<longrightarrow> read_body_buffer p \<noteq> [] \<and> length (read_body_buffer p) \<le>
       unat (max_message_size (peer_options p) + type_size + request_id_size))"
  using reachable_peer_facts(2) [OF assms] by (simp add: data_inv_def body_in_bounds_def)

lemma peer_payloads_bounded_witness:
  "read_body_buffer (read_and_run [0, 0, 0, 9] waiting_peer) \<noteq> []"
proof -
  have "case reading waiting_peer of [] \<Rightarrow> True
      | r # _ \<Rightarrow> length [0 :: byte, 0, 0, 9] = buffer_size r waiting_peer"
    by code_simp
  then have "reachable_peer (read_and_run [0, 0, 0, 9] waiting_peer)"
    using waiting_peer_reachable by (intro full_peer.reachable_steps [OF read_and_run_steps])
  moreover have "body_pending (read_and_run [0, 0, 0, 9] waiting_peer)"
    by code_simp
  ultimately show ?thesis
    using peer_payloads_bounded by blast
qed



text \<open>C40: The sum of \<^verbatim>\<open>max_message_size\<close> and the sizes of the type and request id wraps
  around: with the largest \<^verbatim>\<open>size_t\<close> as \<^verbatim>\<open>max_message_size\<close>, the natural way to ask for no limit,
  no frame at all is accepted, not even a heartbeat.\<close>

theorem unlimited_size_accepts_nothing:
  "\<not> valid_outgoing_frame (options\<lparr>max_message_size := - 1\<rparr>) frame"
proof -
  have lim: "type_size - 1 = (0 :: size_t)" "request_id_size = (8 :: size_t)"
    by (simp_all add: type_size_def request_id_size_def)
  define body_size where "body_size = (ucast (decode_uint32 (take 4 frame)) :: size_t)"
  have small: "\<not> body_size \<le> 0" if "\<not> body_size < type_size"
    using that by (simp add: type_size_def)
  have large: "\<not> (type_size + request_id_size \<le> body_size \<and> body_size \<le> 8)"
    by (simp add: type_size_def request_id_size_def word_le_nat_alt)
  show ?thesis
  proof (cases "vsize frame < header_size + type_size \<or> vsize frame \<noteq> header_size + body_size \<or>
      body_size < type_size")
    case True
    then show ?thesis by (auto simp: valid_outgoing_frame_def Let_def body_size_def)
  next
    case False
    show ?thesis
    proof (cases "message_type_of_byte (frame ! 4)")
      case None
      then show ?thesis by (simp add: valid_outgoing_frame_def Let_def)
    next
      case (Some ty)
      then show ?thesis
        using False small large unfolding valid_outgoing_frame_def Let_def body_size_def [symmetric]
        by (cases ty) (simp_all add: lim)
    qed
  qed
qed

text \<open>C8: The reader refines the reference parser. Feed any bytes, well formed or not, to a
  connection that waits for a header: its announcements are exactly those of the reference
  parser, the errors included, and \<open>length bs\<close> reads are enough.\<close>

theorem reader_refines_parser:
  assumes "reader_idle p" and "length bs \<le> n"
  shows "signals (feed n bs p) =
    signals p @ reader_spec (unat (max_message_size (peer_options p))) (ready p) bs"
  using assms by (rule feed_reader)

lemma reader_refines_parser_witness:
  "signals (feed 6 [0, 0, 0, 2, 1, 65] waiting_peer) = [Sig_ready, Sig_received [65]] \<and>
   signals (feed 4 [255, 0, 0, 0] waiting_peer) = [Sig_error_occurred Message_size, Sig_closed]"
proof
  have "concat (map frame_of [User_data [65]]) = [0, 0, 0, 2, 1, 65]"
    by code_simp
  then have "reader_spec (unat (max_message_size default_common_parameters)) False [0, 0, 0, 2, 1, 65] =
      [Sig_ready, Sig_received [65]]"
    using reader_spec_frames [of "[User_data [65]]" "unat (max_message_size default_common_parameters)" False]
    by (simp add: default_common_parameters_def announce_ready_def)
  then show "signals (feed 6 [0, 0, 0, 2, 1, 65] waiting_peer) = [Sig_ready, Sig_received [65]]"
    using reader_refines_parser [OF waiting_peer_idle, of "[0, 0, 0, 2, 1, 65]" 6]
    by (simp add: waiting_peer_fields)
  have "decode_uint32 [255, 0, 0, 0] = 0xff000000"
    by code_simp
  then have "reader_spec (unat (max_message_size default_common_parameters)) False [255, 0, 0, 0] =
      [Sig_error_occurred Message_size, Sig_closed]"
    by (simp add: reader_spec.simps [of _ _ "[255, 0, 0, 0]"] default_common_parameters_def refuse_def)
  then show "signals (feed 4 [255, 0, 0, 0] waiting_peer) = [Sig_error_occurred Message_size, Sig_closed]"
    using reader_refines_parser [OF waiting_peer_idle, of "[255, 0, 0, 0]" 4]
    by (simp add: waiting_peer_fields)
qed

text \<open>C9: End to end. The frames of messages that a connection with the same limit has sent,
  arriving as one byte stream at a connection that waits for a header, make it announce exactly
  these messages, in order, with \<open>ready\<close> before the first of them: framing never loses, splits
  or merges a message.\<close>

theorem sent_messages_arrive_in_order:
  assumes "reachable_from peer_started peer_step sender" and "sent_frames sender = map frame_of ms"
    and "\<And>m. m \<in> set ms \<Longrightarrow> length (payload_of m) + 13 < 2 ^ 64"
    and "reader_idle receiver"
    and "max_message_size (peer_options sender) = max_message_size (peer_options receiver)"
    and "length (concat (sent_frames sender)) \<le> n"
  shows "signals (feed n (concat (sent_frames sender)) receiver) =
    signals receiver @ message_signals (ready receiver) ms"
proof -
  let ?L = "unat (max_message_size (peer_options receiver))"
  have limits: "limits_exact (peer_options sender)"
    using assms(4,5) by (simp add: limits_exact_def reader_idle_def)
  have "length (payload_of m) \<le> ?L \<and> length (body_of m) < 2 ^ 32" if "m \<in> set ms" for m
  proof -
    have "accepted_frames sender = sent_frames sender @ write_queue sender"
      "\<forall>f \<in> set (accepted_frames sender). valid_outgoing_frame (peer_options sender) f"
      using reachable_peer_facts(2) [OF assms(1)] by (simp_all add: data_inv_def)
    then have "valid_outgoing_frame (peer_options sender) (frame_of m)"
      using that assms(2) by simp
    then show ?thesis
      using valid_frame_of [OF assms(3) [OF that] limits] assms(5) by simp
  qed
  from reader_spec_frames [OF this, where rdy = "ready receiver" and ms = ms]
  have "reader_spec ?L (ready receiver) (concat (sent_frames sender)) = message_signals (ready receiver) ms"
    by (simp add: assms(2))
  then show ?thesis
    using feed_reader [OF assms(4,6)] by simp
qed

text \<open>A run that sends one message, and another connection that reads it.\<close>

definition sending_peer :: peer where
  "sending_peer =
     (let p = run_queued 1 (async_send [65] waiting_peer)
      in run_queued 1 (post (Write_handler No_error) (p\<lparr>writing := []\<rparr>)))"

lemma sending_peer_reachable: "reachable_peer sending_peer"
proof -
  let ?p = "run_queued 1 (async_send [65] waiting_peer)"
  have "writing ?p = [make_user_data_frame [65]]" by code_simp
  then have "peer_step ?p (post (Write_handler No_error) (?p\<lparr>writing := []\<rparr>))"
    by (rule ps_write_done)
  then have "peer_step\<^sup>*\<^sup>* ?p sending_peer"
    unfolding sending_peer_def Let_def by (rule converse_rtranclp_into_rtranclp [OF _ run_queued_steps])
  moreover have "peer_step\<^sup>*\<^sup>* waiting_peer ?p"
    unfolding async_send_def by (rule converse_rtranclp_into_rtranclp [OF ps_push run_queued_steps])
  ultimately have "peer_step\<^sup>*\<^sup>* waiting_peer sending_peer" by simp
  then show ?thesis by (rule full_peer.reachable_steps [OF _ waiting_peer_reachable])
qed

lemma sent_messages_arrive_in_order_witness:
  "signals (feed 6 (concat (sent_frames sending_peer)) waiting_peer) = [Sig_ready, Sig_received [65]]"
proof -
  have "sent_frames sending_peer = map frame_of [User_data [65]]"
    and "max_message_size (peer_options sending_peer) = max_message_size (peer_options waiting_peer)"
    and "length (concat (sent_frames sending_peer)) \<le> 6"
    by code_simp+
  from sent_messages_arrive_in_order [OF sending_peer_reachable this(1) _ waiting_peer_idle this(2,3)]
  show ?thesis by (simp add: waiting_peer_fields announce_ready_def)
qed

text \<open>C36: Handlers that were queued before a close still run after it, without asking whether
  the socket is open. So a connection can announce \<open>ready\<close> after \<open>closed\<close>, the success handler of a
  read can arm the heartbeat deadline of a closed connection, and that deadline's expiry then
  announces a failure after \<open>closed\<close>.\<close>

theorem late_handlers_after_close:
  "(\<exists>p. reachable_from peer_started peer_step p \<and> signals p = [Sig_closed, Sig_ready]) \<and>
   (\<exists>p. reachable_from peer_started peer_step p \<and> \<not> socket_open p \<and> armed p Heartbeat_deadline) \<and>
   (\<exists>p. reachable_from peer_started peer_step p \<and>
      signals p = [Sig_closed, Sig_error_occurred Timed_out])"
proof (intro conjI)
  have "signals late_ready_run = [Sig_closed, Sig_ready]" by code_simp
  then show "\<exists>p. reachable_from peer_started peer_step p \<and> signals p = [Sig_closed, Sig_ready]"
    using late_ready_reachable by blast
  have "\<not> socket_open late_read_run" "armed late_read_run Heartbeat_deadline" by code_simp+
  then show "\<exists>p. reachable_from peer_started peer_step p \<and> \<not> socket_open p \<and> armed p Heartbeat_deadline"
    using late_read_reachable by blast
  have "signals late_deadline_run = [Sig_closed, Sig_error_occurred Timed_out]" by code_simp
  then show "\<exists>p. reachable_from peer_started peer_step p \<and>
      signals p = [Sig_closed, Sig_error_occurred Timed_out]"
    using late_deadline_reachable by blast
qed

end
