(* ===== verification/Runtime.thy ===== *)
theory Runtime
  imports Types
begin

text \<open>
  The process-wide runtime (\<^verbatim>\<open>impl/runtime.hpp\<close>): which server of the process owns which socket
  file. The file system is part of the state, with the functions of \<^verbatim>\<open>std::filesystem\<close> the code
  calls as fields, because what they return changes when other programs change directories and
  symbolic links.
\<close>

section \<open>The file system\<close>

type_synonym path = string

text \<open>A \<^verbatim>\<open>server_state*\<close>, used only for its identity.\<close>

type_synonym server_ref = nat

text \<open>
  \<open>entry_of\<close> is the directory entry a path names (links in its directories followed);
  \<open>socket_files\<close> are the entries that are socket files, each with the server that created it
  (\<open>None\<close> inside for a program other than this process). The two canonicalisations may fail.
\<close>

record filesystem =
  weakly_canonical :: "path \<Rightarrow> path option"
  absolute_path :: "path \<Rightarrow> path option"
  lexically_normal :: "path \<Rightarrow> path"
  entry_of :: "path \<Rightarrow> path"
  socket_files :: "path \<Rightarrow> server_ref option option"

text \<open>
  \<^verbatim>\<open>filesystem::remove\<close> is a parameter \<open>rem\<close> of the operations: it removes the entry a path
  names, or fails (the code ignores the error) and changes nothing. Removing a symbolic link may
  change how paths through it resolve, but not how that entry and the resolved paths do.
\<close>

definition removes_entry :: "(path \<Rightarrow> filesystem \<Rightarrow> filesystem) \<Rightarrow> bool" where
  "removes_entry rem \<longleftrightarrow>
     (\<forall>p fs. socket_files (rem p fs) \<in> {socket_files fs, (socket_files fs)(entry_of fs p := None)} \<and>
        entry_of (rem p fs) p = entry_of fs p \<and>
        (\<forall>k. entry_of fs k = k \<longrightarrow> entry_of (rem p fs) k = k))"

text \<open>The removal on a file system without symbolic links.\<close>

definition plain_remove :: "path \<Rightarrow> filesystem \<Rightarrow> filesystem" where
  "plain_remove p fs = fs\<lparr>socket_files := (socket_files fs)(entry_of fs p := None)\<rparr>"

lemma plain_remove_removes: "removes_entry plain_remove"
  by (simp add: removes_entry_def plain_remove_def)

text \<open>\<^verbatim>\<open>acceptor::bind\<close> creates the socket file, and fails when the entry exists.\<close>

definition fs_bind :: "server_ref \<Rightarrow> path \<Rightarrow> filesystem \<Rightarrow> filesystem option" where
  "fs_bind owner p fs =
     (if socket_files fs (entry_of fs p) = None
      then Some (fs\<lparr>socket_files := (socket_files fs)(entry_of fs p := Some (Some owner))\<rparr>)
      else None)"

section \<open>The runtime\<close>

record runtime =
  socket_file_path_owners :: "path \<Rightarrow> server_ref option"
  runtime_fs :: filesystem

definition make_socket_file_path_key :: "path \<Rightarrow> filesystem \<Rightarrow> path" where
  "make_socket_file_path_key socket_file_path fs =
     (case weakly_canonical fs socket_file_path of
        Some key \<Rightarrow> key
      | None \<Rightarrow>
          (case absolute_path fs socket_file_path of
             Some key \<Rightarrow> lexically_normal fs key
           | None \<Rightarrow> lexically_normal fs socket_file_path))"

definition set_socket_file_path_owner :: "path \<Rightarrow> server_ref \<Rightarrow> runtime \<Rightarrow> runtime" where
  "set_socket_file_path_owner resolved owner rt =
     rt\<lparr>socket_file_path_owners := (socket_file_path_owners rt)(resolved := Some owner)\<rparr>"

definition remove_socket_file_path :: "(path \<Rightarrow> filesystem \<Rightarrow> filesystem) \<Rightarrow> path \<Rightarrow> runtime \<Rightarrow> runtime" where
  "remove_socket_file_path rem socket_file_path rt =
     (let rt = rt\<lparr>socket_file_path_owners := (socket_file_path_owners rt)
                    (make_socket_file_path_key socket_file_path (runtime_fs rt) := None)\<rparr>
      in rt\<lparr>runtime_fs := rem socket_file_path (runtime_fs rt)\<rparr>)"

definition remove_socket_file_path_if_owned ::
    "(path \<Rightarrow> filesystem \<Rightarrow> filesystem) \<Rightarrow> path \<Rightarrow> server_ref \<Rightarrow> runtime \<Rightarrow> runtime" where
  "remove_socket_file_path_if_owned rem resolved owner rt =
     (if socket_file_path_owners rt resolved = Some owner
      then rt\<lparr>socket_file_path_owners := (socket_file_path_owners rt)(resolved := None),
              runtime_fs := rem resolved (runtime_fs rt)\<rparr>
      else rt)"

section \<open>Servers that share a path\<close>

text \<open>
  The ownership part of a server's bind (\<^verbatim>\<open>server.hpp\<close>, \<open>bind\<close>) and of its \<open>close_acceptor\<close>,
  interleaved with what other programs do to the file system. What other programs may not do in
  the model: make a directory of an owned, resolved path a symbolic link, or create a file in a
  server's name. And when \<open>bind\<close> has created the file, resolving the path gives its entry (the
  last component is not a link, as it did not exist); the two \<open>make_socket_file_path_key\<close>
  fall-backs are for the case that resolving fails, where the code cannot know the entry.
\<close>

definition server_binds_path ::
    "(path \<Rightarrow> filesystem \<Rightarrow> filesystem) \<Rightarrow> server_ref \<Rightarrow> path \<Rightarrow> runtime \<Rightarrow> (path \<times> runtime) option" where
  "server_binds_path rem server p rt =
     (let rt = remove_socket_file_path rem p rt;
          resolved = make_socket_file_path_key p (runtime_fs rt)
      in case fs_bind server p (runtime_fs rt) of
           None \<Rightarrow> None
         | Some fs \<Rightarrow> Some (resolved, set_socket_file_path_owner resolved server (rt\<lparr>runtime_fs := fs\<rparr>)))"

inductive runtime_step :: "runtime \<Rightarrow> runtime \<Rightarrow> bool" where
  rs_bind: "removes_entry rem \<Longrightarrow>
    server_binds_path rem server p rt = Some (resolved, rt') \<Longrightarrow>
    weakly_canonical (runtime_fs rt') p = Some (entry_of (runtime_fs rt') p) \<Longrightarrow>
    entry_of (runtime_fs rt') resolved = resolved \<Longrightarrow>
    runtime_step rt rt'"
| rs_bind_fails: "removes_entry rem \<Longrightarrow> server_binds_path rem server p rt = None \<Longrightarrow>
    runtime_step rt (remove_socket_file_path rem p rt)"
| rs_release: "removes_entry rem \<Longrightarrow>
    runtime_step rt (remove_socket_file_path_if_owned rem resolved server rt)"
| rs_other: "(\<And>k. socket_file_path_owners rt k \<noteq> None \<Longrightarrow> entry_of fs k = k) \<Longrightarrow>
    (\<And>k s. socket_files fs k = Some (Some s) \<Longrightarrow> socket_files (runtime_fs rt) k = Some (Some s)) \<Longrightarrow>
    runtime_step rt (rt\<lparr>runtime_fs := fs\<rparr>)"

text \<open>An owned path is resolved, and a file of this process at an owned path is its owner's.\<close>

definition runtime_inv :: "runtime \<Rightarrow> bool" where
  "runtime_inv rt \<longleftrightarrow>
     (\<forall>k s. socket_file_path_owners rt k = Some s \<longrightarrow>
        entry_of (runtime_fs rt) k = k \<and>
        (\<forall>t. socket_files (runtime_fs rt) k = Some (Some t) \<longrightarrow> t = s))"

definition runtime_initial :: "runtime \<Rightarrow> bool" where
  "runtime_initial rt \<longleftrightarrow> socket_file_path_owners rt = (\<lambda>_. None)"

lemma remove_files:
  "removes_entry rem \<Longrightarrow> socket_files (rem p fs) k = Some f \<Longrightarrow> socket_files fs k = Some f"
  unfolding removes_entry_def
  by (metis fun_upd_apply insertE option.distinct(1) singletonD)

lemma remove_resolved: "removes_entry rem \<Longrightarrow> entry_of fs k = k \<Longrightarrow> entry_of (rem p fs) k = k"
  unfolding removes_entry_def by blast

lemma runtime_invI:
  "(\<And>k s. socket_file_path_owners rt k = Some s \<Longrightarrow> entry_of (runtime_fs rt) k = k) \<Longrightarrow>
   (\<And>k s t. socket_file_path_owners rt k = Some s \<Longrightarrow> socket_files (runtime_fs rt) k = Some (Some t) \<Longrightarrow>
      t = s) \<Longrightarrow> runtime_inv rt"
  unfolding runtime_inv_def by blast

lemma runtime_invD:
  assumes "runtime_inv rt" and "socket_file_path_owners rt k = Some s"
  shows "entry_of (runtime_fs rt) k = k"
    and "socket_files (runtime_fs rt) k = Some (Some t) \<Longrightarrow> t = s"
  using assms unfolding runtime_inv_def by blast+

text \<open>Removing a path and forgetting any owners keeps the invariant.\<close>

lemma forget_inv:
  assumes "removes_entry rem" and "runtime_inv rt"
    and "\<And>k s. owners k = Some s \<Longrightarrow> socket_file_path_owners rt k = Some s"
  shows "runtime_inv (rt\<lparr>socket_file_path_owners := owners, runtime_fs := rem p (runtime_fs rt)\<rparr>)"
proof (rule runtime_invI; simp)
  fix k s t
  assume "owners k = Some s"
  then have k: "socket_file_path_owners rt k = Some s" by (rule assms(3))
  show "entry_of (rem p (runtime_fs rt)) k = k"
    by (rule remove_resolved [OF assms(1) runtime_invD(1) [OF assms(2) k]])
  show "t = s" if "socket_files (rem p (runtime_fs rt)) k = Some (Some t)"
    using runtime_invD(2) [OF assms(2) k] remove_files [OF assms(1) that] by blast
qed

lemma remove_path_inv:
  assumes "removes_entry rem" and "runtime_inv rt"
  shows "runtime_inv (remove_socket_file_path rem p rt)"
proof -
  let ?owners = "(socket_file_path_owners rt)(make_socket_file_path_key p (runtime_fs rt) := None)"
  have "runtime_inv (rt\<lparr>socket_file_path_owners := ?owners, runtime_fs := rem p (runtime_fs rt)\<rparr>)"
    by (rule forget_inv [OF assms]) (simp split: if_splits)
  then show ?thesis by (simp add: remove_socket_file_path_def Let_def)
qed

lemma release_inv:
  assumes "removes_entry rem" and "runtime_inv rt"
  shows "runtime_inv (remove_socket_file_path_if_owned rem k s rt)"
proof -
  have "runtime_inv (rt\<lparr>socket_file_path_owners := (socket_file_path_owners rt)(k := None),
      runtime_fs := rem k (runtime_fs rt)\<rparr>)"
    by (rule forget_inv [OF assms]) (simp split: if_splits)
  then show ?thesis using assms(2) by (simp add: remove_socket_file_path_if_owned_def)
qed

lemma bind_inv:
  assumes rem: "removes_entry rem" and "runtime_inv rt"
    and "server_binds_path rem server p rt = Some (resolved, rt')"
    and canonical: "weakly_canonical (runtime_fs rt') p = Some (entry_of (runtime_fs rt') p)"
    and "entry_of (runtime_fs rt') resolved = resolved"
  shows "runtime_inv rt'"
proof -
  define rt1 where "rt1 = remove_socket_file_path rem p rt"
  define e where "e = entry_of (runtime_fs rt1) p"
  define fs where "fs = (runtime_fs rt1)\<lparr>socket_files := (socket_files (runtime_fs rt1))(e := Some (Some server))\<rparr>"
  have rt': "rt' = set_socket_file_path_owner resolved server (rt1\<lparr>runtime_fs := fs\<rparr>)"
    and resolved: "resolved = make_socket_file_path_key p (runtime_fs rt1)"
    using assms(3) unfolding server_binds_path_def Let_def rt1_def [symmetric] fs_bind_def e_def [symmetric]
    by (auto simp: fs_def split: if_splits)
  have "weakly_canonical (runtime_fs rt1) p = Some e"
    using canonical by (simp add: rt' set_socket_file_path_owner_def fs_def e_def)
  then have e: "resolved = e"
    by (simp add: resolved make_socket_file_path_key_def)
  have inv: "runtime_inv rt1"
    unfolding rt1_def by (rule remove_path_inv [OF rem assms(2)])
  show ?thesis
  proof (rule runtime_invI)
    fix k s t
    assume k: "socket_file_path_owners rt' k = Some s"
    show "entry_of (runtime_fs rt') k = k"
      using k assms(5) runtime_invD(1) [OF inv, of k s]
      by (cases "k = resolved") (simp_all add: rt' set_socket_file_path_owner_def fs_def)
    show "t = s" if "socket_files (runtime_fs rt') k = Some (Some t)"
      using k that runtime_invD(2) [OF inv, of k s t]
      by (cases "k = resolved") (simp_all add: rt' set_socket_file_path_owner_def fs_def e)
  qed
qed

lemma runtime_step_inv: "runtime_step rt rt' \<Longrightarrow> runtime_inv rt \<Longrightarrow> runtime_inv rt'"
proof (induction rule: runtime_step.induct)
  case (rs_bind rem server p rt resolved rt')
  show ?case by (rule bind_inv [OF rs_bind.hyps(1) rs_bind.prems rs_bind.hyps(2-4)])
next
  case (rs_bind_fails rem server p rt)
  then show ?case by (simp add: remove_path_inv)
next
  case (rs_release rem rt resolved server)
  then show ?case by (simp add: release_inv)
next
  case (rs_other rt fs)
  show ?case
  proof (rule runtime_invI; simp)
    fix k s t
    assume k: "socket_file_path_owners rt k = Some s"
    then show "entry_of fs k = k" using rs_other.hyps(1) by simp
    show "t = s" if "socket_files fs k = Some (Some t)"
      using runtime_invD(2) [OF rs_other.prems k] rs_other.hyps(2) [OF that] by blast
  qed
qed

interpretation runtime_machine: event_machine runtime_initial runtime_step runtime_inv
proof unfold_locales
  show "runtime_inv rt" if "runtime_initial rt" for rt
    using that by (simp add: runtime_initial_def runtime_inv_def)
  show "runtime_inv rt'" if "runtime_inv rt" "runtime_step rt rt'" for rt rt'
    by (rule runtime_step_inv [OF that(2,1)])
qed

section \<open>Properties\<close>

text \<open>C32: A server only deletes its own socket file. In every reachable state of the runtime,
  whatever servers bind and release and however other programs change the file system, releasing
  a saved path leaves the socket file of every other server of the process in place, and leaves
  every file in place unless the server still owns the saved path.\<close>

theorem release_spares_other_servers:
  fixes server :: server_ref and resolved :: path
  assumes "reachable_from runtime_initial runtime_step rt" and "removes_entry rem"
  defines "rt' \<equiv> remove_socket_file_path_if_owned rem resolved server rt"
  shows "(\<forall>k other. other \<noteq> server \<longrightarrow> socket_files (runtime_fs rt) k = Some (Some other) \<longrightarrow>
      socket_files (runtime_fs rt') k = Some (Some other)) \<and>
    (socket_file_path_owners rt resolved \<noteq> Some server \<longrightarrow> rt' = rt) \<and>
    socket_file_path_owners rt' resolved \<noteq> Some server"
proof (cases "socket_file_path_owners rt resolved = Some server")
  case True
  have inv: "runtime_inv rt" by (rule runtime_machine.reachable_inv [OF assms(1)])
  let ?fs = "runtime_fs rt"
  have files: "socket_files (rem resolved ?fs) \<in> {socket_files ?fs, (socket_files ?fs)(resolved := None)}"
    using assms(2) runtime_invD(1) [OF inv True] unfolding removes_entry_def by metis
  have "socket_files (rem resolved ?fs) k = Some (Some other)"
    if "other \<noteq> server" "socket_files ?fs k = Some (Some other)" for k other
  proof -
    have "k \<noteq> resolved" using that runtime_invD(2) [OF inv True, of other] by auto
    then show ?thesis using that files by auto
  qed
  then show ?thesis using True by (simp add: rt'_def remove_socket_file_path_if_owned_def)
qed (simp add: rt'_def remove_socket_file_path_if_owned_def)

text \<open>Two servers of the process bind the same path; then the first one cleans up.\<close>

definition plain_filesystem :: filesystem where
  "plain_filesystem =
     \<lparr>weakly_canonical = Some, absolute_path = Some, lexically_normal = id, entry_of = id,
      socket_files = Map.empty\<rparr>"

definition two_servers :: runtime where
  "two_servers =
     (let bind = (\<lambda>server rt. snd (the (server_binds_path plain_remove server ''/tmp/s'' rt)))
      in bind 2 (bind 1 \<lparr>socket_file_path_owners = Map.empty, runtime_fs = plain_filesystem\<rparr>))"

lemma two_servers_reachable: "reachable_from runtime_initial runtime_step two_servers"
proof -
  let ?rt = "\<lparr>socket_file_path_owners = Map.empty, runtime_fs = plain_filesystem\<rparr>"
  let ?rt1 = "snd (the (server_binds_path plain_remove 1 ''/tmp/s'' ?rt))"
  note defs = server_binds_path_def Let_def remove_socket_file_path_def plain_remove_def fs_bind_def
    plain_filesystem_def set_socket_file_path_owner_def make_socket_file_path_key_def
  have "runtime_step ?rt ?rt1"
    by (rule rs_bind [OF plain_remove_removes, of 1 "''/tmp/s''" _ "''/tmp/s''"]) (simp_all add: defs)
  moreover have "runtime_step ?rt1 two_servers"
    by (rule rs_bind [OF plain_remove_removes, of 2 "''/tmp/s''" _ "''/tmp/s''"])
       (simp_all add: two_servers_def defs)
  moreover have "runtime_initial ?rt" by (simp add: runtime_initial_def)
  ultimately show ?thesis by (blast intro: reach_init reach_step)
qed

lemma release_spares_other_servers_witness:
  "socket_files (runtime_fs (remove_socket_file_path_if_owned plain_remove ''/tmp/s'' 1 two_servers)) ''/tmp/s'' =
     Some (Some 2)"
proof -
  have "socket_files (runtime_fs two_servers) ''/tmp/s'' = Some (Some 2)"
    by (simp add: two_servers_def server_binds_path_def Let_def remove_socket_file_path_def
        plain_remove_def fs_bind_def plain_filesystem_def set_socket_file_path_owner_def)
  then show ?thesis
    using release_spares_other_servers [OF two_servers_reachable plain_remove_removes,
        where server = 1 and resolved = "''/tmp/s''"]
    by fastforce
qed

end
