(* ===== verification/Runtime_Worker.thy ===== *)
theory Runtime_Worker
  imports Prelude
begin

text \<open>
  The I/O thread of \<^verbatim>\<open>impl/runtime.hpp\<close>: a thread that runs \<^verbatim>\<open>io_context::run\<close> from the construction of
  the process-wide runtime, a work guard that keeps it running while nothing is to be done, and the
  destructor that resets the guard and joins the thread. Of asio it takes what \<^verbatim>\<open>run\<close> is documented to
  do: it calls the posted handlers one at a time, and returns when there is no handler, no
  outstanding asynchronous operation and no work guard.
\<close>

section \<open>The worker\<close>

text \<open>
  The members of \<^verbatim>\<open>runtime\<close>: the handlers of \<^verbatim>\<open>io_context_\<close> that wait, the one that runs, and the number of
  outstanding operations; whether \<^verbatim>\<open>work_guard_\<close> is held; whether the function of \<^verbatim>\<open>thread_\<close> has returned,
  and whether it was joined. Then what was posted, what has run, and what was posted too late.
\<close>

record 'h io_runtime =
  waiting_handlers :: "'h list"
  running_handler :: "'h option"
  outstanding_operations :: nat
  work_guard :: bool
  thread_returned :: bool
  thread_joined :: bool
  posted_handlers :: "'h list"
  finished_handlers :: "'h list"
  too_late :: "'h list"

definition new_runtime :: "'h io_runtime" where
  "new_runtime =
     \<lparr>waiting_handlers = [], running_handler = None, outstanding_operations = 0, work_guard = True,
      thread_returned = False, thread_joined = False, posted_handlers = [], finished_handlers = [], too_late = []\<rparr>"

definition runtime_post :: "'h \<Rightarrow> 'h io_runtime \<Rightarrow> 'h io_runtime" where
  "runtime_post h r =
     r\<lparr>waiting_handlers := waiting_handlers r @ [h], posted_handlers := posted_handlers r @ [h],
       too_late := (if thread_returned r then too_late r @ [h] else too_late r)\<rparr>"

definition has_work :: "'h io_runtime \<Rightarrow> bool" where
  "has_work r \<longleftrightarrow> waiting_handlers r \<noteq> [] \<or> running_handler r \<noteq> None \<or> outstanding_operations r > 0 \<or> work_guard r"

text \<open>\<^verbatim>\<open>~runtime\<close>: reset the guard, then wait for the thread, which is always joinable before that.\<close>

definition reset_work_guard :: "'h io_runtime \<Rightarrow> 'h io_runtime" where
  "reset_work_guard r = r\<lparr>work_guard := False\<rparr>"

definition join_may_return :: "'h io_runtime \<Rightarrow> bool" where
  "join_may_return r \<longleftrightarrow> \<not> work_guard r \<and> thread_returned r"

inductive io_runtime_step :: "'h io_runtime \<Rightarrow> 'h io_runtime \<Rightarrow> bool" where
  ir_post: "io_runtime_step r (runtime_post h r)"
| ir_operation: "io_runtime_step r (r\<lparr>outstanding_operations := Suc (outstanding_operations r)\<rparr>)"
| ir_complete: "outstanding_operations r = Suc n \<Longrightarrow> io_runtime_step r (runtime_post h (r\<lparr>outstanding_operations := n\<rparr>))"
| ir_begin: "\<not> thread_returned r \<Longrightarrow> running_handler r = None \<Longrightarrow> waiting_handlers r = h # hs \<Longrightarrow>
    io_runtime_step r (r\<lparr>waiting_handlers := hs, running_handler := Some h\<rparr>)"
| ir_end: "running_handler r = Some h \<Longrightarrow>
    io_runtime_step r (r\<lparr>running_handler := None, finished_handlers := finished_handlers r @ [h]\<rparr>)"
| ir_return: "\<not> thread_returned r \<Longrightarrow> \<not> has_work r \<Longrightarrow> io_runtime_step r (r\<lparr>thread_returned := True\<rparr>)"
| ir_reset: "io_runtime_step r (reset_work_guard r)"
| ir_join: "join_may_return r \<Longrightarrow> io_runtime_step r (r\<lparr>thread_joined := True\<rparr>)"

definition io_runtime_initial :: "'h io_runtime \<Rightarrow> bool" where
  "io_runtime_initial r \<longleftrightarrow> r = new_runtime"

definition io_runtime_inv :: "'h io_runtime \<Rightarrow> bool" where
  "io_runtime_inv r \<longleftrightarrow>
     posted_handlers r = finished_handlers r @ (case running_handler r of None \<Rightarrow> [] | Some h \<Rightarrow> [h]) @ waiting_handlers r \<and>
     (work_guard r \<longrightarrow> \<not> thread_returned r) \<and>
     (thread_returned r \<longrightarrow> running_handler r = None \<and> waiting_handlers r = too_late r) \<and>
     (\<not> thread_returned r \<longrightarrow> too_late r = []) \<and>
     (thread_joined r \<longrightarrow> thread_returned r \<and> \<not> work_guard r)"

lemma io_runtime_step_inv: "io_runtime_step r q \<Longrightarrow> io_runtime_inv r \<Longrightarrow> io_runtime_inv q"
  by (induction rule: io_runtime_step.induct)
     (auto simp: io_runtime_inv_def runtime_post_def has_work_def reset_work_guard_def join_may_return_def)

interpretation io_runtime_machine: event_machine io_runtime_initial io_runtime_step io_runtime_inv
proof unfold_locales
  show "io_runtime_inv r" if "io_runtime_initial r" for r :: "'a io_runtime"
    using that by (simp add: io_runtime_initial_def new_runtime_def io_runtime_inv_def)
  show "io_runtime_inv q" if "io_runtime_inv r" "io_runtime_step r q" for r q :: "'a io_runtime"
    using io_runtime_step_inv [OF that(2,1)] .
qed

section \<open>What it promises\<close>

text \<open>The I/O thread runs every handler once, in order. Whoever posts, from whatever thread, the
  handlers that have run, the running one and the waiting ones are those posted, in the order they
  were posted, one at a time. As long as the work guard is held the thread does not return, idle or
  not. When it has returned, it has left nothing behind but what was posted after that; and the
  destructor ends only when the thread has returned.\<close>

theorem io_thread_runs_all:
  assumes "reachable_from io_runtime_initial io_runtime_step r"
  shows "posted_handlers r = finished_handlers r @ (case running_handler r of None \<Rightarrow> [] | Some h \<Rightarrow> [h]) @ waiting_handlers r \<and>
    (work_guard r \<longrightarrow> \<not> thread_returned r) \<and>
    (thread_returned r \<longrightarrow> posted_handlers r = finished_handlers r @ too_late r) \<and>
    (thread_joined r \<longrightarrow> thread_returned r)"
  using io_runtime_machine.reachable_inv [OF assms] by (auto simp: io_runtime_inv_def)

lemma io_thread_runs_all_witness:
  "posted_handlers (runtime_post (1 :: nat) new_runtime) = [] @ [] @ [1] \<and>
   \<not> thread_returned (runtime_post (1 :: nat) new_runtime)"
proof -
  have "reachable_from io_runtime_initial io_runtime_step (runtime_post (1 :: nat) new_runtime)"
    by (rule reach_step [where s = new_runtime], rule reach_init)
       (simp_all add: io_runtime_initial_def ir_post)
  from io_thread_runs_all [OF this] show ?thesis
    by (simp add: runtime_post_def new_runtime_def)
qed

end
