(* ===== verification/Peer_Order.thy ===== *)
theory Peer_Order
  imports Peer_Properties "HOL-Library.Sublist"
begin

text \<open>
  What a connection makes of the frames its owner asks it to send, beside those it sends by itself (a
  heartbeat, the answer to a health check): it accepts them in the order it was asked, none twice and
  none left out, up to the end of the connection.
\<close>

section \<open>Frames asked for\<close>

definition automatic_frame :: "bytes \<Rightarrow> bool" where
  "automatic_frame f \<longleftrightarrow> f = make_heartbeat_frame \<or> f = make_health_check_response_frame"

definition owner_frames :: "bytes list \<Rightarrow> bytes list" where
  "owner_frames fs = filter (\<lambda>f. \<not> automatic_frame f) fs"

lemma owner_frames_simps [simp]:
  "owner_frames [] = []" "owner_frames (fs @ gs) = owner_frames fs @ owner_frames gs"
  "owner_frames [f] = (if automatic_frame f then [] else [f])"
  by (simp_all add: owner_frames_def)

fun pushed :: "handler \<Rightarrow> bytes list" where
  "pushed (Push_frame_task f) = [f]"
| "pushed _ = []"

text \<open>The frames accepted for the owner, and those whose handler is queued.\<close>

definition asked :: "peer \<Rightarrow> bytes list \<times> bytes list" where
  "asked p = (owner_frames (accepted_frames p), concat (map pushed (handlers p)))"

text \<open>
  \<open>r\<close> are the frames asked for so far: all are accepted or queued while the connection is open, and
  those accepted are an initial part of them in any case.
\<close>

definition accepts_in_order :: "bytes list \<Rightarrow> peer \<Rightarrow> bool" where
  "accepts_in_order r p \<longleftrightarrow>
     (if socket_open p then fst (asked p) @ snd (asked p) = r else prefix (fst (asked p)) r)"

section \<open>How the operations treat them\<close>

lemma asked_primitives [simp]:
  "asked (p\<lparr>armed := x1\<rparr>) = asked p" "asked (p\<lparr>expiry := x2\<rparr>) = asked p"
  "asked (p\<lparr>reading := x3\<rparr>) = asked p" "asked (p\<lparr>writing := x4\<rparr>) = asked p"
  "asked (p\<lparr>socket_open := x5\<rparr>) = asked p" "asked (p\<lparr>closed_on_executor := x6\<rparr>) = asked p"
  "asked (p\<lparr>ready := x7\<rparr>) = asked p" "asked (p\<lparr>close_after_write := x8\<rparr>) = asked p"
  "asked (p\<lparr>read_header_buffer := x9\<rparr>) = asked p" "asked (p\<lparr>read_body_buffer := x10\<rparr>) = asked p"
  "asked (p\<lparr>write_queue := x11, sent_frames := x12\<rparr>) = asked p"
  "asked (p\<lparr>completions := x13\<rparr>) = asked p" "asked (p\<lparr>undefined_behaviour := x14\<rparr>) = asked p"
  "asked (enqueue_signal s p) = asked p"
  "asked (post h p) = (fst (asked p), snd (asked p) @ pushed h)"
  by (simp_all add: asked_def enqueue_signal_def post_def)

lemma asked_io [simp]:
  "asked (cancel_timer t p) = asked p" "asked (expires_after t d p) = asked p"
  "asked (async_wait t p) = asked p" "asked (async_read r p) = asked p"
  "asked (async_write f p) = asked p" "asked (store_read r bs p) = asked p"
  by (simp_all add: cancel_timer_def expires_after_def async_wait_def async_read_def async_write_def
      store_read_def split: read_operation.split)

lemma asked_close [simp]: "asked (socket_close p) = asked p"
proof -
  have "concat (map pushed (map (\<lambda>r. Read_handler r ec n) rs)) = []"
    "concat (map pushed (map (\<lambda>_. Write_handler ec) fs)) = []" for ec n rs and fs :: "bytes list"
    by (induction rs; simp) (induction fs; simp)
  then show ?thesis by (simp add: asked_def socket_close_def)
qed

lemma asked_operations [simp]:
  "asked (close_socket p) = asked p" "asked (peer_close p) = asked p" "asked (handle_error ec p) = asked p"
  "asked (peer_write p) = asked p" "asked (start_heartbeat_timer p) = asked p"
  "asked (refresh_heartbeat_deadline p) = asked p" "asked (start_read_deadline p) = asked p"
  "asked (ensure_ready p) = asked p" "asked (start_ready_deadline p) = asked p"
  "asked (read_header p) = asked p" "asked (read_body p) = asked p"
  by (simp_all add: close_socket_def peer_close_def handle_error_def peer_write_def start_heartbeat_timer_def
      refresh_heartbeat_deadline_def start_read_deadline_def ensure_ready_def start_ready_deadline_def
      read_header_def read_body_def Let_def)

lemma asked_push:
  "asked (push_frame f p) =
     (if socket_open (push_frame f p) \<and> \<not> automatic_frame f
      then (fst (asked p) @ [f], snd (asked p)) else asked p)"
proof (cases "\<not> socket_open p \<or> \<not> valid_outgoing_frame (peer_options p) f \<or>
    vsize (write_queue p) \<ge> max_send_queue_size (peer_options p)")
  case True
  moreover have "\<not> socket_open (handle_error No_buffer_space p)"
    by (simp add: handle_error_def peer_close_def close_socket_def socket_close_def enqueue_signal_def Let_def)
  ultimately show ?thesis by (auto simp: push_frame_def)
next
  case False
  have "socket_open (peer_write q) = socket_open q" for q
    by (simp add: peer_write_def async_wait_def async_write_def post_def Let_def)
  moreover have "asked (p\<lparr>write_queue := q, accepted_frames := accepted_frames p @ [f]\<rparr>) =
      (if automatic_frame f then asked p else (fst (asked p) @ [f], snd (asked p)))" for q
    by (simp add: asked_def)
  ultimately show ?thesis using False
    by (simp add: push_frame_def Let_def)
qed

lemma asked_automatic [simp]: "automatic_frame f \<Longrightarrow> asked (push_frame f p) = asked p"
  by (simp add: asked_push)

lemma automatic_frames [simp]:
  "automatic_frame make_heartbeat_frame" "automatic_frame make_health_check_response_frame"
  by (simp_all add: automatic_frame_def)

lemma asked_dispatch [simp]: "asked (fst (dispatch_body p)) = asked p"
  by (simp add: dispatch_body_def handle_user_data_def handle_request_response_def handle_health_check_def
      Let_def split: list.split option.split message_type.split)

lemma asked_read_body: "asked (read_body_handler ec n p) = asked p"
proof -
  obtain q b where d: "dispatch_body (refresh_heartbeat_deadline (cancel_timer Read_deadline p)) = (q, b)"
    by (cases "dispatch_body (refresh_heartbeat_deadline (cancel_timer Read_deadline p))")
  have "asked q = asked p"
    using asked_dispatch [of "refresh_heartbeat_deadline (cancel_timer Read_deadline p)"] d by simp
  then show ?thesis by (simp add: read_body_handler_def Let_def d)
qed

lemma asked_handler:
  assumes "pushed h = []"
  shows "asked (run_handler h p) = asked p"
  using assms
proof (cases "(h, p)" rule: run_handler.cases)
  case (4 t ec q)
  then show ?thesis
    by (cases t) (simp_all add: ready_deadline_handler_def heartbeat_timer_handler_def deadline_handler_def)
qed (auto simp: start_task_def close_task_def read_header_handler_def asked_read_body write_handler_def Let_def
    split: option.split list.split)

section \<open>The order is kept\<close>

text \<open>Whatever keeps what was asked keeps the order, as a closed connection stays closed.\<close>

lemma accepts_same:
  assumes "accepts_in_order r p" and "asked q = asked p" and "socket_open q \<Longrightarrow> socket_open p"
  shows "accepts_in_order r q"
  using assms by (cases "socket_open p") (auto simp: accepts_in_order_def prefix_def split: if_splits)

lemma accepts_prefix: "accepts_in_order r p \<Longrightarrow> prefix (fst (asked p)) r"
  by (cases "socket_open p") (auto simp: accepts_in_order_def intro: prefixI [OF sym])

lemma accepts_asked:
  assumes "accepts_in_order r p"
  shows "accepts_in_order (r @ [f]) (async_push_frame f p)"
proof -
  have "asked (async_push_frame f p) = (fst (asked p), snd (asked p) @ [f])"
    by (simp add: async_push_frame_def)
  moreover have "socket_open (async_push_frame f p) = socket_open p"
    by (simp add: async_push_frame_def post_def)
  ultimately show ?thesis using assms by (auto simp: accepts_in_order_def split: if_splits)
qed

lemma accepts_handler:
  assumes "accepts_in_order r p" and h: "handlers p = h # hs" and owned: "\<forall>f \<in> set r. \<not> automatic_frame f"
  shows "accepts_in_order r (run_handler h (p\<lparr>handlers := hs\<rparr>))" (is "accepts_in_order r ?q")
proof -
  have still: "socket_open p" if "socket_open ?q"
    using conn_runs_closed [OF conn_runs_handler [of "p\<lparr>handlers := hs\<rparr>" h]] that by auto
  have a: "asked (p\<lparr>handlers := hs\<rparr>) = (fst (asked p), concat (map pushed hs))"
      "snd (asked p) = pushed h @ concat (map pushed hs)"
    using h by (simp_all add: asked_def)
  show ?thesis
  proof (cases "pushed h")
    case Nil
    have "asked ?q = asked (p\<lparr>handlers := hs\<rparr>)" by (rule asked_handler [OF Nil])
    also have "\<dots> = asked p" using a Nil by (metis append_Nil prod.collapse)
    finally show ?thesis by (rule accepts_same [OF assms(1) _ still])
  next
    case (Cons f fs)
    then have f: "h = Push_frame_task f" by (cases h rule: pushed.cases) simp_all
    show ?thesis
    proof (cases "socket_open ?q")
      case True
      then have r: "r = fst (asked p) @ f # concat (map pushed hs)"
        using assms(1) still a f by (simp add: accepts_in_order_def)
      then have "\<not> automatic_frame f" using owned by simp
      then show ?thesis
        using True r f a by (simp add: accepts_in_order_def asked_push)
    next
      case False
      then have "fst (asked ?q) = fst (asked p)"
        using f a by (simp add: asked_push)
      then show ?thesis
        using assms(1) False by (auto simp: accepts_in_order_def split: if_splits)
    qed
  qed
qed

lemma open_same:
  "socket_open (post h p) = socket_open p" "socket_open (store_read r bs p) = socket_open p"
  by (simp_all add: post_def store_read_def split: read_operation.split)

text \<open>Every step of a connection that is not a call of its owner keeps the order.\<close>

lemma accepts_step:
  assumes "peer_step p q" and "accepts_in_order r p" and "\<forall>f \<in> set r. \<not> automatic_frame f"
    and "\<forall>f. q \<noteq> async_push_frame f p"
  shows "accepts_in_order r q"
  using assms
proof (induction rule: peer_step.induct)
  case (ps_run p h hs)
  then show ?case by (intro accepts_handler)
next
  case (ps_timer p t)
  then show ?case by (auto simp: expire_timer_def intro: accepts_same)
next
  case (ps_read_full p x rs bs)
  have "socket_open (complete_read bs p) = socket_open p"
    by (simp add: complete_read_def store_read_def post_def ps_read_full(1) split: read_operation.split)
  then show ?case
    by (intro accepts_same [OF ps_read_full(3)]) (simp_all add: complete_read_def ps_read_full(1))
next
  case (ps_read_some p x rs bs)
  then show ?case
    by (intro accepts_same [OF ps_read_some(3)]) (simp_all add: open_same)
next
  case (ps_read_error p x rs bs ec)
  then show ?case
    by (intro accepts_same [OF ps_read_error(4)]) (simp_all add: open_same)
next
  case (ps_write_some p f fs)
  then show ?case by (intro accepts_same [OF ps_write_some(2)]) (simp_all add: open_same)
next
  case (ps_write_done p f fs)
  then show ?case by (intro accepts_same [OF ps_write_done(2)]) (simp_all add: open_same)
next
  case (ps_write_error p f fs ec)
  then show ?case by (intro accepts_same [OF ps_write_error(3)]) (simp_all add: open_same)
next
  case (ps_push p frame)
  then show ?case by blast
next
  case (ps_close p c)
  then show ?case by (intro accepts_same [OF ps_close(1)]) (simp_all add: async_close_def open_same)
qed

lemma accepts_close: "accepts_in_order r p \<Longrightarrow> accepts_in_order r (async_close c p)"
  by (rule accepts_same [of r p]) (simp_all add: async_close_def open_same)

text \<open>The frames of messages, requests and health checks are no automatic ones: their type differs.\<close>

lemma frame_types:
  "make_heartbeat_frame ! 4 = to_underlying heartbeat"
  "make_health_check_response_frame ! 4 = to_underlying health_check_response"
  "make_user_data_frame data ! 4 = to_underlying user_data"
  "make_request_frame rid data ! 4 = to_underlying request"
  "make_response_frame rid data ! 4 = to_underlying response"
  "make_health_check_frame ! 4 = to_underlying health_check"
  by (simp_all add: make_heartbeat_frame_def make_health_check_response_frame_def make_user_data_frame_def
      make_request_frame_def make_response_frame_def make_health_check_frame_def make_frame_def
      make_request_response_frame_def encode_uint32_def nth_append Let_def)

lemma message_frames_owned:
  "\<not> automatic_frame (make_user_data_frame data)" "\<not> automatic_frame (make_request_frame rid data)"
  "\<not> automatic_frame (make_response_frame rid data)" "\<not> automatic_frame make_health_check_frame"
proof -
  have "to_underlying t \<noteq> to_underlying heartbeat \<and> to_underlying t \<noteq> to_underlying health_check_response"
    if "t \<in> {user_data, request, response, health_check}" for t
    using that by (auto simp: to_underlying_def)
  then show "\<not> automatic_frame (make_user_data_frame data)" "\<not> automatic_frame (make_request_frame rid data)"
    "\<not> automatic_frame (make_response_frame rid data)" "\<not> automatic_frame make_health_check_frame"
    unfolding automatic_frame_def by (metis frame_types insertCI)+
qed

end
