(* ===== verification/Composition.thy ===== *)
theory Composition
  imports Peer_Order
begin

text \<open>
  An owner of connections (the client, the server) together with the connections it owns. The models
  of the owners see a connection through its contract only: a reference, the calls made on it and
  the signals it announces, whatever and whenever the contract allows. Here the references are bound
  to modelled peers: the owner's calls are performed on them, and nothing is announced but what they
  announce. The composed machine is a run of the owner's machine and of each peer's machine, so what
  was proved of either holds of the composition.
\<close>

section \<open>The composed machine\<close>

text \<open>
  What an owner's state tells about its connections: how an announcement and the destruction of a
  connection change it, the references in use, those that may still announce \<open>closed\<close> and \<open>ready\<close>,
  whether the owner holds a reference, the calls it has made, which of them starts a connection, what
  a call does to a peer and which frames it asks it to send, and the options of new connections.
\<close>

record ('s, 'c) connection_owner =
  announce :: "nat \<Rightarrow> peer_signal \<Rightarrow> 's \<Rightarrow> 's"
  destroy :: "nat \<Rightarrow> 's \<Rightarrow> 's"
  knows :: "'s \<Rightarrow> nat \<Rightarrow> bool"
  may_close :: "'s \<Rightarrow> nat set"
  may_ready :: "'s \<Rightarrow> nat set"
  holds_ref :: "'s \<Rightarrow> nat \<Rightarrow> bool"
  calls_made :: "'s \<Rightarrow> (nat \<times> 'c) list"
  starts :: "'c \<Rightarrow> bool"
  perform :: "'c \<Rightarrow> peer \<Rightarrow> peer"
  call_frames :: "'c \<Rightarrow> bytes list"
  connection_options :: "'s \<Rightarrow> common_parameters"

record 's composed =
  owner :: 's
  connections :: "nat \<Rightarrow> peer option"

fun announce_all :: "('s, 'c) connection_owner \<Rightarrow> nat \<Rightarrow> peer_signal list \<Rightarrow> 's \<Rightarrow> 's" where
  "announce_all ops p [] s = s"
| "announce_all ops p (sig # sigs) s = announce_all ops p sigs (announce ops p sig s)"

text \<open>The calls among \<open>cs\<close> on one connection, and the calls that a step of the owner made.\<close>

definition calls_on :: "nat \<Rightarrow> (nat \<times> 'c) list \<Rightarrow> 'c list" where
  "calls_on p cs = map snd (filter (\<lambda>x. fst x = p) cs)"

definition new_calls :: "('s, 'c) connection_owner \<Rightarrow> 's \<Rightarrow> 's \<Rightarrow> (nat \<times> 'c) list" where
  "new_calls ops s t = drop (length (calls_made ops s)) (calls_made ops t)"

text \<open>The frames that the owner has asked a connection to send.\<close>

definition frames_asked :: "('s, 'c) connection_owner \<Rightarrow> 's \<Rightarrow> nat \<Rightarrow> bytes list" where
  "frames_asked ops s p = concat (map (call_frames ops) (calls_on p (calls_made ops s)))"

text \<open>A step of the owner creates connections and performs its calls.\<close>

definition owner_effect ::
    "('s, 'c) connection_owner \<Rightarrow> 's \<Rightarrow> 's \<Rightarrow> (nat \<Rightarrow> peer option) \<Rightarrow> nat \<Rightarrow> peer option" where
  "owner_effect ops s t conns p =
     map_option (fold (perform ops) (calls_on p (new_calls ops s t)))
       (if knows ops t p \<and> \<not> knows ops s p then Some (new_peer (connection_options ops t)) else conns p)"

text \<open>No handler and no outstanding operation holds the connection.\<close>

definition unreferenced :: "peer \<Rightarrow> bool" where
  "unreferenced pr \<longleftrightarrow> handlers pr = [] \<and> reading pr = [] \<and> writing pr = [] \<and> (\<forall>t. \<not> armed pr t)"

text \<open>The public operations of a peer, which only its owner calls.\<close>

definition peer_called :: "peer \<Rightarrow> peer \<Rightarrow> bool" where
  "peer_called p q \<longleftrightarrow> (\<exists>f. q = async_push_frame f p) \<or> (\<exists>c. q = async_close c p)"

text \<open>
  The owner makes a step of its own: no announcement, and no destruction of a connection that could
  still announce. Or a connection makes a step of its own, and what it announces reaches the owner.
  Or a connection that neither the owner nor a handler holds is destroyed.
\<close>

inductive composed_step ::
    "('s, 'c) connection_owner \<Rightarrow> ('s \<Rightarrow> 's \<Rightarrow> bool) \<Rightarrow> 's composed \<Rightarrow> 's composed \<Rightarrow> bool"
  for ops :: "('s, 'c) connection_owner" and step :: "'s \<Rightarrow> 's \<Rightarrow> bool" where
  co_owner: "step (owner c) t \<Longrightarrow> \<forall>p sig. t \<noteq> announce ops p sig (owner c) \<Longrightarrow>
    may_close ops (owner c) \<subseteq> may_close ops t \<Longrightarrow> may_ready ops (owner c) \<subseteq> may_ready ops t \<Longrightarrow>
    composed_step ops step c
      \<lparr>owner = t, connections = owner_effect ops (owner c) t (connections c)\<rparr>"
| co_connection: "connections c p = Some pr \<Longrightarrow> peer_step pr pr' \<Longrightarrow> \<not> peer_called pr pr' \<Longrightarrow>
    composed_step ops step c
      \<lparr>owner = announce_all ops p (drop (length (signals pr)) (signals pr')) (owner c),
       connections = (connections c)(p \<mapsto> pr')\<rparr>"
| co_destroy: "connections c p = Some pr \<Longrightarrow> \<not> holds_ref ops (owner c) p \<Longrightarrow> unreferenced pr \<Longrightarrow>
    composed_step ops step c
      \<lparr>owner = destroy ops p (owner c), connections = (connections c)(p := None)\<rparr>"

definition composed_initial :: "('s \<Rightarrow> bool) \<Rightarrow> 's composed \<Rightarrow> bool" where
  "composed_initial init c \<longleftrightarrow> init (owner c) \<and> connections c = (\<lambda>_. None)"

section \<open>What a peer announces\<close>

lemma connection_log_grows:
  "connection_step\<^sup>*\<^sup>* c d \<Longrightarrow> \<exists>sigs. conn_log d = conn_log c @ sigs"
proof (induction rule: rtranclp_induct)
  case (step d e)
  from step(2) have "\<exists>sigs. conn_log e = conn_log d @ sigs"
    by (induction rule: connection_step.induct) auto
  with step(3) show ?case by auto
qed simp

lemma peer_step_signals:
  assumes "peer_step p q"
  obtains sigs where "signals q = signals p @ sigs"
  using connection_log_grows [OF conn_runs_step [OF assms]] by (auto simp: connection_of_def)

lemma announced_once:
  assumes "reachable_peer p"
  shows "count_list (signals p) Sig_closed = (if socket_open p then 0 else 1)"
    "count_list (signals p) Sig_ready \<le> 1" "destructor_aborts p = socket_open p"
proof -
  have "connection_inv (connection_of p)"
    using peer_refines.abstract_reachable [OF assms] by (rule connection_machine.reachable_inv)
  then show "count_list (signals p) Sig_closed = (if socket_open p then 0 else 1)"
    "count_list (signals p) Sig_ready \<le> 1"
    by (simp_all add: connection_inv_def connection_of_def split: if_splits)
  show "destructor_aborts p = socket_open p"
    using reachable_peer_facts(2) [OF assms] by (simp add: data_inv_def destructor_aborts_def)
qed

text \<open>An open connection is always held by its outstanding operations: it is never destroyed open.\<close>

lemma unreferenced_closed:
  assumes "reachable_peer p" and "unreferenced p"
  shows "\<not> socket_open p"
proof
  assume "socket_open p"
  then have "(close_after_write p \<or> read_tokens p = 1) \<and> (write_queue p = [] \<or> write_tokens p = 1) \<and>
      (close_after_write p \<longrightarrow> write_queue p \<noteq> [])"
    using reachable_peer_facts(1) [OF assms(1)] by (auto simp: token_inv_def)
  then have "read_tokens p = 1 \<or> write_tokens p = 1" by blast
  then show False
    using assms(2) by (auto simp: unreferenced_def token_defs)
qed

text \<open>
  An open connection is watched: the timers it needs are pending, and a deadline that expires, or has
  expired, ends in \<open>closed\<close> within the handlers queued so far.
\<close>

definition connection_watched :: "peer \<Rightarrow> bool" where
  "connection_watched p \<longleftrightarrow>
     socket_open p \<and> (\<forall>t. timer_needed t p \<longrightarrow> timer_pending p t) \<and>
     (\<forall>t. is_deadline t \<and> armed p t \<longrightarrow>
        Sig_closed \<in> set (signals (run_queued (Suc (length (handlers p))) (expire_timer t p)))) \<and>
     (\<forall>t. is_deadline t \<and> Timer_handler t No_error \<in> set (handlers p) \<longrightarrow>
        Sig_closed \<in> set (signals (run_queued (length (handlers p)) p)))"

lemma announced_closed: "reachable_peer p \<Longrightarrow> \<not> socket_open p \<Longrightarrow> Sig_closed \<in> set (signals p)"
  using announced_once(1) [of p] count_list_0_iff [of "signals p" Sig_closed] by simp

lemma open_watched:
  assumes "reachable_peer p" and "socket_open p"
  shows "connection_watched p"
proof -
  have "Sig_closed \<in> set (signals (run_queued (Suc (length (handlers p))) (expire_timer t p)))"
    if "is_deadline t" "armed p t" for t
  proof (rule announced_closed)
    have "peer_step\<^sup>*\<^sup>* p (run_queued (Suc (length (handlers p))) (expire_timer t p))"
      by (rule rtranclp_trans [OF expire_steps [OF that(2)] run_queued_steps])
    then show "reachable_peer (run_queued (Suc (length (handlers p))) (expire_timer t p))"
      using assms(1) by (rule full_peer.reachable_steps)
    show "\<not> socket_open (run_queued (Suc (length (handlers p))) (expire_timer t p))"
      by (rule deadline_queued_closes [of _ "handlers p" t "[]"])
         (simp_all add: expire_timer_def post_def that(1))
  qed
  moreover have "Sig_closed \<in> set (signals (run_queued (length (handlers p)) p))"
    if t: "is_deadline t" "Timer_handler t No_error \<in> set (handlers p)" for t
  proof (rule announced_closed)
    show "reachable_peer (run_queued (length (handlers p)) p)"
      using run_queued_steps assms(1) by (rule full_peer.reachable_steps)
    obtain pre suf where "handlers p = pre @ Timer_handler t No_error # suf"
      using split_list [OF t(2)] by blast
    then show "\<not> socket_open (run_queued (length (handlers p)) p)"
      by (intro deadline_queued_closes [of _ pre t suf] t(1)) simp_all
  qed
  ultimately show ?thesis
    using reachable_peer_facts(3) [OF assms(1)] assms(2)
    unfolding connection_watched_def deadlines_ok_def by blast
qed

text \<open>
  The invariant of the composition: each connection is a reachable state of the peer's machine, and
  what it has not announced yet it may announce, and only that.
\<close>

definition connection_ok :: "('s, 'c) connection_owner \<Rightarrow> 's composed \<Rightarrow> nat \<Rightarrow> bool" where
  "connection_ok ops c p \<longleftrightarrow>
     (\<forall>pr. connections c p = Some pr \<longrightarrow>
        knows ops (owner c) p \<and> reachable_peer pr \<and>
        (Sig_closed \<in> set (signals pr) \<longleftrightarrow> p \<notin> may_close ops (owner c)) \<and>
        (Sig_ready \<in> set (signals pr) \<or> p \<in> may_ready ops (owner c)) \<and>
        accepts_in_order (frames_asked ops (owner c) p) pr) \<and>
     (\<not> knows ops (owner c) p \<longrightarrow> calls_on p (calls_made ops (owner c)) = []) \<and>
     (p \<in> may_close ops (owner c) \<or> holds_ref ops (owner c) p \<longrightarrow> connections c p \<noteq> None)"

definition composed_inv :: "('s, 'c) connection_owner \<Rightarrow> ('s \<Rightarrow> bool) \<Rightarrow> 's composed \<Rightarrow> bool" where
  "composed_inv ops own_inv c \<longleftrightarrow> own_inv (owner c) \<and> (\<forall>p. connection_ok ops c p)"

section \<open>The interface of an owner\<close>

text \<open>
  The laws of an owner, under its invariant: announcements and destructions that the contract allows
  are steps of its machine, with their effect on what may still be announced; and a step either makes
  calls on known connections only, none of them a start, or creates one connection, and its first
  call starts it.
\<close>

definition starts_none :: "('s, 'c) connection_owner \<Rightarrow> (nat \<times> 'c) list \<Rightarrow> bool" where
  "starts_none ops cs \<longleftrightarrow> (\<forall>x \<in> set cs. \<not> starts ops (snd x))"

definition calls_known :: "('s, 'c) connection_owner \<Rightarrow> 's \<Rightarrow> 's \<Rightarrow> bool" where
  "calls_known ops s t \<longleftrightarrow>
     (\<exists>cs. calls_made ops t = calls_made ops s @ cs \<and> starts_none ops cs \<and>
        (\<forall>x \<in> set cs. holds_ref ops s (fst x))) \<and>
     knows ops t = knows ops s \<and>
     may_close ops t \<subseteq> may_close ops s \<and> (\<forall>p. holds_ref ops t p \<longrightarrow> holds_ref ops s p)"

definition calls_created :: "('s, 'c) connection_owner \<Rightarrow> 's \<Rightarrow> 's \<Rightarrow> bool" where
  "calls_created ops s t \<longleftrightarrow>
     (\<exists>p c cs. calls_made ops t = calls_made ops s @ (p, c) # cs \<and> starts ops c \<and> starts_none ops cs \<and>
        (\<forall>x \<in> set cs. fst x = p) \<and>
        \<not> knows ops s p \<and> knows ops t = (knows ops s)(p := True) \<and>
        may_close ops t = insert p (may_close ops s) \<and> p \<in> may_ready ops t \<and>
        (\<forall>q. holds_ref ops t q \<longrightarrow> q = p \<or> holds_ref ops s q))"

lemma calls_known_trans:
  assumes "calls_known ops s t" and "calls_known ops t u"
  shows "calls_known ops s u"
proof -
  obtain cs ds where "calls_made ops t = calls_made ops s @ cs" "starts_none ops cs"
      "\<forall>x \<in> set cs. holds_ref ops s (fst x)" "\<forall>x \<in> set ds. holds_ref ops t (fst x)"
      "calls_made ops u = calls_made ops t @ ds" "starts_none ops ds"
    using assms by (auto simp: calls_known_def)
  then have "calls_made ops u = calls_made ops s @ (cs @ ds)" "starts_none ops (cs @ ds)"
      "\<forall>x \<in> set (cs @ ds). holds_ref ops s (fst x)"
    using assms(1) by (auto simp: starts_none_def calls_known_def)
  then show ?thesis
    using assms unfolding calls_known_def by (metis order_trans)
qed

locale connection_system = event_machine init step inv
  for init :: "'s \<Rightarrow> bool" and step :: "'s \<Rightarrow> 's \<Rightarrow> bool" and inv :: "'s \<Rightarrow> bool" +
  fixes ops :: "('s, 'c) connection_owner"
  assumes announce_step: "knows ops s p \<Longrightarrow> (sig = Sig_closed \<Longrightarrow> p \<in> may_close ops s) \<Longrightarrow>
      (sig = Sig_ready \<Longrightarrow> p \<in> may_ready ops s) \<Longrightarrow> step s (announce ops p sig s)"
    and announce_knows: "knows ops (announce ops p sig s) = knows ops s"
    and announce_holds: "holds_ref ops (announce ops p sig s) q = holds_ref ops s q"
    and announce_close: "may_close ops (announce ops p sig s) =
      (if sig = Sig_closed then may_close ops s - {p} else may_close ops s)"
    and announce_ready: "may_ready ops s - (if sig = Sig_ready then {p} else {}) \<subseteq>
      may_ready ops (announce ops p sig s)"
    and destroy_step: "\<not> holds_ref ops s p \<Longrightarrow> step s (destroy ops p s)"
    and destroy_knows: "knows ops (destroy ops p s) = knows ops s"
    and destroy_holds: "holds_ref ops (destroy ops p s) q = holds_ref ops s q"
    and destroy_close: "may_close ops (destroy ops p s) = may_close ops s - {p}"
    and destroy_ready: "may_ready ops s - {p} \<subseteq> may_ready ops (destroy ops p s)"
    and step_calls: "inv s \<Longrightarrow> step s t \<Longrightarrow> \<forall>p sig. t \<noteq> announce ops p sig s \<Longrightarrow>
      calls_known ops s t \<or> calls_created ops s t"
    and announce_calls: "calls_made ops (announce ops p sig s) = calls_made ops s"
    and destroy_calls: "calls_made ops (destroy ops p s) = calls_made ops s"
    and init_calls: "init s \<Longrightarrow> calls_made ops s = []"
    and init_knows: "init s \<Longrightarrow> \<not> knows ops s p"
    and init_holds: "init s \<Longrightarrow> \<not> holds_ref ops s p"
    and init_close: "init s \<Longrightarrow> may_close ops s = {}"
    and starts_perform: "starts ops c \<Longrightarrow> perform ops c pr = async_start pr"
    and other_perform: "\<not> starts ops c \<Longrightarrow> peer_step pr (perform ops c pr)"
    and starts_frames: "starts ops c \<Longrightarrow> call_frames ops c = []"
    and perform_order: "\<not> starts ops c \<Longrightarrow> accepts_in_order r pr \<Longrightarrow>
      accepts_in_order (r @ call_frames ops c) (perform ops c pr)"
    and owner_frames: "f \<in> set (call_frames ops c) \<Longrightarrow> \<not> automatic_frame f"
    and perform_signals: "signals (perform ops c pr) = signals pr"
begin

lemma announce_all_runs:
  assumes "knows ops s p" and "count_list sigs Sig_closed \<le> (if p \<in> may_close ops s then 1 else 0)"
    and "count_list sigs Sig_ready \<le> (if p \<in> may_ready ops s then 1 else 0)"
  shows "step\<^sup>*\<^sup>* s (announce_all ops p sigs s) \<and> knows ops (announce_all ops p sigs s) = knows ops s \<and>
    may_close ops (announce_all ops p sigs s) =
      may_close ops s - (if Sig_closed \<in> set sigs then {p} else {}) \<and>
    (\<forall>q. holds_ref ops (announce_all ops p sigs s) q = holds_ref ops s q) \<and>
    calls_made ops (announce_all ops p sigs s) = calls_made ops s \<and>
    may_ready ops s - (if Sig_ready \<in> set sigs then {p} else {}) \<subseteq> may_ready ops (announce_all ops p sigs s)"
  using assms
proof (induction sigs arbitrary: s)
  case (Cons sig sigs)
  let ?s = "announce ops p sig s"
  have "step s ?s"
    using Cons.prems by (intro announce_step) (auto split: if_splits)
  moreover have "knows ops ?s p" using Cons.prems(1) by (simp add: announce_knows)
  moreover have "count_list sigs Sig_closed \<le> (if p \<in> may_close ops ?s then 1 else 0)"
    using Cons.prems(2) by (auto simp: announce_close split: if_splits)
  moreover have "count_list sigs Sig_ready \<le> (if p \<in> may_ready ops ?s then 1 else 0)"
    using Cons.prems(3) announce_ready [of s sig p] by (auto split: if_splits)
  ultimately show ?case
    using Cons.IH [of ?s] announce_ready [of s sig p]
    by (auto simp: announce_knows announce_close announce_holds announce_calls split: if_splits intro: converse_rtranclp_into_rtranclp)
qed simp

lemma perform_all:
  "starts_none ops cs \<Longrightarrow> reachable_peer pr \<Longrightarrow>
     reachable_peer (fold (perform ops) (calls_on p cs) pr) \<and>
     signals (fold (perform ops) (calls_on p cs) pr) = signals pr \<and>
     (accepts_in_order r pr \<longrightarrow>
        accepts_in_order (r @ concat (map (call_frames ops) (calls_on p cs)))
          (fold (perform ops) (calls_on p cs) pr))"
proof (induction cs arbitrary: pr r)
  case (Cons x cs)
  then have "reachable_peer (perform ops (snd x) pr)"
      "accepts_in_order r pr \<longrightarrow> accepts_in_order (r @ call_frames ops (snd x)) (perform ops (snd x) pr)"
    by (auto simp: starts_none_def intro: reach_step other_perform perform_order)
  then show ?case
    using Cons.IH [of "perform ops (snd x) pr" "r @ call_frames ops (snd x)"] Cons.IH [of pr r] Cons.prems
    by (auto simp: calls_on_def starts_none_def perform_signals)
qed (simp add: calls_on_def)

text \<open>A new connection, as its creator starts it.\<close>

lemma perform_created:
  assumes "starts ops c" and "starts_none ops cs"
  shows "reachable_peer (fold (perform ops) (calls_on p ((p, c) # cs)) (new_peer options)) \<and>
    signals (fold (perform ops) (calls_on p ((p, c) # cs)) (new_peer options)) = [] \<and>
    accepts_in_order (concat (map (call_frames ops) (calls_on p ((p, c) # cs))))
      (fold (perform ops) (calls_on p ((p, c) # cs)) (new_peer options))"
proof -
  have "reachable_peer (perform ops c (new_peer options))"
    using starts_perform [OF assms(1)] by (auto simp: peer_started_def intro!: reach_init)
  moreover have "accepts_in_order [] (perform ops c (new_peer options))"
    using starts_perform [OF assms(1)]
    by (simp add: accepts_in_order_def asked_def async_start_def post_def new_peer_def)
  ultimately show ?thesis
    using perform_all [OF assms(2), of "perform ops c (new_peer options)" p "[]"] starts_frames [OF assms(1)]
    by (simp add: calls_on_def perform_signals new_peer_def)
qed

lemma owner_step_ok:
  assumes "own_inv (owner c)" and ok: "connection_ok ops c p" and "step (owner c) t"
    and "calls_known ops (owner c) t \<or> calls_created ops (owner c) t"
    and "may_close ops (owner c) \<subseteq> may_close ops t" and "may_ready ops (owner c) \<subseteq> may_ready ops t"
  shows "connection_ok ops \<lparr>owner = t, connections = owner_effect ops (owner c) t (connections c)\<rparr> p"
  using assms(4)
proof
  assume "calls_known ops (owner c) t"
  then obtain cs where cs: "new_calls ops (owner c) t = cs" "starts_none ops cs"
      "calls_made ops t = calls_made ops (owner c) @ cs" "\<forall>x \<in> set cs. holds_ref ops (owner c) (fst x)"
      "knows ops t = knows ops (owner c)" "may_close ops t = may_close ops (owner c)"
      "\<And>q. holds_ref ops t q \<Longrightarrow> holds_ref ops (owner c) q"
    using assms(5) by (auto simp: calls_known_def new_calls_def)
  have calls: "calls_on p (calls_made ops t) = calls_on p (calls_made ops (owner c)) @ calls_on p cs"
    by (simp add: cs(3) calls_on_def)
  show ?thesis
  proof (cases "connections c p")
    case None
    then have "\<not> holds_ref ops (owner c) p" using ok by (auto simp: connection_ok_def)
    then have "calls_on p cs = []" using cs(4) by (force simp: calls_on_def filter_empty_conv)
    with None show ?thesis
      using ok cs calls by (auto simp: connection_ok_def owner_effect_def)
  next
    case (Some pr)
    then show ?thesis
      using ok assms(6) cs calls perform_all [OF cs(2), of pr p "frames_asked ops (owner c) p"]
      by (auto simp: connection_ok_def owner_effect_def frames_asked_def)
  qed
next
  assume "calls_created ops (owner c) t"
  then obtain q a cs where cs: "new_calls ops (owner c) t = (q, a) # cs" "starts ops a" "starts_none ops cs"
      "\<forall>x \<in> set cs. fst x = q" "calls_made ops t = calls_made ops (owner c) @ (q, a) # cs"
      "\<not> knows ops (owner c) q" "knows ops t = (knows ops (owner c))(q := True)"
      "may_close ops t = insert q (may_close ops (owner c))" "q \<in> may_ready ops t"
      "\<And>r. holds_ref ops t r \<Longrightarrow> r = q \<or> holds_ref ops (owner c) r"
    by (auto simp: calls_created_def new_calls_def)
  have calls: "calls_on p (calls_made ops t) =
      calls_on p (calls_made ops (owner c)) @ calls_on p ((q, a) # cs)"
    by (simp add: cs(5) calls_on_def)
  show ?thesis
  proof (cases "p = q")
    case True
    then have "calls_on p (calls_made ops (owner c)) = []" using ok cs(6) by (simp add: connection_ok_def)
    then show ?thesis
      using True cs calls perform_created [OF cs(2,3), of q]
      by (auto simp: connection_ok_def owner_effect_def frames_asked_def)
  next
    case False
    then have "calls_on p ((q, a) # cs) = []" using cs(4) by (auto simp: calls_on_def filter_empty_conv)
    then show ?thesis
      using ok False cs assms(6) calls
      by (cases "connections c p") (auto simp: connection_ok_def owner_effect_def frames_asked_def)
  qed
qed

text \<open>What a connection announces in one step, it may announce.\<close>

lemma connection_announces:
  assumes "connection_ok ops c p" and "connections c p = Some pr" and "peer_step pr pr'"
  obtains sigs where "signals pr' = signals pr @ sigs" "reachable_peer pr'" "knows ops (owner c) p"
    "count_list sigs Sig_closed \<le> (if p \<in> may_close ops (owner c) then 1 else 0)"
    "count_list sigs Sig_ready \<le> (if p \<in> may_ready ops (owner c) then 1 else 0)"
proof -
  obtain sigs where sigs: "signals pr' = signals pr @ sigs" using peer_step_signals [OF assms(3)] .
  have ok: "knows ops (owner c) p" "reachable_peer pr"
      "Sig_closed \<in> set (signals pr) \<longleftrightarrow> p \<notin> may_close ops (owner c)"
      "Sig_ready \<in> set (signals pr) \<or> p \<in> may_ready ops (owner c)"
    using assms(1,2) by (auto simp: connection_ok_def)
  have r: "reachable_peer pr'" using ok(2) assms(3) by (rule reach_step)
  have "count_list (signals pr) Sig_closed + count_list sigs Sig_closed \<le> 1"
      "count_list (signals pr) Sig_ready + count_list sigs Sig_ready \<le> 1"
    using announced_once(1,2) [OF r] sigs by (auto split: if_splits)
  then have "count_list sigs Sig_closed \<le> (if p \<in> may_close ops (owner c) then 1 else 0)"
      "count_list sigs Sig_ready \<le> (if p \<in> may_ready ops (owner c) then 1 else 0)"
    using ok(3,4) count_list_0_iff [of "signals pr" Sig_closed] count_list_0_iff [of "signals pr" Sig_ready]
    by auto
  with that sigs r ok(1) show thesis by blast
qed

lemma connection_step_ok:
  assumes "composed_inv ops inv c" and "connections c p = Some pr" and "peer_step pr pr'"
    and "\<not> peer_called pr pr'"
  defines "s \<equiv> announce_all ops p (drop (length (signals pr)) (signals pr')) (owner c)"
  shows "composed_inv ops inv \<lparr>owner = s, connections = (connections c)(p \<mapsto> pr')\<rparr> \<and>
    step\<^sup>*\<^sup>* (owner c) s"
proof -
  have inv: "inv (owner c)" "\<And>q. connection_ok ops c q"
    using assms(1) by (simp_all add: composed_inv_def)
  obtain sigs where sigs: "signals pr' = signals pr @ sigs" and r: "reachable_peer pr'"
    and knows: "knows ops (owner c) p"
    and counts: "count_list sigs Sig_closed \<le> (if p \<in> may_close ops (owner c) then 1 else 0)"
      "count_list sigs Sig_ready \<le> (if p \<in> may_ready ops (owner c) then 1 else 0)"
    using connection_announces [OF inv(2) assms(2,3)] .
  have s: "s = announce_all ops p sigs (owner c)" by (simp add: s_def sigs)
  have run: "step\<^sup>*\<^sup>* (owner c) s" "knows ops s = knows ops (owner c)"
      "may_close ops s = may_close ops (owner c) - (if Sig_closed \<in> set sigs then {p} else {})"
      "\<And>q. holds_ref ops s q = holds_ref ops (owner c) q" "calls_made ops s = calls_made ops (owner c)"
      "may_ready ops (owner c) - (if Sig_ready \<in> set sigs then {p} else {}) \<subseteq> may_ready ops s"
    using announce_all_runs [OF knows counts] unfolding s by auto
  have asked: "frames_asked ops s q = frames_asked ops (owner c) q" for q
    by (simp add: frames_asked_def run(5))
  have order: "accepts_in_order (frames_asked ops (owner c) p) pr'"
  proof (rule accepts_step [OF assms(3)])
    show "accepts_in_order (frames_asked ops (owner c) p) pr"
      using inv(2) [of p] assms(2) by (simp add: connection_ok_def)
    show "\<forall>f \<in> set (frames_asked ops (owner c) p). \<not> automatic_frame f"
      by (auto simp: frames_asked_def owner_frames)
    show "\<forall>f. pr' \<noteq> async_push_frame f pr"
      using assms(4) by (auto simp: peer_called_def)
  qed
  have "connection_ok ops \<lparr>owner = s, connections = (connections c)(p \<mapsto> pr')\<rparr> q" for q
  proof (cases "q = p")
    case True
    have "Sig_closed \<in> set (signals pr) \<longleftrightarrow> p \<notin> may_close ops (owner c)"
        "Sig_ready \<in> set (signals pr) \<or> p \<in> may_ready ops (owner c)"
      using inv(2) [of p] assms(2) by (auto simp: connection_ok_def)
    with True run(1-4,6) knows r order show ?thesis
      by (auto simp: connection_ok_def sigs asked split: if_splits)
  next
    case False
    have "q \<in> may_close ops s \<longleftrightarrow> q \<in> may_close ops (owner c)"
        "q \<in> may_ready ops (owner c) \<Longrightarrow> q \<in> may_ready ops s"
      using False run(3,6) by (auto split: if_splits)
    with False inv(2) [of q] run(2,4,5) show ?thesis by (auto simp: connection_ok_def asked)
  qed
  with inv(1) run(1) show ?thesis by (simp add: composed_inv_def steps_inv)
qed

text \<open>A connection that nothing holds has announced \<open>closed\<close> already.\<close>

lemma destroy_ok:
  assumes "composed_inv ops inv c" and "connections c p = Some pr" and "\<not> holds_ref ops (owner c) p"
    and "unreferenced pr"
  shows "composed_inv ops inv \<lparr>owner = destroy ops p (owner c), connections = (connections c)(p := None)\<rparr>"
proof -
  have inv: "inv (owner c)" "\<And>q. connection_ok ops c q"
    using assms(1) by (simp_all add: composed_inv_def)
  have "connection_ok ops \<lparr>owner = destroy ops p (owner c), connections = (connections c)(p := None)\<rparr> q" for q
    using inv(2) [of q] destroy_ready [of "owner c" p]
    using assms(3) by (auto simp: connection_ok_def destroy_knows destroy_close destroy_holds destroy_calls
        frames_asked_def)
  with inv(1) show ?thesis
    using inv_step [OF inv(1) destroy_step [OF assms(3)]] by (simp add: composed_inv_def)
qed

lemma composed_step_sound:
  "composed_step ops step c d \<Longrightarrow> composed_inv ops inv c \<Longrightarrow>
     composed_inv ops inv d \<and> step\<^sup>*\<^sup>* (owner c) (owner d)"
proof (induction rule: composed_step.induct)
  case (co_owner c t)
  then have "inv t" and "connection_ok ops \<lparr>owner = t, connections = owner_effect ops (owner c) t (connections c)\<rparr> p" for p
    using owner_step_ok [of inv c p t] step_calls [of "owner c" t] inv_step [of "owner c" t]
    by (auto simp: composed_inv_def)
  with co_owner(1) show ?case by (auto simp: composed_inv_def)
next
  case (co_connection c p pr pr')
  then show ?case using connection_step_ok by simp
next
  case (co_destroy c p pr)
  then show ?case using destroy_ok [of c p pr] destroy_step [of "owner c" p] by auto
qed

lemma composed_initial_inv: "composed_initial init c \<Longrightarrow> composed_inv ops inv c"
  by (auto simp: composed_initial_def composed_inv_def connection_ok_def inv_init init_knows init_close init_holds init_calls calls_on_def)

end

sublocale connection_system \<subseteq> composition:
  simulation "composed_initial init" "composed_step ops step" "composed_inv ops inv" owner init step
proof unfold_locales
  show "composed_inv ops inv c" if "composed_initial init c" for c
    using that by (rule composed_initial_inv)
  show "composed_inv ops inv d" if "composed_inv ops inv c" "composed_step ops step c d" for c d
    using composed_step_sound [OF that(2,1)] by simp
  show "init (owner c)" if "composed_initial init c" for c
    using that by (simp add: composed_initial_def)
  show "step\<^sup>*\<^sup>* (owner c) (owner d)" if "composed_inv ops inv c" "composed_step ops step c d" for c d
    using composed_step_sound [OF that(2,1)] by simp
qed

context connection_system
begin

text \<open>
  In every reachable state of the composition the owner is in a reachable state of its machine and
  each connection in one of the peer's machine, a connection has announced \<open>closed\<close> exactly when the
  owner no longer expects it, and no connection is destroyed before that.
\<close>

lemma runs_on_real_connections:
  assumes "reachable_from (composed_initial init) (composed_step ops step) c"
  shows "reachable_from init step (owner c)"
    and "connections c p = Some pr \<Longrightarrow> reachable_peer pr \<and> knows ops (owner c) p \<and>
      (Sig_closed \<in> set (signals pr) \<longleftrightarrow> p \<notin> may_close ops (owner c)) \<and>
      (socket_open pr \<longleftrightarrow> p \<in> may_close ops (owner c))"
    and "p \<in> may_close ops (owner c) \<or> holds_ref ops (owner c) p \<Longrightarrow> \<exists>pr. connections c p = Some pr"
proof -
  show "reachable_from init step (owner c)"
    using assms by (rule composition.abstract_reachable)
  have ok: "connection_ok ops c p"
    using composition.reachable_inv [OF assms] by (simp add: composed_inv_def)
  then show "reachable_peer pr \<and> knows ops (owner c) p \<and>
      (Sig_closed \<in> set (signals pr) \<longleftrightarrow> p \<notin> may_close ops (owner c)) \<and>
      (socket_open pr \<longleftrightarrow> p \<in> may_close ops (owner c))" if "connections c p = Some pr"
    using that announced_once(1) [of pr] count_list_0_iff [of "signals pr" Sig_closed]
    by (auto simp: connection_ok_def split: if_splits)
  show "\<exists>pr. connections c p = Some pr" if "p \<in> may_close ops (owner c) \<or> holds_ref ops (owner c) p"
    using ok that by (auto simp: connection_ok_def)
qed

lemma announced_ready:
  assumes "reachable_from (composed_initial init) (composed_step ops step) c"
    and "connections c p = Some pr" and "p \<notin> may_ready ops (owner c)"
  shows "Sig_ready \<in> set (signals pr) \<and> ready pr"
proof -
  have "connection_ok ops c p"
    using composition.reachable_inv [OF assms(1)] by (simp add: composed_inv_def)
  then have "Sig_ready \<in> set (signals pr)" "reachable_peer pr"
    using assms(2,3) by (auto simp: connection_ok_def)
  then show ?thesis
    using reachable_peer_facts(2) [of pr] count_list_0_iff [of "signals pr" Sig_ready]
    by (auto simp: data_inv_def split: if_splits)
qed

text \<open>The owner's messages are accepted in the order of its calls.\<close>

lemma accepted_in_order:
  assumes "reachable_from (composed_initial init) (composed_step ops step) c" and "connections c p = Some pr"
  shows "prefix (owner_frames (accepted_frames pr)) (frames_asked ops (owner c) p)"
    and "socket_open pr \<Longrightarrow>
      frames_asked ops (owner c) p = owner_frames (accepted_frames pr) @ concat (map pushed (handlers pr))"
proof -
  have "connection_ok ops c p"
    using composition.reachable_inv [OF assms(1)] by (simp add: composed_inv_def)
  then have "accepts_in_order (frames_asked ops (owner c) p) pr"
    using assms(2) by (simp add: connection_ok_def)
  then show "prefix (owner_frames (accepted_frames pr)) (frames_asked ops (owner c) p)"
    using accepts_prefix by (fastforce simp: asked_def)
  show "frames_asked ops (owner c) p = owner_frames (accepted_frames pr) @ concat (map pushed (handlers pr))"
    if "socket_open pr"
    using \<open>accepts_in_order (frames_asked ops (owner c) p) pr\<close> that
    by (simp add: accepts_in_order_def asked_def)
qed

text \<open>A step that changes nothing of the connections, while there are none.\<close>

lemma unconnected_step:
  assumes "reachable_from (composed_initial init) (composed_step ops step) \<lparr>owner = s, connections = (\<lambda>_. None)\<rparr>"
    and "step s t" and "\<forall>p sig. t \<noteq> announce ops p sig s" and "knows ops t = knows ops s"
    and "may_close ops s = may_close ops t" and "may_ready ops s \<subseteq> may_ready ops t"
  shows "reachable_from (composed_initial init) (composed_step ops step) \<lparr>owner = t, connections = (\<lambda>_. None)\<rparr>"
proof -
  have "composed_step ops step \<lparr>owner = s, connections = (\<lambda>_. None)\<rparr>
      \<lparr>owner = t, connections = owner_effect ops s t (\<lambda>_. None)\<rparr>"
    using co_owner [of step "\<lparr>owner = s, connections = (\<lambda>_. None)\<rparr>" t ops] assms(2-6) by simp
  moreover have "owner_effect ops s t (\<lambda>_. None) = (\<lambda>_. None)"
    using assms(4) by (auto simp: owner_effect_def fun_eq_iff)
  ultimately show ?thesis using assms(1) by (auto intro: reach_step)
qed

text \<open>No connection is destroyed before it was closed, so no destructor aborts the process.\<close>

lemma destroyed_closed:
  assumes "reachable_from (composed_initial init) (composed_step ops step) c"
    and "composed_step ops step c d" and "connections c p = Some pr" and "connections d p = None"
  shows "\<not> socket_open pr \<and> \<not> destructor_aborts pr \<and> \<not> holds_ref ops (owner c) p"
  using assms(2)
proof cases
  case (co_destroy q r)
  then have "q = p" "r = pr" using assms(3,4) by (auto split: if_splits)
  then have "\<not> socket_open pr" "\<not> holds_ref ops (owner c) p"
    using co_destroy(3,4) runs_on_real_connections(2) [OF assms(1,3)] by (auto dest: unreferenced_closed)
  then show ?thesis
    using runs_on_real_connections(2) [OF assms(1,3)] announced_once(3) [of pr] by simp
qed (use assms(3,4) in \<open>auto simp: owner_effect_def split: if_splits\<close>)

end

end
