(* ===== verification/Owner_Queue.thy ===== *)
theory Owner_Queue
  imports Dispatcher_Extra
begin

text \<open>
  The queue of the dispatcher as one of its objects sees it: the functions of that object, in the
  order of the queue, and what enqueuing, the worker and detaching do to them. The client and the
  server both keep their state machines going through such a queue, and both through a debounced
  task that tries again later (\<open>retry_scheduled\<close>).
\<close>

section \<open>The functions of one object\<close>

lemma one_le_immediately [simp]: "1 \<le> when_immediately" "0 \<le> when_immediately" "when_immediately \<noteq> when_internal_detached"
  by (simp_all add: when_immediately_def when_internal_detached_def)

definition own_entries :: "u64 \<Rightarrow> 'f dispatcher \<Rightarrow> 'f entry list" where
  "own_entries oid d = filter (\<lambda>e. object_id_value e = oid) (queue d)"

definition owned :: "u64 \<Rightarrow> 'f dispatcher option \<Rightarrow> 'f list" where
  "owned oid weak = (case weak of None \<Rightarrow> [] | Some d \<Rightarrow> map entry_function (own_entries oid d))"

text \<open>The dispatcher is there, works, and the object is attached to it.\<close>

definition serves :: "u64 \<Rightarrow> 'f dispatcher option \<Rightarrow> bool" where
  "serves oid weak \<longleftrightarrow> (\<exists>d. weak = Some d \<and> \<not> exit_flag d \<and> oid \<in> object_ids d)"

lemma serves_enqueue [simp]:
  "serves oid (snd (enqueue_to_dispatcher oid' f w weak)) = serves oid weak"
  by (auto simp: serves_def enqueue_to_dispatcher_def enqueue_def Let_def split: option.splits)

lemma fst_enqueue [simp]: "fst (enqueue_to_dispatcher oid f w weak) = serves oid weak"
  by (auto simp: serves_def enqueue_to_dispatcher_def enqueue_def Let_def split: option.splits)

lemma not_served_enqueue [simp]:
  "\<not> serves oid weak \<Longrightarrow> enqueue_to_dispatcher oid f w weak = (False, weak)"
  by (auto simp: serves_def enqueue_to_dispatcher_def enqueue_def split: option.splits)

lemma mset_owned_enqueue [simp]:
  "mset (owned oid (snd (enqueue_to_dispatcher oid f w weak))) =
     mset (owned oid weak) + (if serves oid weak then {#f#} else {#})"
proof (cases "serves oid weak")
  case True
  then obtain d where "weak = Some d" "\<not> exit_flag d" "oid \<in> object_ids d"
    by (auto simp: serves_def)
  then show ?thesis
    using True
    by (simp add: owned_def own_entries_def enqueue_to_dispatcher_def enqueue_def Let_def
        mset_insert_by_when)
qed simp

lemma set_owned_enqueue [simp]:
  "set (owned oid (snd (enqueue_to_dispatcher oid f w weak))) =
     (if serves oid weak then insert f (set (owned oid weak)) else set (owned oid weak))"
  using arg_cong [OF mset_owned_enqueue [of oid f w weak], of set_mset]
  by (simp del: mset_owned_enqueue)

text \<open>Functions outside a class do not change the order of the class.\<close>

lemma filter_owned_other:
  assumes "\<not> P f" and "w \<noteq> when_internal_detached"
  shows "filter P (owned oid (snd (enqueue_to_dispatcher oid f w weak))) = filter P (owned oid weak)"
proof (cases "serves oid weak")
  case True
  then obtain d where d: "weak = Some d" "\<not> exit_flag d" "oid \<in> object_ids d"
    by (auto simp: serves_def)
  let ?P = "\<lambda>e. object_id_value e = oid \<and> P (entry_function e)"
  have "filter P (owned oid (Some d')) = map entry_function (filter ?P (queue d'))" for d'
    by (simp add: owned_def own_entries_def filter_map comp_def conj_commute)
  then show ?thesis
    using d assms
    by (simp add: enqueue_to_dispatcher_def enqueue_def Let_def filter_insert_by_when_other)
qed simp

lemma filter_insert_last:
  assumes "sorted (map entry_when q)" and "\<forall>x \<in> set q. P x \<longrightarrow> entry_when x \<le> entry_when e" and "P e"
  shows "filter P (insert_by_when e q) = filter P q @ [e]"
  using assms
proof (induction q)
  case (Cons x q)
  show ?case
  proof (cases "entry_when e < entry_when x")
    case True
    then have "filter P (x # q) = []"
      using Cons.prems by (fastforce simp: filter_empty_conv)
    then show ?thesis using True Cons.prems(3) by (simp add: insert_by_when_Cons)
  next
    case False
    then show ?thesis using Cons by (simp add: insert_by_when_Cons)
  qed
qed simp

text \<open>
  The functions of a class \<open>C\<close> are only enqueued for immediate execution, and satisfy \<open>T\<close>; so
  they stay in the order of their enqueuing.
\<close>

definition immediate_class :: "('f \<Rightarrow> bool) \<Rightarrow> ('f \<Rightarrow> bool) \<Rightarrow> u64 \<Rightarrow> 'f dispatcher option \<Rightarrow> bool" where
  "immediate_class C T oid weak \<longleftrightarrow>
     (case weak of
        None \<Rightarrow> True
      | Some d \<Rightarrow> dispatcher_inv d \<and>
          (\<forall>e \<in> set (own_entries oid d). C (entry_function e) \<longrightarrow>
             entry_when e = when_immediately \<and> T (entry_function e)))"

lemma immediate_class_enqueue:
  assumes "immediate_class C T oid weak" and "1 \<le> w" and "C f \<Longrightarrow> w = when_immediately \<and> T f"
  shows "immediate_class C T oid (snd (enqueue_to_dispatcher oid f w weak))"
    and "filter C (owned oid (snd (enqueue_to_dispatcher oid f w weak))) =
      filter C (owned oid weak) @ (if serves oid weak \<and> C f then [f] else [])"
proof -
  have "immediate_class C T oid (snd (enqueue_to_dispatcher oid f w weak)) \<and>
      filter C (owned oid (snd (enqueue_to_dispatcher oid f w weak))) =
      filter C (owned oid weak) @ (if serves oid weak \<and> C f then [f] else [])"
  proof (cases "serves oid weak")
    case True
    then obtain d where d: "weak = Some d" "\<not> exit_flag d" "oid \<in> object_ids d"
      by (auto simp: serves_def)
    let ?e = "\<lparr>object_id_value = oid, entry_function = f, entry_when = w\<rparr>"
    let ?P = "\<lambda>e. object_id_value e = oid \<and> C (entry_function e)"
    have q: "enqueue_to_dispatcher oid f w weak = (True, Some (d\<lparr>queue := insert_by_when ?e (queue d)\<rparr>))"
      using d assms(2)
      by (simp add: enqueue_to_dispatcher_def enqueue_def Let_def when_internal_detached_def)
    have inv: "dispatcher_inv d" and sorted: "sorted (map entry_when (queue d))"
      using assms(1) d by (auto simp: immediate_class_def dispatcher_inv_def queue_sorted_def)
    have early: "\<forall>x \<in> set (queue d). ?P x \<longrightarrow> entry_when x \<le> w"
      using assms(1,2) d by (auto simp: immediate_class_def own_entries_def when_immediately_def)
    have "filter ?P (insert_by_when ?e (queue d)) = filter ?P (queue d) @ (if C f then [?e] else [])"
      using filter_insert_last [OF sorted, of ?P ?e] filter_insert_by_when_other [of ?P ?e] early by simp
    then have controls: "filter C (owned oid (snd (enqueue_to_dispatcher oid f w weak))) =
        filter C (owned oid weak) @ (if C f then [f] else [])"
      unfolding q by (simp add: d(1) owned_def own_entries_def filter_map comp_def conj_commute)
    have "dispatcher_inv (d\<lparr>queue := insert_by_when ?e (queue d)\<rparr>)"
      using enqueue_inv [of d w oid f] inv d assms(2)
      by (simp add: enqueue_def Let_def when_internal_detached_def)
    moreover have "set (own_entries oid (d\<lparr>queue := insert_by_when ?e (queue d)\<rparr>)) =
        insert ?e (set (own_entries oid d))"
      by (auto simp: own_entries_def)
    ultimately have "immediate_class C T oid (snd (enqueue_to_dispatcher oid f w weak))"
      using assms(1,3) d(1) unfolding q by (simp add: immediate_class_def)
    then show ?thesis using True controls by simp
  qed (use assms(1) in simp)
  then show "immediate_class C T oid (snd (enqueue_to_dispatcher oid f w weak))"
    and "filter C (owned oid (snd (enqueue_to_dispatcher oid f w weak))) =
      filter C (owned oid weak) @ (if serves oid weak \<and> C f then [f] else [])" by blast+
qed

text \<open>All that is enqueued satisfies \<open>P\<close>.\<close>

definition adds_only :: "('f \<Rightarrow> bool) \<Rightarrow> u64 \<Rightarrow> 'f dispatcher option \<Rightarrow> 'f dispatcher option \<Rightarrow> bool" where
  "adds_only P oid weak weak' \<longleftrightarrow>
     serves oid weak' = serves oid weak \<and>
     (\<exists>M. mset (owned oid weak') = mset (owned oid weak) + M \<and> (\<forall>f \<in># M. P f))"

lemma adds_only_refl [simp]: "adds_only P oid weak weak"
  by (auto simp: adds_only_def)

lemma adds_only_trans:
  assumes "adds_only P oid w1 w2" and "adds_only P oid w2 w3"
  shows "adds_only P oid w1 w3"
proof -
  obtain M N where "mset (owned oid w2) = mset (owned oid w1) + M" "\<forall>f \<in># M. P f"
    "mset (owned oid w3) = mset (owned oid w2) + N" "\<forall>f \<in># N. P f"
    "serves oid w3 = serves oid w1"
    using assms by (auto simp: adds_only_def)
  then show ?thesis
    unfolding adds_only_def by (intro conjI exI [of _ "M + N"]) auto
qed

lemma adds_only_enqueue: "P f \<Longrightarrow> adds_only P oid weak (snd (enqueue_to_dispatcher oid f w weak))"
  by (auto simp: adds_only_def)

lemma adds_only_sum:
  assumes "adds_only P oid weak weak'" and "\<And>f. P f \<Longrightarrow> g f = {#}"
  shows "(\<Sum>f \<in># mset (owned oid weak'). g f) = (\<Sum>f \<in># mset (owned oid weak). g f)"
proof -
  obtain M where M: "mset (owned oid weak') = mset (owned oid weak) + M" "\<forall>f \<in># M. P f"
    using assms(1) by (auto simp: adds_only_def)
  have "(\<Sum>f \<in># M. g f) = {#}"
    using M(2) assms(2) by (induction M) auto
  then show ?thesis by (simp add: M(1))
qed

section \<open>The worker, other objects, and detaching\<close>

lemma take_owned:
  assumes "worker_iteration now d = (Run e, d')" and "object_id_value e = oid"
  shows "owned oid (Some d) = entry_function e # owned oid (Some d')"
    "serves oid (Some d') = serves oid (Some d)" "serves oid (Some d) \<longleftrightarrow> call_function e d' \<noteq> None"
    "immediate_class C T oid (Some d) \<Longrightarrow> immediate_class C T oid (Some d')"
    "immediate_class C T oid (Some d) \<Longrightarrow> C (entry_function e) \<Longrightarrow> T (entry_function e)"
proof -
  have q: "queue d = e # queue d'" "\<not> exit_flag d" "exit_flag d' = exit_flag d" "object_ids d' = object_ids d"
    using assms(1) by (auto simp: worker_iteration_def split: if_splits list.splits)
  show "owned oid (Some d) = entry_function e # owned oid (Some d')"
    "serves oid (Some d') = serves oid (Some d)" "serves oid (Some d) \<longleftrightarrow> call_function e d' \<noteq> None"
    using q assms(2) by (auto simp: owned_def own_entries_def serves_def call_function_def)
  have "dispatcher_inv d'" if "dispatcher_inv d"
    using that assms(1) worker_iteration_inv [of d now] by simp
  then show "immediate_class C T oid (Some d')" if "immediate_class C T oid (Some d)"
    using that q by (auto simp: immediate_class_def own_entries_def)
  show "T (entry_function e)" if "immediate_class C T oid (Some d)" "C (entry_function e)"
    using that q assms(2) by (auto simp: immediate_class_def own_entries_def)
qed

text \<open>
  What other objects on the dispatcher do: they leave the object's entries and its attachment
  alone, and may terminate the dispatcher.
\<close>

definition other_objects :: "u64 \<Rightarrow> 'f dispatcher \<Rightarrow> 'f dispatcher \<Rightarrow> bool" where
  "other_objects oid d d' \<longleftrightarrow>
     filter (\<lambda>e. object_id_value e = oid) (queue d') = filter (\<lambda>e. object_id_value e = oid) (queue d) \<and>
     (oid \<in> object_ids d' \<longleftrightarrow> oid \<in> object_ids d) \<and> (exit_flag d \<longrightarrow> exit_flag d') \<and> dispatcher_inv d'"

definition clock_ok :: "int option \<Rightarrow> bool" where
  "clock_ok now \<longleftrightarrow> (case now of None \<Rightarrow> True | Some n \<Rightarrow> 0 \<le> n)"

lemma when_now_nonneg: "clock_ok now \<Longrightarrow> 0 \<le> when_now now weak"
  by (simp add: when_now_def clock_ok_def when_immediately_def split: option.splits)

lemma other_objects_owned:
  assumes "other_objects oid d d'"
  shows "owned oid (Some d') = owned oid (Some d)" "serves oid (Some d') \<Longrightarrow> serves oid (Some d)"
    "immediate_class C T oid (Some d) \<Longrightarrow> immediate_class C T oid (Some d')"
  using assms
  by (auto simp: other_objects_def owned_def own_entries_def serves_def immediate_class_def)

lemma detach_owned:
  assumes "detach oid d = (True, d')"
  shows "owned oid (Some d') = []" "\<not> serves oid (Some d')"
    "immediate_class C T oid (Some d) \<Longrightarrow> immediate_class C T oid (Some d')"
proof -
  have d': "object_ids d' = object_ids d - {oid}"
    "queue d' = filter (\<lambda>e. object_id_value e \<noteq> oid) (queue d)"
    using assms by (auto simp: detach_def split: if_splits)
  then show "owned oid (Some d') = []" "\<not> serves oid (Some d')"
    by (auto simp: owned_def own_entries_def serves_def filter_empty_conv)
  show "immediate_class C T oid (Some d')" if "immediate_class C T oid (Some d)"
    using that detach_inv [of d oid] assms d'
    by (auto simp: immediate_class_def own_entries_def)
qed

lemma detach_fails: "detach oid d = (False, d') \<Longrightarrow> \<not> serves oid (Some d)"
  by (auto simp: detach_def serves_def split: if_splits)

lemma owned_none [simp]: "owned oid None = []" "\<not> serves oid None" "immediate_class C T oid None"
  by (simp_all add: owned_def serves_def immediate_class_def)

lemma attach_owned:
  assumes "dispatcher_inv d" and "oid \<notin> object_ids d"
  shows "owned oid (Some (snd (attach oid d))) = []" "immediate_class C T oid (Some (snd (attach oid d)))"
proof -
  have none: "own_entries oid (snd (attach oid d)) = []"
    using assms by (auto simp: own_entries_def attach_def filter_empty_conv dispatcher_inv_def queue_owned_def)
  then show "owned oid (Some (snd (attach oid d))) = []" by (simp add: owned_def)
  show "immediate_class C T oid (Some (snd (attach oid d)))"
    using none attach_inv [OF assms(1), of oid] by (simp add: immediate_class_def)
qed

section \<open>The closures of the debounced task and the timer\<close>

lemma debounced_adds:
  "run_debounced wrap oid x (dt, weak) = ((dt', weak'), call) \<Longrightarrow> adds_only (\<lambda>f. f \<in> range wrap) oid weak weak'"
proof (cases x)
  case (Debounce_in_dispatcher u w)
  obtain ok q where "enqueue_to_dispatcher oid (wrap (Debounced_call (dt_generation dt + 1) u)) w weak = (ok, q)"
    by fastforce
  then show "run_debounced wrap oid x (dt, weak) = ((dt', weak'), call) \<Longrightarrow> adds_only (\<lambda>f. f \<in> range wrap) oid weak weak'"
    using adds_only_enqueue [of "\<lambda>f. f \<in> range wrap" "wrap (Debounced_call (dt_generation dt + 1) u)" oid weak w]
      Debounce_in_dispatcher
    by (auto simp: debounce_in_dispatcher_def Let_def split: if_splits)
qed (auto split: if_splits)

lemma timer_enqueue_adds [simp]:
  "adds_only (\<lambda>f. f \<in> range wrap) oid weak (snd (snd (timer_enqueue wrap oid now i (t, weak))))"
  by (simp add: timer_enqueue_def split_beta adds_only_enqueue)

lemma call_timer_adds [simp]:
  "adds_only (\<lambda>f. f \<in> range wrap) oid weak (snd (call_timer_function wrap oid now i (t, weak)))"
proof -
  let ?P = "\<lambda>f. f \<in> range wrap"
  let ?user = "case timer_function t of None \<Rightarrow> (True, weak)
      | Some f \<Rightarrow> enqueue_to_dispatcher oid (wrap (Timer_user_call f)) when_immediately weak"
  have user: "adds_only ?P oid weak (snd ?user)"
    using adds_only_enqueue [of ?P] by (auto split: option.split)
  moreover have "adds_only ?P oid weak (snd (snd (timer_enqueue wrap oid now i (t, snd ?user))))"
    by (rule adds_only_trans [OF user]) simp
  ultimately show ?thesis
    by (simp add: call_timer_function_def split_beta Let_def del: option.case_distrib)
qed

lemma timer_adds [simp]:
  "adds_only (\<lambda>f. f \<in> range wrap) oid weak (snd (fst (run_timer wrap oid now x (t, weak))))"
  by (cases x) (simp_all add: Let_def split_beta)

section \<open>Trying again later\<close>

text \<open>
  The control functions of a debounced task and the time they schedule for; and that a retry is
  scheduled, with no cancellation queued behind it: the last control function is not a
  cancellation, or there is none and the call of the current generation is queued.
\<close>

fun debounce_control :: "'x debounce_function \<Rightarrow> bool" where
  "debounce_control (Debounced_call _ _) = False"
| "debounce_control _ = True"

fun debounce_due :: "'x debounce_function \<Rightarrow> bool" where
  "debounce_due (Debounce_in_dispatcher _ w) = (1 \<le> w)"
| "debounce_due _ = True"

definition retry_control :: "(unit debounce_function \<Rightarrow> 'f) \<Rightarrow> 'f \<Rightarrow> bool" where
  "retry_control wrap f \<longleftrightarrow> (\<exists>x. f = wrap x \<and> debounce_control x)"

definition retry_due :: "(unit debounce_function \<Rightarrow> 'f) \<Rightarrow> 'f \<Rightarrow> bool" where
  "retry_due wrap f \<longleftrightarrow> (\<forall>x. f = wrap x \<longrightarrow> debounce_due x)"

definition retry_scheduled ::
    "(unit debounce_function \<Rightarrow> 'f) \<Rightarrow> u64 \<Rightarrow> 'f dispatcher option \<Rightarrow> debounced_task \<Rightarrow> bool" where
  "retry_scheduled wrap oid weak dt \<longleftrightarrow>
     (let controls = filter (retry_control wrap) (owned oid weak)
      in if controls = [] then wrap (Debounced_call (dt_generation dt) ()) \<in> set (owned oid weak)
         else last controls \<noteq> wrap Cancel_debounced)"

abbreviation retry_queue :: "(unit debounce_function \<Rightarrow> 'f) \<Rightarrow> u64 \<Rightarrow> 'f dispatcher option \<Rightarrow> bool" where
  "retry_queue wrap oid weak \<equiv> immediate_class (retry_control wrap) (retry_due wrap) oid weak"

text \<open>
  The interface of a debounced task used for retries: its closures are embedded one to one into
  the functions of its owner. Then a scheduled retry stays scheduled, unless it is cancelled,
  until the worker makes the call.
\<close>

locale retry_task =
  fixes wrap :: "unit debounce_function \<Rightarrow> 'f"
  assumes wrap_inj: "wrap x = wrap y \<Longrightarrow> x = y"
begin

lemma wrap_eq: "wrap x = wrap y \<longleftrightarrow> x = y"
  using wrap_inj by blast

lemma wrap_control: "retry_control wrap (wrap x) = debounce_control x" "retry_due wrap (wrap x) = debounce_due x"
  by (auto simp: retry_control_def retry_due_def wrap_eq)

lemma scheduled_enqueue:
  assumes "retry_queue wrap oid weak" and "retry_scheduled wrap oid weak dt" and "1 \<le> w"
    and "retry_control wrap f \<Longrightarrow> w = when_immediately \<and> retry_due wrap f"
    and "f \<noteq> wrap Cancel_debounced"
  shows "retry_scheduled wrap oid (snd (enqueue_to_dispatcher oid f w weak)) dt"
  using immediate_class_enqueue(2) [OF assms(1,3,4)] assms(2,5)
  by (auto simp: retry_scheduled_def Let_def)

lemma schedules:
  assumes "retry_queue wrap oid weak" and "serves oid weak" and "1 \<le> w"
  shows "retry_scheduled wrap oid
    (snd (enqueue_to_dispatcher oid (wrap (Debounce_in_dispatcher () w)) when_immediately weak)) dt"
  using immediate_class_enqueue(2) [OF assms(1), of when_immediately "wrap (Debounce_in_dispatcher () w)"] assms(2,3)
  by (simp add: retry_scheduled_def wrap_control wrap_eq when_immediately_def)

text \<open>The worker takes a function that is not the task's.\<close>

lemma scheduled_take:
  assumes "owned oid weak = f # owned oid weak'" and "retry_scheduled wrap oid weak dt"
    and "\<And>x. f \<noteq> wrap x"
  shows "retry_scheduled wrap oid weak' dt"
  using assms by (auto simp: retry_scheduled_def retry_control_def Let_def split: if_splits)

text \<open>It runs one of the task's: the retry is called, or still scheduled.\<close>

lemma scheduled_run:
  assumes take: "owned oid weak = wrap x # owned oid weak'" and "retry_scheduled wrap oid weak dt"
    and "retry_queue wrap oid weak'" and "serves oid weak'" and due: "debounce_due x"
    and run: "run_debounced wrap oid x (dt, weak') = ((dt', weak''), call)"
  shows "call \<noteq> None \<or> retry_scheduled wrap oid weak'' dt'"
proof (cases "filter (retry_control wrap) (owned oid weak') = []")
  case False
  then have sched: "retry_scheduled wrap oid weak' dt''" for dt''
    using assms(1,2) by (auto simp: retry_scheduled_def Let_def split: if_splits)
  show ?thesis
  proof (cases x)
    case (Debounce_in_dispatcher u w)
    have "retry_scheduled wrap oid
        (snd (enqueue_to_dispatcher oid (wrap (Debounced_call (dt_generation dt + 1) u)) w weak')) dt''" for dt''
      using due Debounce_in_dispatcher
      by (intro scheduled_enqueue [OF assms(3) sched]) (auto simp: wrap_control wrap_eq)
    then show ?thesis
      using run Debounce_in_dispatcher
      by (auto simp: debounce_in_dispatcher_def Let_def split: prod.splits if_splits)
  qed (use run sched in \<open>auto split: if_splits\<close>)
next
  case True
  show ?thesis
  proof (cases x)
    case (Debounce_in_dispatcher u w)
    let ?f = "wrap (Debounced_call (dt_generation dt + 1) ())"
    obtain ok q where q: "enqueue_to_dispatcher oid ?f w weak' = (ok, q)" by fastforce
    have "filter (retry_control wrap) (owned oid q) = []"
      using immediate_class_enqueue(2) [OF assms(3), of w ?f] due Debounce_in_dispatcher True
      by (simp add: wrap_control q)
    moreover have "?f \<in> set (owned oid q)"
      using set_owned_enqueue [of oid ?f w weak'] assms(4) by (simp add: q)
    moreover have ok
      using fst_enqueue [of oid ?f w weak'] assms(4) by (simp add: q)
    then have "weak'' = q" "dt' = dt\<lparr>dt_generation := dt_generation dt + 1\<rparr>"
      using run Debounce_in_dispatcher q by (simp_all add: debounce_in_dispatcher_def Let_def)
    ultimately show ?thesis
      by (simp add: retry_scheduled_def)
  next
    case (Debounced_call k u)
    then have "wrap (Debounced_call (dt_generation dt) ()) \<in> set (owned oid weak)"
      using assms(1,2) True by (simp add: retry_scheduled_def wrap_control)
    then show ?thesis
      using run Debounced_call True take by (auto simp: retry_scheduled_def wrap_eq split: if_splits)
  next
    case Cancel_debounced
    then show ?thesis
      using assms(1,2) True by (simp add: retry_scheduled_def wrap_control)
  qed
qed

end

end
