(* ===== verification/Client.thy ===== *)
theory Client
  imports Notification_Scope Owner_Queue Request_Manager Peer_Contract Runtime
begin

text \<open>
  The client (\<^verbatim>\<open>client.hpp\<close>): connect, verify, reconnect, requests, invalidation and
  shutdown. Two threads work on a client. The functions it puts on the dispatcher are the
  constructors of \<open>client_function\<close>; the one that is running is a list of \<open>client_action\<close>s, each
  of them atomic, so the I/O thread may run between any two of them. The functions it posts to
  the I/O executor are the constructors of \<open>io_task\<close>; they read the session token at most once,
  so each of them is one step.

  The pieces it uses are the models of the other theories: the dispatcher with its sorted queue,
  the debounced task, the notification scope and the request manager. A peer is its contract
  (theory \<open>Peer_Contract\<close>): an identity, the calls the client makes on it, and the signals it
  announces, \<open>closed\<close> at most once. Signals of one peer are delivered in order, under the peer's
  own object id, so their order relative to the client's own functions is open. A lock of a weak
  pointer to the client succeeds while the object lives, and its life is what is modelled.
\<close>

section \<open>Functions, actions and tasks\<close>

type_synonym socket_ref = nat
type_synonym peer_ref = nat

text \<open>
  What is enqueued through the notification scope. The peer of \<open>N_connected\<close> and \<open>N_closed\<close> is
  not in the code's closures: it names the connection the notification is about.
\<close>

datatype client_notification =
    N_connect_failed error_code
  | N_verify socket_ref peer_credentials token
  | N_schedule_reconnect
  | N_peer_verification_failed peer_credentials
  | N_connected peer_ref peer_credentials
  | N_received bytes
  | N_request_received request_id bytes
  | N_error_occurred error_code
  | N_closed peer_ref

text \<open>\<open>'cb\<close> is the type of request callbacks; the closure of the debounced task is \<open>()\<close>.\<close>

datatype 'cb client_function =
    Fn_start
  | Fn_stop
  | Fn_invalidate
  | Fn_scoped token client_notification
  | Fn_debounced "unit debounce_function"
  | Fn_callback 'cb error_code "bytes option"

datatype client_signal =
    S_connected peer_ref peer_credentials
  | S_peer_verification_failed peer_credentials
  | S_connect_failed error_code
  | S_closed peer_ref
  | S_error_occurred error_code
  | S_received bytes
  | S_request_received request_id bytes

datatype 'cb client_action =
    D_connect
  | D_cancel_reconnect
  | D_post_stop
  | D_post_invalidate
  | D_schedule_reconnect
  | D_signal client_signal
  | D_verify socket_ref peer_credentials token
  | D_callback 'cb error_code "bytes option"

datatype 'cb io_task =
    Io_connect token
  | Io_connect_done socket_ref token error_code peer_credentials
  | Io_handle_connected socket_ref peer_credentials bool token
  | Io_notify_connected peer_ref peer_credentials token
  | Io_stop
  | Io_invalidate token
  | Io_shutdown
  | Io_nothing
  | Io_send bytes
  | Io_respond request_id bytes
  | Io_request bytes 'cb
  | Io_peer_received peer_ref token bytes
  | Io_peer_request_received peer_ref token request_id bytes
  | Io_peer_response_received peer_ref request_id bytes
  | Io_peer_error_occurred peer_ref token error_code
  | Io_peer_closed peer_ref token

text \<open>What the client calls on a peer.\<close>

datatype peer_call =
    Peer_start
  | Peer_send bytes
  | Peer_send_request request_id bytes
  | Peer_send_response request_id bytes
  | Peer_close

text \<open>
  The members of \<^verbatim>\<open>client_state\<close>; the dispatcher it is attached to under \<open>client_oid\<close> and the rest
  of the function that runs there; the executor and the outstanding connect operations; the
  peers: the token and credentials their slots captured, those that may still announce, those
  whose slots were disconnected, the signals waiting for their slots, and the calls made on
  them; the notifications and callbacks delivered; and how often the generation of the scope has
  changed, which is only counted.
\<close>

record 'cb client =
  client_path :: path
  client_opts :: client_options
  scope :: notification_scope
  requests :: "('cb, token) request_manager"
  connecting_socket :: "socket_ref option"
  client_peer :: "peer_ref option"
  shutdown_started :: bool
  reconnect_task :: debounced_task
  client_oid :: u64
  disp :: "'cb client_function dispatcher option"
  thread :: "'cb client_action list"
  io :: "'cb io_task list"
  connects :: "(socket_ref \<times> token) list"
  next_ref :: nat
  peer_session :: "peer_ref \<Rightarrow> (token \<times> peer_credentials) option"
  live_peers :: "peer_ref set"
  silenced_peers :: "peer_ref set"
  peer_signals :: "(peer_ref \<times> peer_signal) list"
  peer_calls :: "(peer_ref \<times> peer_call) list"
  client_log :: "client_signal list"
  delivered :: "('cb \<times> error_code \<times> bytes option) list"
  sessions :: nat

definition new_client :: "path \<Rightarrow> client_options \<Rightarrow> u64 \<Rightarrow> 'cb client_function dispatcher \<Rightarrow> 'cb client" where
  "new_client p options oid d =
     \<lparr>client_path = p, client_opts = options, scope = new_notification_scope,
      requests = new_request_manager, connecting_socket = None, client_peer = None,
      shutdown_started = False, reconnect_task = new_debounced_task, client_oid = oid,
      disp = Some (snd (attach oid d)), thread = [], io = [], connects = [], next_ref = 0,
      peer_session = (\<lambda>_. None), live_peers = {}, silenced_peers = {}, peer_signals = [],
      peer_calls = [], client_log = [], delivered = [], sessions = 0\<rparr>"

section \<open>Enqueuing and posting\<close>

definition to_dispatcher :: "'cb client_function \<Rightarrow> 'cb client \<Rightarrow> 'cb client" where
  "to_dispatcher f s =
     s\<lparr>disp := snd (enqueue_to_dispatcher (client_oid s) f when_immediately (disp s))\<rparr>"

definition post_io :: "'cb io_task \<Rightarrow> 'cb client \<Rightarrow> 'cb client" where
  "post_io t s = s\<lparr>io := io s @ [t]\<rparr>"

text \<open>\<^verbatim>\<open>notification_scope_.enqueue\<close>, with its result.\<close>

definition notify :: "token \<Rightarrow> client_notification \<Rightarrow> 'cb client \<Rightarrow> bool \<times> 'cb client" where
  "notify t n s =
     (case scope_enqueue Fn_scoped (client_oid s) t n (disp s) of (ok, d) \<Rightarrow> (ok, s\<lparr>disp := d\<rparr>))"

definition notify_only :: "token \<Rightarrow> client_notification \<Rightarrow> 'cb client \<Rightarrow> 'cb client" where
  "notify_only t n s = snd (notify t n s)"

text \<open>The request manager puts each completed callback on the client's dispatcher.\<close>

fun enqueue_completions :: "'cb completion list \<Rightarrow> 'cb client \<Rightarrow> 'cb client" where
  "enqueue_completions [] s = s"
| "enqueue_completions ((cb, ec, data) # out) s =
     enqueue_completions out (to_dispatcher (Fn_callback cb ec data) s)"

definition with_requests ::
    "('cb, token) request_manager \<times> 'cb completion list \<Rightarrow> 'cb client \<Rightarrow> 'cb client" where
  "with_requests r s = enqueue_completions (snd r) (s\<lparr>requests := fst r\<rparr>)"

definition call_peer :: "peer_ref \<Rightarrow> peer_call \<Rightarrow> 'cb client \<Rightarrow> 'cb client" where
  "call_peer p c s = s\<lparr>peer_calls := peer_calls s @ [(p, c)]\<rparr>"

section \<open>On the I/O thread\<close>

text \<open>Closing a socket ends its outstanding connect with \<open>Operation_aborted\<close>.\<close>

definition close_socket_ref :: "socket_ref \<Rightarrow> 'cb client \<Rightarrow> 'cb client" where
  "close_socket_ref sk s =
     s\<lparr>connects := filter (\<lambda>(sk', _). sk' \<noteq> sk) (connects s),
       io := io s @ map (\<lambda>(_, t). Io_connect_done sk t Operation_aborted no_credentials)
                        (filter (\<lambda>(sk', _). sk' = sk) (connects s))\<rparr>"

definition close_connecting_socket :: "'cb client \<Rightarrow> 'cb client" where
  "close_connecting_socket s =
     (case connecting_socket s of
        None \<Rightarrow> s
      | Some sk \<Rightarrow> (close_socket_ref sk s)\<lparr>connecting_socket := None\<rparr>)"

definition client_close_peer :: "error_code \<Rightarrow> 'cb client \<Rightarrow> bool \<times> 'cb client" where
  "client_close_peer ec s =
     (case client_peer s of
        None \<Rightarrow> (False, s)
      | Some p \<Rightarrow>
          let s = with_requests (rm_complete_all ec (requests s)) s;
              s = call_peer p Peer_close s
          in (True, s\<lparr>client_peer := None\<rparr>))"

text \<open>
  \<open>endpoint_error\<close> is the error of \<^verbatim>\<open>asio_helper::make_endpoint\<close> for a path (\<open>No_error\<close> if it is
  a valid endpoint).
\<close>

definition io_connect :: "(path \<Rightarrow> error_code) \<Rightarrow> token \<Rightarrow> 'cb client \<Rightarrow> 'cb client" where
  "io_connect endpoint_error t s =
     (if \<not> is_current t (scope s) \<or> connecting_socket s \<noteq> None \<or> client_peer s \<noteq> None then s
      else
        let ec = endpoint_error (client_path s)
        in if is_error ec then notify_only t (N_connect_failed ec) s
           else
             let sk = next_ref s
             in s\<lparr>next_ref := sk + 1, connecting_socket := Some sk,
                  connects := connects s @ [(sk, t)]\<rparr>)"

definition io_connect_done ::
    "socket_ref \<Rightarrow> token \<Rightarrow> error_code \<Rightarrow> peer_credentials \<Rightarrow> 'cb client \<Rightarrow> 'cb client" where
  "io_connect_done sk t ec credentials s =
     (if \<not> scope_running (scope s) \<or> connecting_socket s \<noteq> Some sk then close_socket_ref sk s
      else if is_error ec
      then notify_only t (N_connect_failed ec) (s\<lparr>connecting_socket := None\<rparr>)
      else (case notify t (N_verify sk credentials t) s of
              (ok, s) \<Rightarrow> if \<not> ok then close_socket_ref sk (s\<lparr>connecting_socket := None\<rparr>) else s))"

definition handle_connected_socket ::
    "socket_ref \<Rightarrow> peer_credentials \<Rightarrow> bool \<Rightarrow> token \<Rightarrow> 'cb client \<Rightarrow> 'cb client" where
  "handle_connected_socket sk credentials verified t s =
     (if connecting_socket s \<noteq> Some sk then close_socket_ref sk s
      else
        let s = s\<lparr>connecting_socket := None\<rparr>
        in if \<not> is_current t (scope s) then close_socket_ref sk s
           else if \<not> verified
           then notify_only t (N_peer_verification_failed credentials) (close_socket_ref sk s)
           else
             let p = next_ref s;
                 s = s\<lparr>next_ref := p + 1, client_peer := Some p,
                       peer_session := (peer_session s)(p \<mapsto> (t, credentials)),
                       live_peers := insert p (live_peers s)\<rparr>;
                 s = call_peer p Peer_start s
             in post_io (Io_notify_connected p credentials t) s)"

definition send_request :: "bytes \<Rightarrow> 'cb \<Rightarrow> 'cb client \<Rightarrow> 'cb client" where
  "send_request data callback s =
     (case client_peer s of
        None \<Rightarrow> to_dispatcher (Fn_callback callback Not_connected None) s
      | Some p \<Rightarrow>
          (case rm_add None callback (Some (capture (scope s))) (requests s) of
             (rid, rm) \<Rightarrow> call_peer p (Peer_send_request rid data) (s\<lparr>requests := rm\<rparr>)))"

text \<open>The timeout callback that \<open>send_request\<close> gives the request manager.\<close>

definition request_timed_out :: "token \<Rightarrow> 'cb client \<Rightarrow> 'cb client" where
  "request_timed_out t s =
     (if invalidate_connection_on_request_error (common_params (client_opts s))
      then (case client_peer s of
              None \<Rightarrow> s
            | Some p \<Rightarrow>
                (case client_close_peer Connection_reset s of
                   (closed, s) \<Rightarrow> if closed then notify_only t (N_closed p) s else s))
      else s)"

definition io_request_timer :: "'cb client \<Rightarrow> 'cb client" where
  "io_request_timer s =
     (case run_expired (requests s) of
        (rm, out, tc) \<Rightarrow>
          let s = with_requests (rm, out) s
          in case tc of None \<Rightarrow> s | Some t \<Rightarrow> request_timed_out t s)"

definition io_stop :: "'cb client \<Rightarrow> 'cb client" where
  "io_stop s = snd (client_close_peer Operation_aborted (close_connecting_socket s))"

definition io_invalidate :: "token \<Rightarrow> 'cb client \<Rightarrow> 'cb client" where
  "io_invalidate t s = notify_only t N_schedule_reconnect (io_stop s)"

definition io_shutdown :: "'cb client \<Rightarrow> 'cb client" where
  "io_shutdown s =
     (let s = close_connecting_socket s;
          s = (case client_peer s of
                 None \<Rightarrow> s | Some p \<Rightarrow> s\<lparr>silenced_peers := insert p (silenced_peers s)\<rparr>);
          s = snd (client_close_peer Operation_aborted s)
      in post_io Io_nothing s)"

text \<open>The functions that the slots of a peer post: they ignore a peer that was replaced.\<close>

definition io_peer_closed :: "peer_ref \<Rightarrow> token \<Rightarrow> 'cb client \<Rightarrow> 'cb client" where
  "io_peer_closed p t s =
     (if client_peer s \<noteq> Some p then s
      else
        let s = with_requests (rm_complete_all Connection_reset (requests s)) s
        in notify_only t (N_closed p) (s\<lparr>client_peer := None\<rparr>))"

definition io_peer_error_occurred :: "peer_ref \<Rightarrow> token \<Rightarrow> error_code \<Rightarrow> 'cb client \<Rightarrow> 'cb client" where
  "io_peer_error_occurred p t ec s =
     (if client_peer s \<noteq> Some p then s
      else notify_only t (N_error_occurred ec) (with_requests (rm_complete_all ec (requests s)) s))"

definition to_peer :: "peer_call \<Rightarrow> 'cb client \<Rightarrow> 'cb client" where
  "to_peer c s = (case client_peer s of None \<Rightarrow> s | Some p \<Rightarrow> call_peer p c s)"

definition if_peer :: "peer_ref \<Rightarrow> ('cb client \<Rightarrow> 'cb client) \<Rightarrow> 'cb client \<Rightarrow> 'cb client" where
  "if_peer p f s = (if client_peer s = Some p then f s else s)"

text \<open>The posted functions that only pass something on.\<close>

definition io_notify_connected :: "peer_ref \<Rightarrow> peer_credentials \<Rightarrow> token \<Rightarrow> 'cb client \<Rightarrow> 'cb client" where
  [simp]: "io_notify_connected p credentials t s = if_peer p (notify_only t (N_connected p credentials)) s"

definition io_send :: "bytes \<Rightarrow> 'cb client \<Rightarrow> 'cb client" where
  [simp]: "io_send data s = to_peer (Peer_send data) s"

definition io_respond :: "request_id \<Rightarrow> bytes \<Rightarrow> 'cb client \<Rightarrow> 'cb client" where
  [simp]: "io_respond rid data s = to_peer (Peer_send_response rid data) s"

definition io_peer_received :: "peer_ref \<Rightarrow> token \<Rightarrow> bytes \<Rightarrow> 'cb client \<Rightarrow> 'cb client" where
  [simp]: "io_peer_received p t data s = if_peer p (notify_only t (N_received data)) s"

definition io_peer_request_received ::
    "peer_ref \<Rightarrow> token \<Rightarrow> request_id \<Rightarrow> bytes \<Rightarrow> 'cb client \<Rightarrow> 'cb client" where
  [simp]: "io_peer_request_received p t rid data s = if_peer p (notify_only t (N_request_received rid data)) s"

definition io_peer_response_received :: "peer_ref \<Rightarrow> request_id \<Rightarrow> bytes \<Rightarrow> 'cb client \<Rightarrow> 'cb client" where
  [simp]: "io_peer_response_received p rid data s =
     if_peer p (\<lambda>s. with_requests (rm_complete rid No_error (Some data) (requests s)) s) s"

fun run_io :: "(path \<Rightarrow> error_code) \<Rightarrow> 'cb io_task \<Rightarrow> 'cb client \<Rightarrow> 'cb client" where
  "run_io ep (Io_connect t) s = io_connect ep t s"
| "run_io ep (Io_connect_done sk t ec credentials) s = io_connect_done sk t ec credentials s"
| "run_io ep (Io_handle_connected sk credentials verified t) s =
     handle_connected_socket sk credentials verified t s"
| "run_io ep (Io_notify_connected p credentials t) s = io_notify_connected p credentials t s"
| "run_io ep Io_stop s = io_stop s"
| "run_io ep (Io_invalidate t) s = io_invalidate t s"
| "run_io ep Io_shutdown s = io_shutdown s"
| "run_io ep Io_nothing s = s"
| "run_io ep (Io_send data) s = io_send data s"
| "run_io ep (Io_respond rid data) s = io_respond rid data s"
| "run_io ep (Io_request data cb) s = send_request data cb s"
| "run_io ep (Io_peer_received p t data) s = io_peer_received p t data s"
| "run_io ep (Io_peer_request_received p t rid data) s = io_peer_request_received p t rid data s"
| "run_io ep (Io_peer_response_received p rid data) s = io_peer_response_received p rid data s"
| "run_io ep (Io_peer_error_occurred p t ec) s = io_peer_error_occurred p t ec s"
| "run_io ep (Io_peer_closed p t) s = io_peer_closed p t s"

section \<open>On the dispatcher thread\<close>

definition schedule_reconnect :: "int option \<Rightarrow> 'cb client \<Rightarrow> 'cb client" where
  "schedule_reconnect time_source s =
     (if \<not> scope_running (scope s) then s
      else s\<lparr>disp := snd (debounce_after Fn_debounced (client_oid s) ()
               (normalize_scheduling_interval (reconnect_interval (client_params (client_opts s))))
               time_source (disp s))\<rparr>)"

text \<open>
  The first part of a function (up to and including its change of the scope, which only this
  thread changes) and the actions that remain.
\<close>

fun notification_actions :: "client_notification \<Rightarrow> 'cb client_action list" where
  "notification_actions (N_connect_failed ec) = [D_signal (S_connect_failed ec), D_schedule_reconnect]"
| "notification_actions (N_verify sk credentials t) = [D_verify sk credentials t]"
| "notification_actions N_schedule_reconnect = [D_schedule_reconnect]"
| "notification_actions (N_peer_verification_failed credentials) =
     [D_signal (S_peer_verification_failed credentials), D_schedule_reconnect]"
| "notification_actions (N_connected p credentials) = [D_signal (S_connected p credentials)]"
| "notification_actions (N_received data) = [D_signal (S_received data)]"
| "notification_actions (N_request_received rid data) = [D_signal (S_request_received rid data)]"
| "notification_actions (N_error_occurred ec) = [D_signal (S_error_occurred ec)]"
| "notification_actions (N_closed p) = [D_signal (S_closed p), D_schedule_reconnect]"

fun begin_function :: "'cb client_function \<Rightarrow> 'cb client \<Rightarrow> 'cb client" where
  "begin_function Fn_start s = s\<lparr>scope := scope_start (scope s), thread := [D_connect]\<rparr>"
| "begin_function Fn_stop s =
     s\<lparr>scope := scope_stop (scope s), sessions := Suc (sessions s),
       thread := [D_cancel_reconnect, D_post_stop]\<rparr>"
| "begin_function Fn_invalidate s =
     s\<lparr>scope := scope_invalidate (scope s), sessions := Suc (sessions s),
       thread := [D_cancel_reconnect, D_post_invalidate]\<rparr>"
| "begin_function (Fn_scoped t n) s =
     (case run_scoped t n (scope s) of
        None \<Rightarrow> s | Some n \<Rightarrow> s\<lparr>thread := notification_actions n\<rparr>)"
| "begin_function (Fn_debounced f) s =
     (case run_debounced Fn_debounced (client_oid s) f (reconnect_task s, disp s) of
        ((dt, d), call) \<Rightarrow>
          s\<lparr>reconnect_task := dt, disp := d,
            thread := (if call \<noteq> None \<and> scope_running (scope s) then [D_connect] else [])\<rparr>)"
| "begin_function (Fn_callback cb ec data) s = s\<lparr>thread := [D_callback cb ec data]\<rparr>"

fun run_action ::
    "(peer_credentials \<Rightarrow> bool) \<Rightarrow> int option \<Rightarrow> 'cb client_action \<Rightarrow> 'cb client \<Rightarrow> 'cb client" where
  "run_action verify now D_connect s = post_io (Io_connect (capture (scope s))) s"
| "run_action verify now D_cancel_reconnect s =
     s\<lparr>disp := debounce_cancel Fn_debounced (client_oid s) (disp s)\<rparr>"
| "run_action verify now D_post_stop s = post_io Io_stop s"
| "run_action verify now D_post_invalidate s = post_io (Io_invalidate (capture (scope s))) s"
| "run_action verify now D_schedule_reconnect s = schedule_reconnect now s"
| "run_action verify now (D_signal sig) s = s\<lparr>client_log := client_log s @ [sig]\<rparr>"
| "run_action verify now (D_verify sk credentials t) s =
     post_io (Io_handle_connected sk credentials (verify credentials) t) s"
| "run_action verify now (D_callback cb ec data) s = s\<lparr>delivered := delivered s @ [(cb, ec, data)]\<rparr>"

text \<open>The slot the client connected to a signal of a peer; \<open>ready\<close> has none.\<close>

definition peer_slot :: "peer_ref \<Rightarrow> peer_signal \<Rightarrow> 'cb client \<Rightarrow> 'cb client" where
  "peer_slot p sig s =
     (if p \<in> silenced_peers s then s
      else (case peer_session s p of
              None \<Rightarrow> s
            | Some (t, _) \<Rightarrow>
                (case sig of
                   Sig_received data \<Rightarrow> post_io (Io_peer_received p t data) s
                 | Sig_request_received rid data \<Rightarrow> post_io (Io_peer_request_received p t rid data) s
                 | Sig_response_received rid data \<Rightarrow> post_io (Io_peer_response_received p rid data) s
                 | Sig_error_occurred ec \<Rightarrow> post_io (Io_peer_error_occurred p t ec) s
                 | Sig_closed \<Rightarrow> post_io (Io_peer_closed p t) s
                 | _ \<Rightarrow> s)))"

section \<open>Public operations\<close>

definition client_async_start :: "'cb client \<Rightarrow> 'cb client" where
  "client_async_start s = to_dispatcher Fn_start s"

definition client_async_stop :: "'cb client \<Rightarrow> 'cb client" where
  "client_async_stop s = to_dispatcher Fn_stop s"

definition client_async_invalidate_connection :: "'cb client \<Rightarrow> 'cb client" where
  "client_async_invalidate_connection s = to_dispatcher Fn_invalidate s"

definition client_async_send :: "bytes \<Rightarrow> 'cb client \<Rightarrow> 'cb client" where
  "client_async_send data s = post_io (Io_send data) s"

definition client_async_respond :: "request_id \<Rightarrow> bytes \<Rightarrow> 'cb client \<Rightarrow> 'cb client" where
  "client_async_respond rid data s = post_io (Io_respond rid data) s"

definition client_async_request :: "bytes \<Rightarrow> 'cb \<Rightarrow> 'cb client \<Rightarrow> 'cb client" where
  "client_async_request data cb s = post_io (Io_request data cb) s"

text \<open>
  \<^verbatim>\<open>async_shutdown\<close>: detach from the dispatcher, which drops the queued functions, and clean up
  there; then close everything on the I/O thread. The cleanup is lost when the dispatcher is gone
  or terminated, unless the caller runs on its thread.
\<close>

definition client_cleanup :: "'cb client \<Rightarrow> 'cb client" where
  "client_cleanup s =
     (let s = s\<lparr>scope := scope_stop (scope s), sessions := Suc (sessions s)\<rparr>
      in s\<lparr>disp := debounce_cancel Fn_debounced (client_oid s) (disp s)\<rparr>)"

definition client_detach :: "bool \<Rightarrow> 'cb client \<Rightarrow> 'cb client" where
  "client_detach on_dispatcher_thread s =
     (case disp s of
        None \<Rightarrow> s
      | Some d \<Rightarrow>
          (case detach (client_oid s) d of
             (False, _) \<Rightarrow> s
           | (True, d) \<Rightarrow>
               let s = s\<lparr>disp := Some d\<rparr>
               in if on_dispatcher_thread \<or> \<not> exit_flag d then client_cleanup s else s))"

definition client_async_shutdown :: "bool \<Rightarrow> 'cb client \<Rightarrow> 'cb client" where
  "client_async_shutdown on_dispatcher_thread s =
     (if shutdown_started s then s
      else post_io Io_shutdown (client_detach on_dispatcher_thread (s\<lparr>shutdown_started := True\<rparr>)))"

section \<open>The client in its environment\<close>

fun is_signal_action :: "'cb client_action \<Rightarrow> bool" where
  "is_signal_action (D_signal _) = True"
| "is_signal_action _ = False"

text \<open>
  Any thread calls the public operations; a shutdown waits for a running function, or comes from
  inside its user callback. The worker takes functions and runs their actions; the executor runs
  its tasks; connects and request timers end; peers announce and their slots run; a peer that is
  no longer the client's may be destroyed, and its queued signals with it.
\<close>

inductive client_step ::
    "(peer_credentials \<Rightarrow> bool) \<Rightarrow> (path \<Rightarrow> error_code) \<Rightarrow> 'cb client \<Rightarrow> 'cb client \<Rightarrow> bool"
  for verify :: "peer_credentials \<Rightarrow> bool" and ep :: "path \<Rightarrow> error_code" where
  cl_start: "client_step verify ep s (client_async_start s)"
| cl_stop: "client_step verify ep s (client_async_stop s)"
| cl_invalidate: "client_step verify ep s (client_async_invalidate_connection s)"
| cl_send: "client_step verify ep s (client_async_send data s)"
| cl_respond: "client_step verify ep s (client_async_respond rid data s)"
| cl_request: "client_step verify ep s (client_async_request data cb s)"
| cl_shutdown: "\<forall>a \<in> set (thread s). \<not> is_signal_action a \<Longrightarrow>
    client_step verify ep s (client_async_shutdown on_thread s)"
| cl_take: "thread s = [] \<Longrightarrow> disp s = Some d \<Longrightarrow> worker_iteration now d = (Run e, d') \<Longrightarrow>
    object_id_value e = client_oid s \<Longrightarrow> clock_ok now \<Longrightarrow>
    client_step verify ep s
      (case call_function e d' of
         None \<Rightarrow> s\<lparr>disp := Some d'\<rparr> | Some f \<Rightarrow> begin_function f (s\<lparr>disp := Some d'\<rparr>))"
| cl_action: "thread s = a # as \<Longrightarrow> clock_ok now \<Longrightarrow>
    client_step verify ep s (run_action verify now a (s\<lparr>thread := as\<rparr>))"
| cl_io: "io s = t # ts \<Longrightarrow> client_step verify ep s (run_io ep t (s\<lparr>io := ts\<rparr>))"
| cl_connect_done: "connects s = xs @ (sk, t) # ys \<Longrightarrow> ec \<noteq> Operation_aborted \<Longrightarrow>
    client_step verify ep s
      (post_io (Io_connect_done sk t ec credentials) (s\<lparr>connects := xs @ ys\<rparr>))"
| cl_request_expires:
    "client_step verify ep s (s\<lparr>requests := timer_expires rid (requests s)\<rparr>)"
| cl_request_timer: "client_step verify ep s (io_request_timer s)"
| cl_peer_announces: "peer_session s p \<noteq> None \<Longrightarrow> (sig = Sig_closed \<Longrightarrow> p \<in> live_peers s) \<Longrightarrow>
    client_step verify ep s
      (s\<lparr>peer_signals := peer_signals s @ [(p, sig)],
         live_peers := (if sig = Sig_closed then live_peers s - {p} else live_peers s)\<rparr>)"
| cl_peer_slot: "thread s = [] \<Longrightarrow> peer_signals s = xs @ (p, sig) # ys \<Longrightarrow> p \<notin> fst ` set xs \<Longrightarrow>
    client_step verify ep s (peer_slot p sig (s\<lparr>peer_signals := xs @ ys\<rparr>))"
| cl_peer_gone: "client_peer s \<noteq> Some p \<Longrightarrow>
    client_step verify ep s
      (s\<lparr>peer_signals := filter (\<lambda>(q, _). q \<noteq> p) (peer_signals s), live_peers := live_peers s - {p}\<rparr>)"
| cl_other: "disp s = Some d \<Longrightarrow> other_objects (client_oid s) d d' \<Longrightarrow>
    client_step verify ep s (s\<lparr>disp := Some d'\<rparr>)"
| cl_dispatcher_gone: "client_step verify ep s (s\<lparr>disp := None\<rparr>)"

definition client_initial :: "'cb client \<Rightarrow> bool" where
  "client_initial s \<longleftrightarrow>
     (\<exists>p options oid d. s = new_client p options oid d \<and> dispatcher_inv d \<and> oid \<notin> object_ids d)"

end
