(* ===== verification/Client_Invariant.thy ===== *)
theory Client_Invariant
  imports Client
begin

text \<open>
  What every reachable client keeps. The invariant says who will make progress: while the client
  runs, either a connection attempt or a live connection of the current session exists, or
  something queued will start one.
\<close>

section \<open>Fields the operations leave alone\<close>

lemma to_dispatcher_fields [simp]:
  "client_path (to_dispatcher f s) = client_path s"
  "client_opts (to_dispatcher f s) = client_opts s"
  "scope (to_dispatcher f s) = scope s"
  "requests (to_dispatcher f s) = requests s"
  "connecting_socket (to_dispatcher f s) = connecting_socket s"
  "client_peer (to_dispatcher f s) = client_peer s"
  "shutdown_started (to_dispatcher f s) = shutdown_started s"
  "reconnect_task (to_dispatcher f s) = reconnect_task s"
  "client_oid (to_dispatcher f s) = client_oid s"
  "thread (to_dispatcher f s) = thread s"
  "io (to_dispatcher f s) = io s"
  "connects (to_dispatcher f s) = connects s"
  "next_ref (to_dispatcher f s) = next_ref s"
  "peer_session (to_dispatcher f s) = peer_session s"
  "live_peers (to_dispatcher f s) = live_peers s"
  "silenced_peers (to_dispatcher f s) = silenced_peers s"
  "peer_signals (to_dispatcher f s) = peer_signals s"
  "peer_calls (to_dispatcher f s) = peer_calls s"
  "client_log (to_dispatcher f s) = client_log s"
  "delivered (to_dispatcher f s) = delivered s"
  "sessions (to_dispatcher f s) = sessions s"
  by (simp_all add: to_dispatcher_def)

lemma notify_fields [simp]:
  "client_path (notify_only t n s) = client_path s"
  "client_opts (notify_only t n s) = client_opts s"
  "scope (notify_only t n s) = scope s"
  "requests (notify_only t n s) = requests s"
  "connecting_socket (notify_only t n s) = connecting_socket s"
  "client_peer (notify_only t n s) = client_peer s"
  "shutdown_started (notify_only t n s) = shutdown_started s"
  "reconnect_task (notify_only t n s) = reconnect_task s"
  "client_oid (notify_only t n s) = client_oid s"
  "thread (notify_only t n s) = thread s"
  "io (notify_only t n s) = io s"
  "connects (notify_only t n s) = connects s"
  "next_ref (notify_only t n s) = next_ref s"
  "peer_session (notify_only t n s) = peer_session s"
  "live_peers (notify_only t n s) = live_peers s"
  "silenced_peers (notify_only t n s) = silenced_peers s"
  "peer_signals (notify_only t n s) = peer_signals s"
  "peer_calls (notify_only t n s) = peer_calls s"
  "client_log (notify_only t n s) = client_log s"
  "delivered (notify_only t n s) = delivered s"
  "sessions (notify_only t n s) = sessions s"
  by (simp_all add: notify_only_def notify_def split: prod.split)

lemma post_io_fields [simp]:
  "client_path (post_io t s) = client_path s"
  "client_opts (post_io t s) = client_opts s"
  "scope (post_io t s) = scope s"
  "requests (post_io t s) = requests s"
  "connecting_socket (post_io t s) = connecting_socket s"
  "client_peer (post_io t s) = client_peer s"
  "shutdown_started (post_io t s) = shutdown_started s"
  "reconnect_task (post_io t s) = reconnect_task s"
  "client_oid (post_io t s) = client_oid s"
  "disp (post_io t s) = disp s"
  "thread (post_io t s) = thread s"
  "connects (post_io t s) = connects s"
  "next_ref (post_io t s) = next_ref s"
  "peer_session (post_io t s) = peer_session s"
  "live_peers (post_io t s) = live_peers s"
  "silenced_peers (post_io t s) = silenced_peers s"
  "peer_signals (post_io t s) = peer_signals s"
  "peer_calls (post_io t s) = peer_calls s"
  "client_log (post_io t s) = client_log s"
  "delivered (post_io t s) = delivered s"
  "sessions (post_io t s) = sessions s"
  "io (post_io t s) = io s @ [t]"
  by (simp_all add: post_io_def)

lemma call_peer_fields [simp]:
  "client_path (call_peer p c s) = client_path s"
  "client_opts (call_peer p c s) = client_opts s"
  "scope (call_peer p c s) = scope s"
  "requests (call_peer p c s) = requests s"
  "connecting_socket (call_peer p c s) = connecting_socket s"
  "client_peer (call_peer p c s) = client_peer s"
  "shutdown_started (call_peer p c s) = shutdown_started s"
  "reconnect_task (call_peer p c s) = reconnect_task s"
  "client_oid (call_peer p c s) = client_oid s"
  "disp (call_peer p c s) = disp s"
  "thread (call_peer p c s) = thread s"
  "io (call_peer p c s) = io s"
  "connects (call_peer p c s) = connects s"
  "next_ref (call_peer p c s) = next_ref s"
  "peer_session (call_peer p c s) = peer_session s"
  "live_peers (call_peer p c s) = live_peers s"
  "silenced_peers (call_peer p c s) = silenced_peers s"
  "peer_signals (call_peer p c s) = peer_signals s"
  "client_log (call_peer p c s) = client_log s"
  "delivered (call_peer p c s) = delivered s"
  "sessions (call_peer p c s) = sessions s"
  "peer_calls (call_peer p c s) = peer_calls s @ [(p, c)]"
  by (simp_all add: call_peer_def)

lemma enqueue_completions_fields [simp]:
  "client_path (enqueue_completions out s) = client_path s"
  "client_opts (enqueue_completions out s) = client_opts s"
  "scope (enqueue_completions out s) = scope s"
  "requests (enqueue_completions out s) = requests s"
  "connecting_socket (enqueue_completions out s) = connecting_socket s"
  "client_peer (enqueue_completions out s) = client_peer s"
  "shutdown_started (enqueue_completions out s) = shutdown_started s"
  "reconnect_task (enqueue_completions out s) = reconnect_task s"
  "client_oid (enqueue_completions out s) = client_oid s"
  "thread (enqueue_completions out s) = thread s"
  "io (enqueue_completions out s) = io s"
  "connects (enqueue_completions out s) = connects s"
  "next_ref (enqueue_completions out s) = next_ref s"
  "peer_session (enqueue_completions out s) = peer_session s"
  "live_peers (enqueue_completions out s) = live_peers s"
  "silenced_peers (enqueue_completions out s) = silenced_peers s"
  "peer_signals (enqueue_completions out s) = peer_signals s"
  "peer_calls (enqueue_completions out s) = peer_calls s"
  "client_log (enqueue_completions out s) = client_log s"
  "delivered (enqueue_completions out s) = delivered s"
  "sessions (enqueue_completions out s) = sessions s"
  by (induction out s rule: enqueue_completions.induct; simp)+

lemma with_requests_fields [simp]:
  "client_path (with_requests r s) = client_path s"
  "client_opts (with_requests r s) = client_opts s"
  "scope (with_requests r s) = scope s"
  "connecting_socket (with_requests r s) = connecting_socket s"
  "client_peer (with_requests r s) = client_peer s"
  "shutdown_started (with_requests r s) = shutdown_started s"
  "reconnect_task (with_requests r s) = reconnect_task s"
  "client_oid (with_requests r s) = client_oid s"
  "thread (with_requests r s) = thread s"
  "io (with_requests r s) = io s"
  "connects (with_requests r s) = connects s"
  "next_ref (with_requests r s) = next_ref s"
  "peer_session (with_requests r s) = peer_session s"
  "live_peers (with_requests r s) = live_peers s"
  "silenced_peers (with_requests r s) = silenced_peers s"
  "peer_signals (with_requests r s) = peer_signals s"
  "peer_calls (with_requests r s) = peer_calls s"
  "client_log (with_requests r s) = client_log s"
  "delivered (with_requests r s) = delivered s"
  "sessions (with_requests r s) = sessions s"
  "requests (with_requests r s) = fst r"
  by (simp_all add: with_requests_def)

lemma close_socket_ref_fields [simp]:
  "client_path (close_socket_ref sk s) = client_path s"
  "client_opts (close_socket_ref sk s) = client_opts s"
  "scope (close_socket_ref sk s) = scope s"
  "requests (close_socket_ref sk s) = requests s"
  "connecting_socket (close_socket_ref sk s) = connecting_socket s"
  "client_peer (close_socket_ref sk s) = client_peer s"
  "shutdown_started (close_socket_ref sk s) = shutdown_started s"
  "reconnect_task (close_socket_ref sk s) = reconnect_task s"
  "client_oid (close_socket_ref sk s) = client_oid s"
  "disp (close_socket_ref sk s) = disp s"
  "thread (close_socket_ref sk s) = thread s"
  "next_ref (close_socket_ref sk s) = next_ref s"
  "peer_session (close_socket_ref sk s) = peer_session s"
  "live_peers (close_socket_ref sk s) = live_peers s"
  "silenced_peers (close_socket_ref sk s) = silenced_peers s"
  "peer_signals (close_socket_ref sk s) = peer_signals s"
  "peer_calls (close_socket_ref sk s) = peer_calls s"
  "client_log (close_socket_ref sk s) = client_log s"
  "delivered (close_socket_ref sk s) = delivered s"
  "sessions (close_socket_ref sk s) = sessions s"
  by (simp_all add: close_socket_ref_def)

lemma close_connecting_socket_fields [simp]:
  "client_path (close_connecting_socket s) = client_path s"
  "client_opts (close_connecting_socket s) = client_opts s"
  "scope (close_connecting_socket s) = scope s"
  "requests (close_connecting_socket s) = requests s"
  "client_peer (close_connecting_socket s) = client_peer s"
  "shutdown_started (close_connecting_socket s) = shutdown_started s"
  "reconnect_task (close_connecting_socket s) = reconnect_task s"
  "client_oid (close_connecting_socket s) = client_oid s"
  "disp (close_connecting_socket s) = disp s"
  "thread (close_connecting_socket s) = thread s"
  "next_ref (close_connecting_socket s) = next_ref s"
  "peer_session (close_connecting_socket s) = peer_session s"
  "live_peers (close_connecting_socket s) = live_peers s"
  "silenced_peers (close_connecting_socket s) = silenced_peers s"
  "peer_signals (close_connecting_socket s) = peer_signals s"
  "peer_calls (close_connecting_socket s) = peer_calls s"
  "client_log (close_connecting_socket s) = client_log s"
  "delivered (close_connecting_socket s) = delivered s"
  "sessions (close_connecting_socket s) = sessions s"
  "connecting_socket (close_connecting_socket s) = None"
  by (simp_all add: close_connecting_socket_def split: option.split)

section \<open>The client's own queue\<close>

text \<open>
  The client's functions on the dispatcher, in the order of its queue; and those among them that
  ask the debounced task for a new call or cancel it.
\<close>

definition own :: "'cb client \<Rightarrow> 'cb client_function list" where
  "own s = owned (client_oid s) (disp s)"

fun is_control :: "'cb client_function \<Rightarrow> bool" where
  "is_control (Fn_debounced (Debounce_in_dispatcher _ _)) = True"
| "is_control (Fn_debounced Cancel_debounced) = True"
| "is_control _ = False"

definition control :: "'cb client \<Rightarrow> 'cb client_function list" where
  "control s = filter is_control (own s)"

definition alive :: "'cb client \<Rightarrow> bool" where
  "alive s \<longleftrightarrow> serves (client_oid s) (disp s)"

text \<open>Control functions are always enqueued for immediate execution.\<close>

fun debounce_time_ok :: "'cb client_function \<Rightarrow> bool" where
  "debounce_time_ok (Fn_debounced (Debounce_in_dispatcher _ w)) = (1 \<le> w)"
| "debounce_time_ok _ = True"

definition queue_ok :: "'cb client \<Rightarrow> bool" where
  "queue_ok s \<longleftrightarrow> immediate_class is_control debounce_time_ok (client_oid s) (disp s)"

lemmas own_unfold = own_def owned_def
lemmas alive_unfold = alive_def serves_def
lemmas queue_ok_unfold = queue_ok_def immediate_class_def

definition enqueue_own :: "'cb client_function \<Rightarrow> int \<Rightarrow> 'cb client \<Rightarrow> 'cb client" where
  "enqueue_own f w s = s\<lparr>disp := snd (enqueue_to_dispatcher (client_oid s) f w (disp s))\<rparr>"

lemma enqueue_own_alive:
  "alive s \<Longrightarrow> set (own (enqueue_own f w s)) = insert f (set (own s))"
  "\<not> alive s \<Longrightarrow> enqueue_own f w s = s"
  by (simp_all add: alive_def own_def enqueue_own_def)

lemma enqueue_own_keeps_alive [simp]: "alive (enqueue_own f w s) = alive s"
  by (simp add: alive_def enqueue_own_def)

lemma enqueue_own_queue_ok:
  assumes "queue_ok s" and "1 \<le> w" and "is_control f \<Longrightarrow> w = when_immediately \<and> debounce_time_ok f"
  shows "queue_ok (enqueue_own f w s)"
    and "control (enqueue_own f w s) = control s @ (if alive s \<and> is_control f then [f] else [])"
  using immediate_class_enqueue [of is_control debounce_time_ok "client_oid s" "disp s" w f] assms
  by (simp_all add: queue_ok_def control_def own_def alive_def enqueue_own_def)

text \<open>Every enqueue of the client is of this kind.\<close>

lemma to_dispatcher_own: "to_dispatcher f s = enqueue_own f when_immediately s"
  by (simp add: to_dispatcher_def enqueue_own_def)

lemma notify_own: "notify t n s = (alive s, enqueue_own (Fn_scoped t n) when_immediately s)"
  by (auto simp: notify_def scope_enqueue_def enqueue_own_def enqueue_to_dispatcher_def enqueue_def
      alive_unfold Let_def split: option.split)

lemma notify_only_own: "notify_only t n s = enqueue_own (Fn_scoped t n) when_immediately s"
  by (simp add: notify_only_def notify_own)

lemma cancel_own:
  "s\<lparr>disp := debounce_cancel Fn_debounced (client_oid s) (disp s)\<rparr> =
     enqueue_own (Fn_debounced Cancel_debounced) when_immediately s"
  by (simp add: debounce_cancel_def enqueue_own_def)

lemma schedule_own:
  "schedule_reconnect now s =
     (if scope_running (scope s)
      then enqueue_own (Fn_debounced (Debounce_in_dispatcher () (when_now now (disp s) +
             normalize_scheduling_interval (reconnect_interval (client_params (client_opts s))))))
             when_immediately s
      else s)"
  by (simp add: schedule_reconnect_def debounce_after_def debounce_at_def enqueue_own_def)

lemma enqueue_own_fields [simp]:
  "client_path (enqueue_own f w s) = client_path s"
  "client_opts (enqueue_own f w s) = client_opts s"
  "scope (enqueue_own f w s) = scope s"
  "requests (enqueue_own f w s) = requests s"
  "connecting_socket (enqueue_own f w s) = connecting_socket s"
  "client_peer (enqueue_own f w s) = client_peer s"
  "shutdown_started (enqueue_own f w s) = shutdown_started s"
  "reconnect_task (enqueue_own f w s) = reconnect_task s"
  "client_oid (enqueue_own f w s) = client_oid s"
  "thread (enqueue_own f w s) = thread s"
  "io (enqueue_own f w s) = io s"
  "connects (enqueue_own f w s) = connects s"
  "next_ref (enqueue_own f w s) = next_ref s"
  "peer_session (enqueue_own f w s) = peer_session s"
  "live_peers (enqueue_own f w s) = live_peers s"
  "silenced_peers (enqueue_own f w s) = silenced_peers s"
  "peer_signals (enqueue_own f w s) = peer_signals s"
  "peer_calls (enqueue_own f w s) = peer_calls s"
  "client_log (enqueue_own f w s) = client_log s"
  "delivered (enqueue_own f w s) = delivered s"
  "sessions (enqueue_own f w s) = sessions s"
  by (simp_all add: enqueue_own_def)

text \<open>The queue depends on the dispatcher and the object id only.\<close>

lemma queue_cong:
  assumes "disp t = disp s" and "client_oid t = client_oid s"
  shows "own t = own s" "control t = control s" "alive t = alive s" "queue_ok t = queue_ok s"
  using assms by (cases "disp s"; simp add: own_unfold control_def alive_unfold queue_ok_unfold)+

section \<open>The invariant\<close>

abbreviation now_token :: "'cb client \<Rightarrow> token" where
  "now_token s \<equiv> generation (scope s)"

text \<open>A close of everything is under way: posted, or about to be by the running function.\<close>

fun closing_task :: "'cb io_task \<Rightarrow> bool" where
  "closing_task Io_stop = True"
| "closing_task (Io_invalidate _) = True"
| "closing_task Io_shutdown = True"
| "closing_task _ = False"

definition closing_thread :: "'cb client \<Rightarrow> bool" where
  "closing_thread s \<longleftrightarrow> D_post_stop \<in> set (thread s) \<or> D_post_invalidate \<in> set (thread s)"

definition client_closing :: "'cb client \<Rightarrow> bool" where
  "client_closing s \<longleftrightarrow> closing_thread s \<or> (\<exists>t \<in> set (io s). closing_task t)"

text \<open>A running function has the shapes the code gives it.\<close>

fun thread_ok :: "'cb client_action list \<Rightarrow> bool" where
  "thread_ok [] = True"
| "thread_ok (D_cancel_reconnect # as) = (as = [D_post_stop] \<or> as = [D_post_invalidate])"
| "thread_ok (D_signal sig # as) = (as = [] \<or> as = [D_schedule_reconnect])"
| "thread_ok (a # as) = (as = [])"

text \<open>No close is posted after a connect of the current session.\<close>

fun connects_last :: "token \<Rightarrow> 'cb io_task list \<Rightarrow> bool" where
  "connects_last c [] = True"
| "connects_last c (t # ts) = ((t = Io_connect c \<longrightarrow> (\<forall>u \<in> set ts. \<not> closing_task u)) \<and> connects_last c ts)"

text \<open>
  The connection attempts (a socket and the token it was started with) that queued functions and
  tasks are about; and a connection attempt and a connection of the current session that will
  go on.
\<close>

fun task_attempts :: "'cb io_task \<Rightarrow> (socket_ref \<times> token) set" where
  "task_attempts (Io_connect_done sk t _ _) = {(sk, t)}"
| "task_attempts (Io_handle_connected sk _ _ t) = {(sk, t)}"
| "task_attempts _ = {}"

fun function_attempts :: "'cb client_function \<Rightarrow> (socket_ref \<times> token) set" where
  "function_attempts (Fn_scoped _ (N_verify sk _ t)) = {(sk, t)}"
| "function_attempts _ = {}"

fun action_attempts :: "'cb client_action \<Rightarrow> (socket_ref \<times> token) set" where
  "action_attempts (D_verify sk _ t) = {(sk, t)}"
| "action_attempts _ = {}"

definition attempts :: "'cb client \<Rightarrow> (socket_ref \<times> token) set" where
  "attempts s =
     set (connects s) \<union> (\<Union>t \<in> set (io s). task_attempts t) \<union>
     (\<Union>f \<in> set (own s). function_attempts f) \<union> (\<Union>a \<in> set (thread s). action_attempts a)"

definition attempt_live :: "'cb client \<Rightarrow> socket_ref \<Rightarrow> bool" where
  "attempt_live s sk \<longleftrightarrow>
     (sk, now_token s) \<in> set (connects s) \<or>
     (\<exists>t \<in> set (io s). (sk, now_token s) \<in> task_attempts t) \<or>
     (\<exists>credentials. Fn_scoped (now_token s) (N_verify sk credentials (now_token s)) \<in> set (own s)) \<or>
     (\<exists>a \<in> set (thread s). (sk, now_token s) \<in> action_attempts a)"

definition peer_live :: "'cb client \<Rightarrow> peer_ref \<Rightarrow> bool" where
  "peer_live s p \<longleftrightarrow>
     (\<exists>credentials. peer_session s p = Some (now_token s, credentials)) \<and> p \<notin> silenced_peers s \<and>
     (p \<in> live_peers s \<or> (p, Sig_closed) \<in> set (peer_signals s) \<or>
      Io_peer_closed p (now_token s) \<in> set (io s))"

text \<open>A reconnect is scheduled and no cancellation is queued behind it.\<close>

definition reconnect_scheduled :: "'cb client \<Rightarrow> bool" where
  "reconnect_scheduled s \<longleftrightarrow>
     retry_scheduled Fn_debounced (client_oid s) (disp s) (reconnect_task s)"

interpretation reconnect_retry: retry_task Fn_debounced
  by unfold_locales simp

lemma reconnect_control: "retry_control Fn_debounced = is_control" "retry_due Fn_debounced = debounce_time_ok"
proof -
  have "retry_control Fn_debounced f = is_control f \<and> retry_due Fn_debounced f = debounce_time_ok f"
    for f :: "'cb client_function"
    by (cases f rule: is_control.cases)
       (auto simp: retry_control_def retry_due_def)
  then show "retry_control Fn_debounced = (is_control :: 'cb client_function \<Rightarrow> bool)"
    "retry_due Fn_debounced = (debounce_time_ok :: 'cb client_function \<Rightarrow> bool)" by blast+
qed

lemma reconnect_scheduled_unfold:
  "reconnect_scheduled s \<longleftrightarrow>
     (if control s = []
      then Fn_debounced (Debounced_call (dt_generation (reconnect_task s)) ()) \<in> set (own s)
      else last (control s) \<noteq> Fn_debounced Cancel_debounced)"
  by (simp add: reconnect_scheduled_def retry_scheduled_def reconnect_control control_def own_def Let_def)

fun retries :: "client_notification \<Rightarrow> bool" where
  "retries (N_connect_failed _) = True"
| "retries N_schedule_reconnect = True"
| "retries (N_peer_verification_failed _) = True"
| "retries (N_closed _) = True"
| "retries _ = False"

text \<open>Something queued will start a connection attempt of the current session.\<close>

definition recovering :: "'cb client \<Rightarrow> bool" where
  "recovering s \<longleftrightarrow>
     D_connect \<in> set (thread s) \<or> D_schedule_reconnect \<in> set (thread s) \<or>
     D_post_invalidate \<in> set (thread s) \<or>
     Io_connect (now_token s) \<in> set (io s) \<or> Io_invalidate (now_token s) \<in> set (io s) \<or>
     (\<exists>n. retries n \<and> Fn_scoped (now_token s) n \<in> set (own s)) \<or>
     reconnect_scheduled s"

definition progressing :: "'cb client \<Rightarrow> bool" where
  "progressing s \<longleftrightarrow> connecting_socket s \<noteq> None \<or> client_peer s \<noteq> None"

text \<open>The request tokens: the timeout of a pending request belongs to the current session.\<close>

definition request_tokens_ok :: "'cb client \<Rightarrow> bool" where
  "request_tokens_ok s \<longleftrightarrow>
     (\<forall>rid tc. (rid, tc) \<in> set (waiting (requests s)) \<union> set (expired (requests s)) \<longrightarrow>
        unat rid \<le> unat (next_request_id (requests s)) \<and>
        (rid \<in> map_keys (pending_requests (requests s)) \<longrightarrow> tc = Some (now_token s) \<or> client_closing s))"

definition requests_made :: "'cb client \<Rightarrow> nat" where
  "requests_made s =
     length (filter (\<lambda>(_, c). case c of Peer_send_request _ _ \<Rightarrow> True | _ \<Rightarrow> False) (peer_calls s))"

text \<open>The session and request counters have not wrapped around.\<close>

definition within_bounds :: "'cb client \<Rightarrow> bool" where
  "within_bounds s \<longleftrightarrow> sessions s < 2 ^ 64 \<and> requests_made s < 2 ^ 64"

text \<open>Counters and shapes.\<close>

definition order_inv :: "'cb client \<Rightarrow> bool" where
  "order_inv s \<longleftrightarrow>
     queue_ok s \<and> thread_ok (thread s) \<and>
     now_token s = of_nat (sessions s) \<and>
     (\<forall>t. Io_connect t \<in> set (io s) \<longrightarrow> unat t \<le> sessions s) \<and>
     (D_post_stop \<in> set (thread s) \<longrightarrow> \<not> scope_running (scope s)) \<and>
     (Io_shutdown \<in> set (io s) \<longrightarrow> \<not> alive s)"

text \<open>Identities are fresh, and tasks about a socket or a peer carry its token.\<close>

definition refs_inv :: "'cb client \<Rightarrow> bool" where
  "refs_inv s \<longleftrightarrow>
     (\<forall>(sk, t) \<in> attempts s. sk < next_ref s) \<and>
     (\<forall>sk t t'. (sk, t) \<in> attempts s \<longrightarrow> (sk, t') \<in> attempts s \<longrightarrow> t = t') \<and>
     (\<forall>p \<in> silenced_peers s. p < next_ref s) \<and>
     (\<forall>p. peer_session s p \<noteq> None \<longrightarrow> p < next_ref s) \<and>
     (\<forall>p. client_peer s = Some p \<longrightarrow> peer_session s p \<noteq> None) \<and>
     (\<forall>p t. Io_peer_closed p t \<in> set (io s) \<longrightarrow> map_option fst (peer_session s p) = Some t)"

text \<open>What the client holds.\<close>

definition requests_inv :: "'cb client \<Rightarrow> bool" where
  "requests_inv s \<longleftrightarrow>
     rm_inv (requests s) \<and>
     (client_peer s = None \<longrightarrow> pending_requests (requests s) = []) \<and>
     next_request_id (requests s) = of_nat (requests_made s) \<and>
     request_tokens_ok s"

definition holding_inv :: "'cb client \<Rightarrow> bool" where
  "holding_inv s \<longleftrightarrow>
     (connecting_socket s = None \<or> client_peer s = None) \<and>
     (\<not> scope_running (scope s) \<longrightarrow> client_closing s \<or> \<not> progressing s)"

text \<open>What goes on as long as the dispatcher serves the client.\<close>

definition going_inv :: "'cb client \<Rightarrow> bool" where
  "going_inv s \<longleftrightarrow>
     connects_last (now_token s) (io s) \<and>
     (closing_thread s \<longrightarrow> Io_connect (now_token s) \<notin> set (io s)) \<and>
     (\<forall>sk. connecting_socket s = Some sk \<longrightarrow> client_closing s \<or> attempt_live s sk) \<and>
     (\<forall>p. client_peer s = Some p \<longrightarrow> client_closing s \<or> peer_live s p) \<and>
     (scope_running (scope s) \<longrightarrow> recovering s \<or> \<not> client_closing s \<and> progressing s)"

definition base_inv :: "'cb client \<Rightarrow> bool" where
  "base_inv s \<longleftrightarrow> order_inv s \<and> refs_inv s \<and> requests_inv s \<and> holding_inv s"

definition client_inv :: "'cb client \<Rightarrow> bool" where
  "client_inv s \<longleftrightarrow> base_inv s \<and> (alive s \<longrightarrow> going_inv s)"

section \<open>What the invariant depends on\<close>

text \<open>Tasks and functions that no part of the invariant mentions.\<close>

fun idle_task :: "'cb io_task \<Rightarrow> bool" where
  "idle_task (Io_connect _) = False"
| "idle_task (Io_connect_done _ _ _ _) = False"
| "idle_task (Io_handle_connected _ _ _ _) = False"
| "idle_task Io_stop = False"
| "idle_task (Io_invalidate _) = False"
| "idle_task Io_shutdown = False"
| "idle_task (Io_peer_closed _ _) = False"
| "idle_task _ = True"

fun idle_function :: "'cb client_function \<Rightarrow> bool" where
  "idle_function (Fn_scoped _ (N_verify _ _ _)) = False"
| "idle_function (Fn_scoped _ n) = (\<not> retries n)"
| "idle_function (Fn_debounced _) = False"
| "idle_function _ = True"

lemma idle_task_simps:
  "idle_task t \<Longrightarrow> \<not> closing_task t" "idle_task t \<Longrightarrow> task_attempts t = {}"
  "idle_task t \<Longrightarrow> t \<noteq> Io_connect c"
  by (cases t; simp)+

definition busy_io :: "'cb client \<Rightarrow> 'cb io_task list" where
  "busy_io s = filter (\<lambda>t. \<not> idle_task t) (io s)"

definition busy_own :: "'cb client \<Rightarrow> 'cb client_function list" where
  "busy_own s = filter (\<lambda>f. \<not> idle_function f) (own s)"

lemma connects_last_busy: "connects_last c ts \<longleftrightarrow> connects_last c (filter (\<lambda>t. \<not> idle_task t) ts)"
  by (induction ts) (auto simp: idle_task_simps)

lemma busy_io_mem: "\<not> idle_task t \<Longrightarrow> t \<in> set (io s) \<longleftrightarrow> t \<in> set (busy_io s)"
  by (simp add: busy_io_def)

lemma busy_own_mem: "\<not> idle_function f \<Longrightarrow> f \<in> set (own s) \<longleftrightarrow> f \<in> set (busy_own s)"
  by (simp add: busy_own_def)

lemma closing_busy: "(\<exists>t \<in> set (io s). closing_task t) \<longleftrightarrow> (\<exists>t \<in> set (busy_io s). closing_task t)"
  by (auto simp: busy_io_def idle_task_simps)

lemma attempts_busy_io: "(\<Union>t \<in> set (io s). task_attempts t) = (\<Union>t \<in> set (busy_io s). task_attempts t)"
  by (auto simp: busy_io_def idle_task_simps)

lemma idle_function_attempts: "idle_function f \<Longrightarrow> function_attempts f = {}"
  by (cases f rule: idle_function.cases) auto

lemma attempts_busy_own:
  "(\<Union>f \<in> set (own s). function_attempts f) = (\<Union>f \<in> set (busy_own s). function_attempts f)"
  by (auto simp: busy_own_def idle_function_attempts)

lemma control_busy: "control s = filter is_control (busy_own s)"
proof -
  have "is_control f \<Longrightarrow> \<not> idle_function f" for f :: "'a client_function"
    by (cases f rule: is_control.cases) auto
  then show ?thesis
    unfolding control_def busy_own_def filter_filter by (intro filter_cong) auto
qed

lemma retries_busy: "retries n \<Longrightarrow> \<not> idle_function (Fn_scoped t n)"
  by (cases n) simp_all

text \<open>Two clients with the same of all this (and their requests in order) share the invariant.\<close>

definition same_view :: "'cb client \<Rightarrow> 'cb client \<Rightarrow> bool" where
  "same_view s t \<longleftrightarrow>
     scope t = scope s \<and> sessions t = sessions s \<and> connecting_socket t = connecting_socket s \<and>
     client_peer t = client_peer s \<and> thread t = thread s \<and> connects t = connects s \<and>
     next_ref t = next_ref s \<and> peer_session t = peer_session s \<and> live_peers t = live_peers s \<and>
     silenced_peers t = silenced_peers s \<and> set (peer_signals t) = set (peer_signals s) \<and>
     reconnect_task t = reconnect_task s \<and> busy_io t = busy_io s \<and> busy_own t = busy_own s \<and>
     (alive t \<longrightarrow> alive s)"

lemma same_view_closing: "same_view s t \<Longrightarrow> client_closing t = client_closing s"
  by (simp add: client_closing_def closing_thread_def closing_busy same_view_def)

lemma same_view_attempts: "same_view s t \<Longrightarrow> attempts t = attempts s"
  by (simp add: attempts_def attempts_busy_io attempts_busy_own same_view_def)

lemma same_view_recovering:
  assumes "same_view s t"
  shows "recovering t = recovering s"
proof -
  have "control t = control s"
    using assms by (simp add: control_busy same_view_def)
  moreover have "f \<in> set (own t) \<longleftrightarrow> f \<in> set (own s)" if "\<not> idle_function f" for f
    using assms that by (simp add: busy_own_mem same_view_def)
  moreover have "u \<in> set (io t) \<longleftrightarrow> u \<in> set (io s)" if "\<not> idle_task u" for u
    using assms that by (simp add: busy_io_mem same_view_def)
  ultimately show ?thesis
    using assms retries_busy by (simp add: recovering_def reconnect_scheduled_unfold same_view_def) blast
qed

end
