(* ===== verification/Client_Steps.thy ===== *)
theory Client_Steps
  imports Client_Invariant
begin

text \<open>
  The client's invariant holds initially and every step keeps it: first what the operations do to
  the queue, then the steps that the invariant does not see, then the others one by one.
\<close>

section \<open>Operations that leave the queue alone\<close>

lemma own_update [simp]:
  "own (s\<lparr>scope := ns\<rparr>) = own s"
  "own (s\<lparr>requests := rm\<rparr>) = own s"
  "own (s\<lparr>connecting_socket := cs\<rparr>) = own s"
  "own (s\<lparr>client_peer := cp\<rparr>) = own s"
  "own (s\<lparr>shutdown_started := sd\<rparr>) = own s"
  "own (s\<lparr>reconnect_task := dt\<rparr>) = own s"
  "own (s\<lparr>thread := as\<rparr>) = own s"
  "own (s\<lparr>io := ts\<rparr>) = own s"
  "own (s\<lparr>connects := xs\<rparr>) = own s"
  "own (s\<lparr>next_ref := n\<rparr>) = own s"
  "own (s\<lparr>peer_session := ps\<rparr>) = own s"
  "own (s\<lparr>live_peers := lp\<rparr>) = own s"
  "own (s\<lparr>silenced_peers := sp\<rparr>) = own s"
  "own (s\<lparr>peer_signals := sg\<rparr>) = own s"
  "own (s\<lparr>peer_calls := pc\<rparr>) = own s"
  "own (s\<lparr>client_log := lg\<rparr>) = own s"
  "own (s\<lparr>delivered := dl\<rparr>) = own s"
  "own (s\<lparr>sessions := k\<rparr>) = own s"
  "own (post_io t s) = own s"
  "own (call_peer p c s) = own s"
  "own (close_socket_ref sk s) = own s"
  "own (close_connecting_socket s) = own s"
  by (simp_all add: own_unfold split: option.split)

lemma control_update [simp]:
  "control (s\<lparr>scope := ns\<rparr>) = control s"
  "control (s\<lparr>requests := rm\<rparr>) = control s"
  "control (s\<lparr>connecting_socket := cs\<rparr>) = control s"
  "control (s\<lparr>client_peer := cp\<rparr>) = control s"
  "control (s\<lparr>shutdown_started := sd\<rparr>) = control s"
  "control (s\<lparr>reconnect_task := dt\<rparr>) = control s"
  "control (s\<lparr>thread := as\<rparr>) = control s"
  "control (s\<lparr>io := ts\<rparr>) = control s"
  "control (s\<lparr>connects := xs\<rparr>) = control s"
  "control (s\<lparr>next_ref := n\<rparr>) = control s"
  "control (s\<lparr>peer_session := ps\<rparr>) = control s"
  "control (s\<lparr>live_peers := lp\<rparr>) = control s"
  "control (s\<lparr>silenced_peers := sp\<rparr>) = control s"
  "control (s\<lparr>peer_signals := sg\<rparr>) = control s"
  "control (s\<lparr>peer_calls := pc\<rparr>) = control s"
  "control (s\<lparr>client_log := lg\<rparr>) = control s"
  "control (s\<lparr>delivered := dl\<rparr>) = control s"
  "control (s\<lparr>sessions := k\<rparr>) = control s"
  "control (post_io t s) = control s"
  "control (call_peer p c s) = control s"
  "control (close_socket_ref sk s) = control s"
  "control (close_connecting_socket s) = control s"
  by (simp_all add: control_def split: option.split)

lemma alive_update [simp]:
  "alive (s\<lparr>scope := ns\<rparr>) = alive s"
  "alive (s\<lparr>requests := rm\<rparr>) = alive s"
  "alive (s\<lparr>connecting_socket := cs\<rparr>) = alive s"
  "alive (s\<lparr>client_peer := cp\<rparr>) = alive s"
  "alive (s\<lparr>shutdown_started := sd\<rparr>) = alive s"
  "alive (s\<lparr>reconnect_task := dt\<rparr>) = alive s"
  "alive (s\<lparr>thread := as\<rparr>) = alive s"
  "alive (s\<lparr>io := ts\<rparr>) = alive s"
  "alive (s\<lparr>connects := xs\<rparr>) = alive s"
  "alive (s\<lparr>next_ref := n\<rparr>) = alive s"
  "alive (s\<lparr>peer_session := ps\<rparr>) = alive s"
  "alive (s\<lparr>live_peers := lp\<rparr>) = alive s"
  "alive (s\<lparr>silenced_peers := sp\<rparr>) = alive s"
  "alive (s\<lparr>peer_signals := sg\<rparr>) = alive s"
  "alive (s\<lparr>peer_calls := pc\<rparr>) = alive s"
  "alive (s\<lparr>client_log := lg\<rparr>) = alive s"
  "alive (s\<lparr>delivered := dl\<rparr>) = alive s"
  "alive (s\<lparr>sessions := k\<rparr>) = alive s"
  "alive (post_io t s) = alive s"
  "alive (call_peer p c s) = alive s"
  "alive (close_socket_ref sk s) = alive s"
  "alive (close_connecting_socket s) = alive s"
  by (simp_all add: alive_unfold split: option.split)

lemma queue_ok_update [simp]:
  "queue_ok (s\<lparr>scope := ns\<rparr>) = queue_ok s"
  "queue_ok (s\<lparr>requests := rm\<rparr>) = queue_ok s"
  "queue_ok (s\<lparr>connecting_socket := cs\<rparr>) = queue_ok s"
  "queue_ok (s\<lparr>client_peer := cp\<rparr>) = queue_ok s"
  "queue_ok (s\<lparr>shutdown_started := sd\<rparr>) = queue_ok s"
  "queue_ok (s\<lparr>reconnect_task := dt\<rparr>) = queue_ok s"
  "queue_ok (s\<lparr>thread := as\<rparr>) = queue_ok s"
  "queue_ok (s\<lparr>io := ts\<rparr>) = queue_ok s"
  "queue_ok (s\<lparr>connects := xs\<rparr>) = queue_ok s"
  "queue_ok (s\<lparr>next_ref := n\<rparr>) = queue_ok s"
  "queue_ok (s\<lparr>peer_session := ps\<rparr>) = queue_ok s"
  "queue_ok (s\<lparr>live_peers := lp\<rparr>) = queue_ok s"
  "queue_ok (s\<lparr>silenced_peers := sp\<rparr>) = queue_ok s"
  "queue_ok (s\<lparr>peer_signals := sg\<rparr>) = queue_ok s"
  "queue_ok (s\<lparr>peer_calls := pc\<rparr>) = queue_ok s"
  "queue_ok (s\<lparr>client_log := lg\<rparr>) = queue_ok s"
  "queue_ok (s\<lparr>delivered := dl\<rparr>) = queue_ok s"
  "queue_ok (s\<lparr>sessions := k\<rparr>) = queue_ok s"
  "queue_ok (post_io t s) = queue_ok s"
  "queue_ok (call_peer p c s) = queue_ok s"
  "queue_ok (close_socket_ref sk s) = queue_ok s"
  "queue_ok (close_connecting_socket s) = queue_ok s"
  by (simp_all add: queue_ok_unfold split: option.split)

lemma requests_made_update [simp]:
  "requests_made (s\<lparr>scope := ns\<rparr>) = requests_made s"
  "requests_made (s\<lparr>requests := rm\<rparr>) = requests_made s"
  "requests_made (s\<lparr>connecting_socket := cs\<rparr>) = requests_made s"
  "requests_made (s\<lparr>client_peer := cp\<rparr>) = requests_made s"
  "requests_made (s\<lparr>shutdown_started := sd\<rparr>) = requests_made s"
  "requests_made (s\<lparr>reconnect_task := dt\<rparr>) = requests_made s"
  "requests_made (s\<lparr>thread := as\<rparr>) = requests_made s"
  "requests_made (s\<lparr>io := ts\<rparr>) = requests_made s"
  "requests_made (s\<lparr>connects := xs\<rparr>) = requests_made s"
  "requests_made (s\<lparr>next_ref := n\<rparr>) = requests_made s"
  "requests_made (s\<lparr>peer_session := ps\<rparr>) = requests_made s"
  "requests_made (s\<lparr>live_peers := lp\<rparr>) = requests_made s"
  "requests_made (s\<lparr>silenced_peers := sp\<rparr>) = requests_made s"
  "requests_made (s\<lparr>peer_signals := sg\<rparr>) = requests_made s"
  "requests_made (s\<lparr>client_log := lg\<rparr>) = requests_made s"
  "requests_made (s\<lparr>delivered := dl\<rparr>) = requests_made s"
  "requests_made (s\<lparr>sessions := k\<rparr>) = requests_made s"
  "requests_made (post_io t s) = requests_made s"
  "requests_made (close_socket_ref sk s) = requests_made s"
  "requests_made (close_connecting_socket s) = requests_made s"
  "requests_made (enqueue_own f w s) = requests_made s"
  "requests_made (with_requests r s) = requests_made s"
  "requests_made (s\<lparr>disp := d\<rparr>) = requests_made s"
  by (simp_all add: requests_made_def)

section \<open>Enqueuing\<close>

lemma set_own_enqueue [simp]:
  "set (own (enqueue_own f w s)) = (if alive s then insert f (set (own s)) else set (own s))"
  by (simp add: own_def alive_def enqueue_own_def)

lemma busy_own_enqueue:
  assumes "idle_function f" and "1 \<le> w"
  shows "busy_own (enqueue_own f w s) = busy_own s"
  using assms filter_owned_other [of "\<lambda>f. \<not> idle_function f" f w "client_oid s" "disp s"]
  by (simp add: busy_own_def own_def enqueue_own_def when_internal_detached_def)

lemma idle_not_control: "idle_function f \<Longrightarrow> \<not> is_control f"
  by (cases f rule: idle_function.cases) auto

lemma enqueue_idle:
  assumes "idle_function f" and "1 \<le> w" and "queue_ok s"
  shows "same_view s (enqueue_own f w s)" "queue_ok (enqueue_own f w s)"
  using assms enqueue_own_queue_ok(1) [OF assms(3,2), of f]
  by (auto simp: same_view_def busy_own_enqueue idle_not_control busy_io_def)

lemma same_view_refl [simp]: "same_view s s"
  by (simp add: same_view_def)

lemma same_view_trans: "same_view s t \<Longrightarrow> same_view t u \<Longrightarrow> same_view s u"
  by (simp add: same_view_def)

lemma enqueue_completions_view:
  "queue_ok s \<Longrightarrow> same_view s (enqueue_completions out s) \<and> queue_ok (enqueue_completions out s)"
proof (induction out s rule: enqueue_completions.induct)
  case (2 cb ec data out s)
  then show ?case
    using enqueue_idle [of "Fn_callback cb ec data" when_immediately s]
    by (auto simp: to_dispatcher_own intro: same_view_trans)
qed simp

lemma enqueue_completions_alive [simp]: "alive (enqueue_completions out s) = alive s"
  by (induction out s rule: enqueue_completions.induct) (auto simp: to_dispatcher_own)

lemma enqueue_completions_own:
  "set (own s) \<subseteq> set (own (enqueue_completions out s)) \<and>
   set (own (enqueue_completions out s)) \<subseteq> set (own s) \<union> range (\<lambda>(cb, ec, data). Fn_callback cb ec data)"
proof (induction out s rule: enqueue_completions.induct)
  case (2 cb ec data out s)
  have "Fn_callback cb ec data = (\<lambda>(cb, ec, data). Fn_callback cb ec data) (cb, ec, data)" by simp
  then have "Fn_callback cb ec data \<in> range (\<lambda>(cb, ec, data). Fn_callback cb ec data)" by blast
  then show ?case
    using 2 by (simp add: to_dispatcher_own split: if_splits) blast
qed simp

lemma with_requests_alive [simp]: "alive (with_requests r s) = alive s"
  by (simp add: with_requests_def)

lemma with_requests_view:
  assumes "queue_ok s"
  shows "same_view s (with_requests r s)" "queue_ok (with_requests r s)"
proof -
  have "same_view s (s\<lparr>requests := fst r\<rparr>)"
    by (simp add: same_view_def busy_io_def busy_own_def)
  then show "same_view s (with_requests r s)" "queue_ok (with_requests r s)"
    using enqueue_completions_view [of "s\<lparr>requests := fst r\<rparr>" "snd r"] assms same_view_trans
    by (auto simp: with_requests_def)
qed

section \<open>Steps the invariant does not see\<close>

lemma busy_io_update [simp]: "busy_io (s\<lparr>io := ts\<rparr>) = filter (\<lambda>t. \<not> idle_task t) ts"
  by (simp add: busy_io_def)

lemma view_inv:
  assumes inv: "client_inv s" and view: "same_view s t" and "queue_ok t" and "requests_inv t"
  shows "client_inv t"
proof -
  note closing = same_view_closing [OF view] and recovering = same_view_recovering [OF view]
    and attempts = same_view_attempts [OF view]
  have io: "u \<in> set (io t) \<longleftrightarrow> u \<in> set (io s)" if "\<not> idle_task u" for u
    using view that by (simp add: busy_io_mem same_view_def)
  have tasks: "(\<exists>u \<in> set (io t). x \<in> task_attempts u) \<longleftrightarrow> (\<exists>u \<in> set (io s). x \<in> task_attempts u)" for x
  proof -
    have "busy_io t = busy_io s"
      using view by (simp add: same_view_def)
    then have "(\<Union>u \<in> set (io t). task_attempts u) = (\<Union>u \<in> set (io s). task_attempts u)"
      by (simp only: attempts_busy_io)
    then show ?thesis by blast
  qed
  have own: "f \<in> set (own t) \<longleftrightarrow> f \<in> set (own s)" if "\<not> idle_function f" for f
    using view that by (simp add: busy_own_mem same_view_def)
  have last: "connects_last c (io t) = connects_last c (io s)" for c
    using view by (simp add: connects_last_busy [of c "io t"] connects_last_busy [of c "io s"]
        same_view_def busy_io_def)
  have "attempt_live t sk = attempt_live s sk" for sk
    using view tasks own by (simp add: attempt_live_def same_view_def)
  moreover have "peer_live t p = peer_live s p" for p
    using view io by (simp add: peer_live_def same_view_def)
  moreover have "closing_thread t = closing_thread s" "progressing t = progressing s"
    using view by (simp_all add: closing_thread_def progressing_def same_view_def)
  ultimately have going: "going_inv s \<Longrightarrow> going_inv t"
    using view io last closing recovering by (simp add: going_inv_def same_view_def)
  have "order_inv t"
    using inv view io assms(3) by (auto simp: client_inv_def base_inv_def order_inv_def same_view_def)
  moreover have "refs_inv t"
    using inv view io attempts by (simp add: client_inv_def base_inv_def refs_inv_def same_view_def)
  moreover have "holding_inv t"
    using inv view closing by (simp add: client_inv_def base_inv_def holding_inv_def same_view_def progressing_def)
  ultimately show ?thesis
    using inv view going assms(4) by (auto simp: client_inv_def base_inv_def same_view_def)
qed

text \<open>Requests: the same ones, or fewer.\<close>

lemma requests_fewer:
  assumes inv: "requests_inv s"
    and "rm_inv (requests t)"
    and "map_keys (pending_requests (requests t)) \<subseteq> map_keys (pending_requests (requests s))"
    and "set (waiting (requests t)) \<union> set (expired (requests t)) \<subseteq>
         set (waiting (requests s)) \<union> set (expired (requests s))"
    and "next_request_id (requests t) = next_request_id (requests s)"
    and "requests_made t = requests_made s" and "now_token t = now_token s"
    and "client_closing s \<longrightarrow> client_closing t \<or> pending_requests (requests t) = []"
    and "client_peer t = None \<longrightarrow> client_peer s = None \<or> pending_requests (requests t) = []"
  shows "requests_inv t"
proof -
  have "pending_requests (requests t) = []" if "pending_requests (requests s) = []"
    using that assms(3) by (simp add: map_keys_def)
  moreover have "tc = Some (now_token t) \<or> client_closing t"
    if "(rid, tc) \<in> set (waiting (requests t)) \<union> set (expired (requests t))"
      and "rid \<in> map_keys (pending_requests (requests t))" for rid tc
  proof -
    have "pending_requests (requests t) \<noteq> []"
      using that(2) by auto
    moreover have "request_tokens_ok s"
      using inv by (simp add: requests_inv_def)
    then have "tc = Some (now_token s) \<or> client_closing s"
      using that assms(3,4) unfolding request_tokens_ok_def by blast
    ultimately show ?thesis using assms(7,8) by auto
  qed
  moreover have "unat rid \<le> unat (next_request_id (requests t))"
    if "(rid, tc) \<in> set (waiting (requests t)) \<union> set (expired (requests t))" for rid tc
    using that inv assms(4,5) by (auto simp: requests_inv_def request_tokens_ok_def)
  ultimately show ?thesis
    using assms(2,5,6,9) inv by (auto simp: requests_inv_def request_tokens_ok_def)
qed

lemma requests_same:
  assumes "requests_inv s" and "requests t = requests s" and "requests_made t = requests_made s"
    and "now_token t = now_token s"
    and "client_closing s \<longrightarrow> client_closing t \<or> pending_requests (requests t) = []"
    and "client_peer t = None \<longrightarrow> client_peer s = None \<or> pending_requests (requests t) = []"
  shows "requests_inv t"
  using assms by (intro requests_fewer [of s t]) (auto simp: requests_inv_def)

lemma requests_made_call [simp]:
  "requests_made (call_peer p c s) =
     requests_made s + (case c of Peer_send_request _ _ \<Rightarrow> 1 | _ \<Rightarrow> 0)"
  by (cases c) (simp_all add: requests_made_def)

lemma requests_of_inv: "client_inv s \<Longrightarrow> requests_inv s"
  by (simp add: client_inv_def base_inv_def)

lemma queue_of_inv: "client_inv s \<Longrightarrow> queue_ok s"
  by (simp add: client_inv_def base_inv_def order_inv_def)

lemma idle_inv:
  assumes "client_inv s" and "same_view s t" and "queue_ok t" and "requests t = requests s"
    and "requests_made t = requests_made s"
  shows "client_inv t"
proof -
  have "now_token t = now_token s" "client_peer t = client_peer s"
    using assms(2) by (simp_all add: same_view_def)
  then have "requests_inv t"
    using requests_same [OF requests_of_inv [OF assms(1)] assms(4,5)] same_view_closing [OF assms(2)]
    by simp
  then show ?thesis by (rule view_inv [OF assms(1-3)])
qed

text \<open>What the request manager does to the pending requests, apart from adding one.\<close>

definition fewer_requests :: "('cb, 'tc) request_manager \<Rightarrow> ('cb, 'tc) request_manager \<Rightarrow> bool" where
  "fewer_requests rm rm' \<longleftrightarrow>
     rm_inv rm' \<and> map_keys (pending_requests rm') \<subseteq> map_keys (pending_requests rm) \<and>
     set (waiting rm') \<union> set (expired rm') \<subseteq> set (waiting rm) \<union> set (expired rm) \<and>
     next_request_id rm' = next_request_id rm"

lemma set_remove_key: "set (remove_key k xs) \<subseteq> set xs"
  by (auto simp: remove_key_def)

lemma fewer_complete:
  assumes "rm_inv rm"
  shows "fewer_requests rm (fst (rm_complete rid ec data rm))"
proof -
  obtain rm' out where r: "rm_complete rid ec data rm = (rm', out)" by fastforce
  have "rm_inv rm'"
    using rm_complete_ok [OF assms r] by (simp add: rm_step_ok_def)
  moreover have "set (waiting rm') \<subseteq> set (waiting rm)" "expired rm' = expired rm"
    "next_request_id rm' = next_request_id rm"
    using r set_remove_key [of rid "waiting rm"]
    by (auto simp: rm_complete_def complete_request_def split: option.splits)
  moreover have "map_keys (pending_requests rm') \<subseteq> map_keys (pending_requests rm)"
    using rm_complete_pending_keys [of rid ec data rm] r by simp
  ultimately show ?thesis using r by (auto simp: fewer_requests_def)
qed

lemma fewer_complete_all: "rm_inv rm \<Longrightarrow> fewer_requests rm (fst (rm_complete_all ec rm))"
  using rm_complete_all_ok [of rm ec]
  by (auto simp: fewer_requests_def rm_step_ok_def rm_complete_all_eq)

lemma complete_all_pending: "rm_inv rm \<Longrightarrow> pending_requests (fst (rm_complete_all ec rm)) = []"
  by (simp add: rm_complete_all_eq)

lemma fewer_expires:
  assumes "rm_inv rm"
  shows "fewer_requests rm (timer_expires rid rm)"
proof (cases "map_of (waiting rm) rid")
  case None
  then show ?thesis using assms by (simp add: fewer_requests_def timer_expires_def)
next
  case (Some tc)
  have "rm_inv (timer_expires rid rm)"
    using timer_expires_ok [OF assms] by (simp add: rm_step_ok_def)
  then show ?thesis
    using Some map_of_SomeD [OF Some] set_remove_key [of rid "waiting rm"]
    by (auto simp: fewer_requests_def timer_expires_def)
qed

lemma fewer_run_expired:
  assumes "rm_inv rm" and "run_expired rm = (rm', out, tc)"
  shows "fewer_requests rm rm'"
    and "tc = Some t \<Longrightarrow> \<exists>rid. (rid, Some t) \<in> set (expired rm) \<and> rid \<in> map_keys (pending_requests rm)"
proof -
  have ok: "rm_inv rm'" "next_request_id rm' = next_request_id rm"
    using run_expired_ok [OF assms] by (simp_all add: rm_step_ok_def)
  have keys: "map_keys (pending_requests rm') \<subseteq> map_keys (pending_requests rm)"
    using run_expired_pending_keys [of rm] assms(2) by simp
  show "fewer_requests rm rm'"
  proof (cases "expired rm")
    case Nil
    then show ?thesis using assms by (simp add: run_expired_def fewer_requests_def)
  next
    case (Cons x rest)
    have "waiting rm' = waiting rm \<or> waiting rm' = remove_key (fst x) (waiting rm)" "expired rm' = rest"
      using assms(2) Cons
      by (cases x; auto simp: run_expired_def request_timer_handler_def rm_complete_def
          complete_request_def split: option.splits if_splits)+
    then show ?thesis
      using ok keys Cons set_remove_key [of "fst x" "waiting rm"] by (auto simp: fewer_requests_def)
  qed
  show "\<exists>rid. (rid, Some t) \<in> set (expired rm) \<and> rid \<in> map_keys (pending_requests rm)" if "tc = Some t"
    using assms(2) that
    by (auto simp: run_expired_def request_timer_handler_def split: list.splits if_splits prod.splits)
qed

lemma fewer_inv:
  assumes "client_inv s" and "fewer_requests (requests s) (fst r)"
  shows "client_inv (with_requests r s)"
proof (rule view_inv [OF assms(1)])
  show view: "same_view s (with_requests r s)" "queue_ok (with_requests r s)"
    using with_requests_view queue_of_inv [OF assms(1)] by blast+
  show "requests_inv (with_requests r s)"
    using requests_fewer [OF requests_of_inv [OF assms(1)], of "with_requests r s"] assms(2)
    by (simp add: fewer_requests_def same_view_closing [OF view(1)])
qed

lemma rm_inv_of_inv: "client_inv s \<Longrightarrow> rm_inv (requests s)"
  by (simp add: client_inv_def base_inv_def requests_inv_def)

subsection \<open>Calls, idle tasks and expiring timers\<close>

lemma enqueue_idle_inv:
  assumes "client_inv s" and "idle_function f"
  shows "client_inv (enqueue_own f when_immediately s)"
  by (rule idle_inv [OF assms(1)]) (simp_all add: assms enqueue_idle queue_of_inv)

lemma same_view_io:
  "filter (\<lambda>t. \<not> idle_task t) ts = busy_io s \<Longrightarrow> same_view s (s\<lparr>io := ts\<rparr>)"
  by (simp add: same_view_def busy_own_def)

lemma post_idle_inv:
  assumes "client_inv s" and "idle_task t"
  shows "client_inv (post_io t s)"
proof (rule idle_inv [OF assms(1)])
  show "same_view s (post_io t s)"
    using same_view_io [of "io s @ [t]" s] assms(2) by (simp add: post_io_def busy_io_def)
qed (simp_all add: assms queue_of_inv)

lemma pop_idle_inv:
  assumes "client_inv s" and "io s = t # ts" and "idle_task t"
  shows "client_inv (s\<lparr>io := ts\<rparr>)"
proof (rule idle_inv [OF assms(1)])
  show "same_view s (s\<lparr>io := ts\<rparr>)"
    using same_view_io [of ts s] assms(2,3) by (simp add: busy_io_def)
qed (simp_all add: assms queue_of_inv)

lemma notify_idle_inv:
  "client_inv (s :: 'cb client) \<Longrightarrow> idle_function (Fn_scoped t n :: 'cb client_function) \<Longrightarrow>
     client_inv (notify_only t n s)"
  unfolding notify_only_own by (rule enqueue_idle_inv)

lemma call_peer_inv:
  assumes "client_inv s" and "\<forall>rid data. c \<noteq> Peer_send_request rid data"
  shows "client_inv (call_peer p c s)"
proof (rule idle_inv [OF assms(1)])
  show "requests_made (call_peer p c s) = requests_made s"
    using assms(2) by (cases c) simp_all
qed (simp_all add: assms queue_of_inv same_view_def busy_io_def busy_own_def)

lemma expire_inv:
  assumes "client_inv s"
  shows "client_inv (s\<lparr>requests := timer_expires rid (requests s)\<rparr>)"
  using fewer_inv [OF assms, of "(timer_expires rid (requests s), [])"]
    fewer_expires [OF rm_inv_of_inv [OF assms]]
  by (simp add: with_requests_def)

lemma other_objects_inv:
  assumes "client_inv s" and "disp s = Some d" and "other_objects (client_oid s) d d'"
  shows "client_inv (s\<lparr>disp := Some d'\<rparr>)"
proof (rule idle_inv [OF assms(1)])
  have eq: "own_entries (client_oid s) d' = own_entries (client_oid s) d"
    using assms(3) by (simp add: other_objects_def own_entries_def)
  then show "queue_ok (s\<lparr>disp := Some d'\<rparr>)"
    using queue_of_inv [OF assms(1)] assms(2,3) by (simp add: queue_ok_unfold other_objects_def)
  show "same_view s (s\<lparr>disp := Some d'\<rparr>)"
    using assms(2,3) eq
    by (auto simp: same_view_def busy_own_def busy_io_def own_unfold alive_unfold other_objects_def)
qed (simp_all add: requests_made_def)

section \<open>Enqueuing, popping and closing\<close>

lemma baseI: "order_inv s \<Longrightarrow> refs_inv s \<Longrightarrow> requests_inv s \<Longrightarrow> holding_inv s \<Longrightarrow> base_inv s"
  by (simp add: base_inv_def)

lemma baseD:
  "base_inv s \<Longrightarrow> order_inv s" "base_inv s \<Longrightarrow> refs_inv s" "base_inv s \<Longrightarrow> requests_inv s"
  "base_inv s \<Longrightarrow> holding_inv s" "base_inv s \<Longrightarrow> queue_ok s"
  by (simp_all add: base_inv_def order_inv_def)

text \<open>No new attempt, identity or close.\<close>

lemma refs_keep:
  assumes "refs_inv s" and "attempts t \<subseteq> attempts s" and "next_ref t = next_ref s"
    and "silenced_peers t = silenced_peers s" and "peer_session t = peer_session s"
    and "client_peer t = client_peer s \<or> client_peer t = None"
    and "\<And>p tok. Io_peer_closed p tok \<in> set (io t) \<Longrightarrow> Io_peer_closed p tok \<in> set (io s)"
  shows "refs_inv t"
proof -
  have "\<forall>(sk, tok) \<in> attempts t. sk < next_ref t"
    using assms(1-3) by (auto simp: refs_inv_def)
  moreover have "\<forall>sk a b. (sk, a) \<in> attempts t \<longrightarrow> (sk, b) \<in> attempts t \<longrightarrow> a = b"
    using assms(1,2) unfolding refs_inv_def by blast
  moreover have "\<forall>p. client_peer t = Some p \<longrightarrow> peer_session t p \<noteq> None"
    using assms(1,5,6) by (auto simp: refs_inv_def)
  ultimately show ?thesis
    using assms(1,3-5,7) by (simp add: refs_inv_def)
qed

lemma closing_enqueue [simp]: "client_closing (enqueue_own f w s) = client_closing s"
  by (simp add: client_closing_def closing_thread_def)

lemma attempts_enqueue:
  "1 \<le> w \<Longrightarrow> attempts (enqueue_own f w s) = attempts s \<union> (if alive s then function_attempts f else {})"
  by (auto simp: attempts_def)

lemma base_enqueue_at:
  assumes "base_inv s" and "1 \<le> w" and "function_attempts f \<subseteq> attempts s"
    and "is_control f \<Longrightarrow> w = when_immediately \<and> debounce_time_ok f"
  shows "base_inv (enqueue_own f w s)"
proof (rule baseI)
  show "order_inv (enqueue_own f w s)"
    using baseD(1) [OF assms(1)] enqueue_own_queue_ok(1) [of s w f] assms(2,4)
    by (simp add: order_inv_def)
  show "refs_inv (enqueue_own f w s)"
    by (rule refs_keep [OF baseD(2) [OF assms(1)]]) (use assms(2,3) in \<open>auto simp: attempts_enqueue\<close>)
  show "requests_inv (enqueue_own f w s)"
    by (rule requests_same [OF baseD(3) [OF assms(1)]]) simp_all
  show "holding_inv (enqueue_own f w s)"
    using baseD(4) [OF assms(1)] by (simp add: holding_inv_def progressing_def)
qed

lemma base_enqueue:
  assumes "base_inv s" and "function_attempts f \<subseteq> attempts s" and "is_control f \<Longrightarrow> debounce_time_ok f"
  shows "base_inv (enqueue_own f when_immediately s)"
  using assms by (intro base_enqueue_at) simp_all

text \<open>What is going on still goes on after an enqueue that cancels nothing.\<close>

lemma recovering_enqueue_at:
  assumes "recovering s" and "queue_ok s" and "1 \<le> w"
    and "is_control f \<Longrightarrow> w = when_immediately \<and> debounce_time_ok f"
    and "f \<noteq> Fn_debounced Cancel_debounced"
  shows "recovering (enqueue_own f w s)"
proof -
  have "control (enqueue_own f w s) = control s @ (if alive s \<and> is_control f then [f] else [])"
    using assms by (intro enqueue_own_queue_ok(2)) simp_all
  then have "reconnect_scheduled s \<Longrightarrow> reconnect_scheduled (enqueue_own f w s)"
    using assms(3,5) by (simp add: reconnect_scheduled_unfold)
  then show ?thesis
    using assms(1,3) by (auto simp: recovering_def)
qed

lemma recovering_enqueue:
  assumes "recovering s" and "queue_ok s" and "is_control f \<Longrightarrow> debounce_time_ok f"
    and "f \<noteq> Fn_debounced Cancel_debounced"
  shows "recovering (enqueue_own f when_immediately s)"
  using assms by (intro recovering_enqueue_at) simp_all

lemma attempt_live_enqueue: "1 \<le> w \<Longrightarrow> attempt_live s sk \<Longrightarrow> attempt_live (enqueue_own f w s) sk"
  by (auto simp: attempt_live_def)

lemma peer_live_enqueue [simp]: "peer_live (enqueue_own f w s) p = peer_live s p"
  by (simp add: peer_live_def)

definition still_going :: "'cb client \<Rightarrow> bool" where
  "still_going s \<longleftrightarrow>
     connects_last (now_token s) (io s) \<and>
     (closing_thread s \<longrightarrow> Io_connect (now_token s) \<notin> set (io s)) \<and>
     (\<forall>sk. connecting_socket s = Some sk \<longrightarrow> client_closing s \<or> attempt_live s sk) \<and>
     (\<forall>p. client_peer s = Some p \<longrightarrow> client_closing s \<or> peer_live s p)"

lemma going_still: "going_inv s \<longleftrightarrow>
    still_going s \<and> (scope_running (scope s) \<longrightarrow> recovering s \<or> \<not> client_closing s \<and> progressing s)"
  by (auto simp: going_inv_def still_going_def)

lemma still_going_enqueue_at: "still_going s \<Longrightarrow> 1 \<le> w \<Longrightarrow> still_going (enqueue_own f w s)"
  by (auto simp: still_going_def closing_thread_def intro: attempt_live_enqueue)

lemma still_going_enqueue: "still_going s \<Longrightarrow> still_going (enqueue_own f when_immediately s)"
  by (simp add: still_going_enqueue_at)

lemma going_enqueue:
  assumes "going_inv s" and "queue_ok s" and "is_control f \<Longrightarrow> debounce_time_ok f"
    and "f \<noteq> Fn_debounced Cancel_debounced"
  shows "going_inv (enqueue_own f when_immediately s)"
  using assms(1) still_going_enqueue recovering_enqueue [OF _ assms(2-4)]
  by (auto simp: going_still progressing_def)

text \<open>A notification of the current session that retries.\<close>

lemma recovering_retry:
  "retries n \<Longrightarrow> alive s \<Longrightarrow> recovering (enqueue_own (Fn_scoped (now_token s) n) when_immediately s)"
  by (auto simp: recovering_def)

text \<open>An I/O task that is not a close is taken from the executor.\<close>

lemma base_pop:
  assumes "base_inv s" and "io s = u # ts" and "\<not> closing_task u"
  shows "base_inv (s\<lparr>io := ts\<rparr>)" "client_closing (s\<lparr>io := ts\<rparr>) = client_closing s"
proof -
  show closing: "client_closing (s\<lparr>io := ts\<rparr>) = client_closing s"
    using assms(2,3) by (simp add: client_closing_def closing_thread_def)
  show "base_inv (s\<lparr>io := ts\<rparr>)"
  proof (rule baseI)
    show "order_inv (s\<lparr>io := ts\<rparr>)"
      using baseD(1) [OF assms(1)] assms(2) by (simp add: order_inv_def)
    show "refs_inv (s\<lparr>io := ts\<rparr>)"
      by (rule refs_keep [OF baseD(2) [OF assms(1)]]) (use assms(2) in \<open>auto simp: attempts_def\<close>)
    show "requests_inv (s\<lparr>io := ts\<rparr>)"
      by (rule requests_same [OF baseD(3) [OF assms(1)]]) (simp_all add: closing)
    show "holding_inv (s\<lparr>io := ts\<rparr>)"
      using baseD(4) [OF assms(1)] closing by (simp add: holding_inv_def progressing_def)
  qed
qed

end
