(* ===== verification/Client_Io.thy ===== *)
theory Client_Io
  imports Client_Steps
begin

text \<open>
  The I/O thread keeps the client's invariant: the tasks of a connection attempt, the closes, and
  the tasks about a peer and its requests.
\<close>

section \<open>Connecting\<close>

lemma attempt_live_pop:
  assumes "io s = u # ts" and "attempt_live s sk"
  shows "attempt_live (s\<lparr>io := ts\<rparr>) sk \<or> (sk, now_token s) \<in> task_attempts u"
  using assms by (auto simp: attempt_live_def)

lemma peer_live_pop:
  assumes "io s = u # ts" and "peer_live s p"
  shows "peer_live (s\<lparr>io := ts\<rparr>) p \<or> u = Io_peer_closed p (now_token s)"
  using assms by (auto simp: peer_live_def)

lemma recovering_pop:
  assumes "io s = u # ts" and "recovering s"
  shows "recovering (s\<lparr>io := ts\<rparr>) \<or> u = Io_connect (now_token s) \<or> u = Io_invalidate (now_token s)"
  using assms by (auto simp: recovering_def reconnect_scheduled_unfold)

text \<open>Behind a connect of the current session no close is pending.\<close>

lemma connect_not_closing:
  assumes "still_going s" and "io s = Io_connect (now_token s) # ts"
  shows "\<not> client_closing s"
  using assms by (auto simp: still_going_def client_closing_def)

lemma still_going_pop:
  assumes "still_going s" and "io s = u # ts" and "\<not> closing_task u"
    and "\<And>sk. connecting_socket s = Some sk \<Longrightarrow> client_closing s \<or> (sk, now_token s) \<notin> task_attempts u"
    and "\<And>p. client_peer s = Some p \<Longrightarrow> u \<noteq> Io_peer_closed p (now_token s)"
  shows "still_going (s\<lparr>io := ts\<rparr>)"
proof -
  have "client_closing (s\<lparr>io := ts\<rparr>) = client_closing s"
    using assms(2,3) by (simp add: client_closing_def closing_thread_def)
  then show ?thesis
    using assms attempt_live_pop [OF assms(2)] peer_live_pop [OF assms(2)]
    by (fastforce simp: still_going_def closing_thread_def)
qed

lemma io_connect_inv:
  assumes inv: "client_inv s" and io: "io s = Io_connect t # ts"
  shows "client_inv (io_connect ep t (s\<lparr>io := ts\<rparr>))"
proof -
  let ?s = "s\<lparr>io := ts\<rparr>"
  have base: "base_inv ?s" and closing: "client_closing ?s = client_closing s"
    using base_pop [of s "Io_connect t" ts] inv io by (simp_all add: client_inv_def)
  have going: "still_going ?s" if "alive s"
    using still_going_pop [of s "Io_connect t" ts] inv io that by (simp add: client_inv_def going_still)
  have idle: "\<not> client_closing ?s" if "alive s" "is_current t (scope s)"
    using connect_not_closing [of s ts] inv io that closing
    by (simp add: client_inv_def going_still is_current_def)
  consider (none) "\<not> is_current t (scope s) \<or> connecting_socket s \<noteq> None \<or> client_peer s \<noteq> None"
    | (error) "is_current t (scope s)" "connecting_socket s = None" "client_peer s = None"
      "is_error (ep (client_path s))"
    | (socket) "is_current t (scope s)" "connecting_socket s = None" "client_peer s = None"
      "\<not> is_error (ep (client_path s))"
    by blast
  then show ?thesis
  proof cases
    case none
    then have "io_connect ep t ?s = ?s" by (auto simp: io_connect_def)
    moreover have "going_inv ?s" if "alive s"
      using going [OF that] idle [OF that] recovering_pop [OF io] inv that none closing
      by (auto simp: going_still client_inv_def is_current_def progressing_def)
    ultimately show ?thesis using base by (simp add: client_inv_def)
  next
    case error
    then have eq: "io_connect ep t ?s = notify_only t (N_connect_failed (ep (client_path s))) ?s"
      by (simp add: io_connect_def)
    have "base_inv (notify_only t (N_connect_failed (ep (client_path s))) ?s)"
      unfolding notify_only_own by (rule base_enqueue [OF base]) simp_all
    moreover have "going_inv (notify_only t (N_connect_failed (ep (client_path s))) ?s)" if "alive s"
      using going [OF that] still_going_enqueue error(1)
        recovering_retry [of "N_connect_failed (ep (client_path s))" ?s] that
      by (auto simp: going_still notify_only_own is_current_def)
    ultimately show ?thesis unfolding eq by (simp add: client_inv_def notify_only_own)
  next
    case socket
    let ?t = "?s\<lparr>next_ref := Suc (next_ref s), connecting_socket := Some (next_ref s),
            connects := connects s @ [(next_ref s, t)]\<rparr>"
    have eq: "io_connect ep t ?s = ?t"
      using socket by (simp add: io_connect_def Let_def)
    have attempts: "attempts ?t = insert (next_ref s, t) (attempts ?s)"
      by (auto simp: attempts_def)
    have fresh: "(next_ref s, t') \<notin> attempts ?s" for t'
      using baseD(2) [OF base] by (auto simp: refs_inv_def)
    have same: "client_closing ?t = client_closing ?s"
      by (simp add: client_closing_def closing_thread_def)
    have "base_inv ?t"
    proof (rule baseI)
      show "order_inv ?t"
        using baseD(1) [OF base] by (simp add: order_inv_def)
      show "refs_inv ?t"
        using baseD(2) [OF base] fresh socket(3) unfolding refs_inv_def attempts
        by (auto simp: less_Suc_eq)
      show "requests_inv ?t"
        by (rule requests_same [OF baseD(3) [OF base]]) (simp_all add: same)
      show "holding_inv ?t"
        using socket(1,3) by (simp add: holding_inv_def is_current_def)
    qed
    moreover have "going_inv ?t" if "alive s"
    proof -
      have "attempt_live ?t (next_ref s)"
        using socket(1) by (simp add: attempt_live_def is_current_def)
      then show ?thesis
        using going [OF that] idle [OF that socket(1)] socket(3) same
        by (auto simp: going_still still_going_def closing_thread_def progressing_def)
    qed
    ultimately show ?thesis unfolding eq by (simp add: client_inv_def)
  qed
qed

section \<open>Sockets\<close>

lemma connects_last_append:
  "connects_last c (xs @ ys) \<longleftrightarrow>
     connects_last c xs \<and> connects_last c ys \<and>
     (Io_connect c \<in> set xs \<longrightarrow> (\<forall>u \<in> set ys. \<not> closing_task u))"
  by (induction xs) auto

lemma attempts_close [simp]: "attempts (close_socket_ref sk s) = attempts s"
  by (force simp: attempts_def close_socket_ref_def)

lemma closing_close [simp]: "client_closing (close_socket_ref sk s) = client_closing s"
  by (auto simp: client_closing_def closing_thread_def close_socket_ref_def)

lemma attempt_live_close: "attempt_live s sk' \<Longrightarrow> attempt_live (close_socket_ref sk s) sk'"
  by (force simp: attempt_live_def close_socket_ref_def)

lemma close_socket_io:
  "Io_peer_closed p t \<in> set (io (close_socket_ref sk s)) \<longleftrightarrow> Io_peer_closed p t \<in> set (io s)"
  "Io_connect t \<in> set (io (close_socket_ref sk s)) \<longleftrightarrow> Io_connect t \<in> set (io s)"
  "Io_invalidate t \<in> set (io (close_socket_ref sk s)) \<longleftrightarrow> Io_invalidate t \<in> set (io s)"
  "Io_shutdown \<in> set (io (close_socket_ref sk s)) \<longleftrightarrow> Io_shutdown \<in> set (io s)"
  by (auto simp: close_socket_ref_def)

lemma connects_last_close: "connects_last c (io (close_socket_ref sk s)) = connects_last c (io s)"
proof -
  have "connects_last c (map (\<lambda>(_, t). Io_connect_done sk t ec cr) xs)" for ec cr xs
    by (induction xs) auto
  then show ?thesis by (auto simp: close_socket_ref_def connects_last_append)
qed

lemma peer_live_close [simp]: "peer_live (close_socket_ref sk s) p = peer_live s p"
  by (simp add: peer_live_def close_socket_io)

lemma recovering_close [simp]: "recovering (close_socket_ref sk s) = recovering s"
  by (simp add: recovering_def reconnect_scheduled_unfold close_socket_io)

lemma base_close_socket:
  assumes "base_inv s"
  shows "base_inv (close_socket_ref sk s)"
proof (rule baseI)
  show "order_inv (close_socket_ref sk s)"
    using baseD(1) [OF assms] by (simp add: order_inv_def close_socket_io)
  show "refs_inv (close_socket_ref sk s)"
    by (rule refs_keep [OF baseD(2) [OF assms]]) (simp_all add: close_socket_io)
  show "requests_inv (close_socket_ref sk s)"
    by (rule requests_same [OF baseD(3) [OF assms]]) simp_all
  show "holding_inv (close_socket_ref sk s)"
    using baseD(4) [OF assms] by (simp add: holding_inv_def progressing_def)
qed

lemma still_going_close_socket: "still_going s \<Longrightarrow> still_going (close_socket_ref sk s)"
  by (auto simp: still_going_def closing_thread_def connects_last_close close_socket_io
      intro: attempt_live_close)

text \<open>The client forgets the socket.\<close>

lemma forget_socket [simp]:
  "client_closing (s\<lparr>connecting_socket := x\<rparr>) = client_closing s"
  "attempts (s\<lparr>connecting_socket := x\<rparr>) = attempts s"
  "attempt_live (s\<lparr>connecting_socket := x\<rparr>) sk = attempt_live s sk"
  "peer_live (s\<lparr>connecting_socket := x\<rparr>) p = peer_live s p"
  "recovering (s\<lparr>connecting_socket := x\<rparr>) = recovering s"
  "closing_thread (s\<lparr>connecting_socket := x\<rparr>) = closing_thread s"
  by (simp_all add: client_closing_def closing_thread_def attempts_def attempt_live_def peer_live_def
      recovering_def reconnect_scheduled_unfold)

lemma base_forget_socket:
  assumes "base_inv s"
  shows "base_inv (s\<lparr>connecting_socket := None\<rparr>)"
proof (rule baseI)
  show "order_inv (s\<lparr>connecting_socket := None\<rparr>)"
    using baseD(1) [OF assms] by (simp add: order_inv_def)
  show "refs_inv (s\<lparr>connecting_socket := None\<rparr>)"
    by (rule refs_keep [OF baseD(2) [OF assms]]) simp_all
  show "requests_inv (s\<lparr>connecting_socket := None\<rparr>)"
    by (rule requests_same [OF baseD(3) [OF assms]]) simp_all
  show "holding_inv (s\<lparr>connecting_socket := None\<rparr>)"
    using baseD(4) [OF assms] by (auto simp: holding_inv_def progressing_def)
qed

text \<open>The attempt of the client's socket has the token of the session, unless a close is pending.\<close>

lemma attempt_live_attempts: "attempt_live s sk \<Longrightarrow> (sk, now_token s) \<in> attempts s"
  by (force simp: attempt_live_def attempts_def)

lemma attempt_token:
  assumes "base_inv s" and "still_going s" and "connecting_socket s = Some sk"
    and "(sk, t) \<in> attempts s" and "\<not> client_closing s"
  shows "t = now_token s"
proof -
  have "(sk, now_token s) \<in> attempts s"
    using assms(2,3,5) by (auto simp: still_going_def intro: attempt_live_attempts)
  then show ?thesis
    using baseD(2) [OF assms(1)] assms(4) unfolding refs_inv_def by blast
qed

lemma still_going_forget_pop:
  assumes "still_going s" and "io s = u # ts" and "\<not> closing_task u" and "\<And>p t. u \<noteq> Io_peer_closed p t"
  shows "still_going (s\<lparr>io := ts, connecting_socket := None\<rparr>)"
proof -
  have "still_going (s\<lparr>connecting_socket := None\<rparr>)"
    using assms(1) by (simp add: still_going_def)
  then have "still_going (s\<lparr>connecting_socket := None, io := ts\<rparr>)"
    using still_going_pop [of "s\<lparr>connecting_socket := None\<rparr>" u ts] assms(2-4) by simp
  moreover have "s\<lparr>connecting_socket := None, io := ts\<rparr> = s\<lparr>io := ts, connecting_socket := None\<rparr>"
    by simp
  ultimately show ?thesis by simp
qed

section \<open>A finished connection attempt\<close>

lemma enqueue_pop: "enqueue_own f w (s\<lparr>io := ts\<rparr>) = (enqueue_own f w s)\<lparr>io := ts\<rparr>"
  by (simp add: enqueue_own_def)

lemma base_enqueue_pop:
  assumes "base_inv s" and "io s = u # ts" and "\<not> closing_task u" and "function_attempts f \<subseteq> attempts s"
    and "is_control f \<Longrightarrow> debounce_time_ok f"
  shows "base_inv (enqueue_own f when_immediately (s\<lparr>io := ts\<rparr>))"
  using base_pop(1) [OF base_enqueue [OF assms(1,4,5)], of u ts] assms(2,3) by (simp add: enqueue_pop)

lemma own_attempt:
  "(sk, t) \<in> task_attempts u \<Longrightarrow> u \<in> set (io s) \<Longrightarrow> (sk, t) \<in> attempts s"
  by (auto simp: attempts_def)

lemma done_closed_inv:
  assumes inv: "client_inv s" and io: "io s = u # ts" and u: "\<not> closing_task u"
    "\<And>p t. u \<noteq> Io_peer_closed p t" "\<And>t. u \<noteq> Io_connect t"
    and other: "\<And>sk. connecting_socket s = Some sk \<Longrightarrow>
      client_closing s \<or> (sk, now_token s) \<notin> task_attempts u"
  shows "client_inv (close_socket_ref sk' (s\<lparr>io := ts\<rparr>))"
proof -
  let ?s = "s\<lparr>io := ts\<rparr>"
  have base: "base_inv ?s" and closing: "client_closing ?s = client_closing s"
    using base_pop [OF _ io u(1)] inv by (simp_all add: client_inv_def)
  have "going_inv (close_socket_ref sk' ?s)" if "alive s"
  proof -
    have g: "going_inv s"
      using inv that by (simp add: client_inv_def)
    then have "still_going (close_socket_ref sk' ?s)"
      using still_going_close_socket [OF still_going_pop [OF _ io u(1) other u(2)]]
      by (simp add: going_still)
    then show ?thesis
      using g recovering_pop [OF io] u closing by (auto simp: going_still progressing_def)
  qed
  then show ?thesis
    using base_close_socket [OF base] by (simp add: client_inv_def)
qed

lemma retries_attempts: "retries n \<Longrightarrow> function_attempts (Fn_scoped t n) = {}"
  by (cases n) simp_all

text \<open>
  The client forgets its socket after a failed attempt and notifies with the attempt's token:
  either the attempt is the session's and the notification retries, or a close is pending.
\<close>

lemma forget_socket_inv:
  assumes inv: "client_inv s" and io: "io s = u # ts" and u: "\<not> closing_task u"
    "\<And>p t. u \<noteq> Io_peer_closed p t" "\<And>t. u \<noteq> Io_connect t" "(sk, t) \<in> task_attempts u"
    and sk: "connecting_socket s = Some sk"
  shows "retries n \<Longrightarrow> client_inv (notify_only t n (s\<lparr>io := ts, connecting_socket := None\<rparr>))"
    and "retries n \<Longrightarrow> client_inv
      (notify_only t n (close_socket_ref sk' (s\<lparr>io := ts, connecting_socket := None\<rparr>)))"
    and "\<not> is_current t (scope s) \<or> \<not> alive s \<Longrightarrow>
      client_inv (close_socket_ref sk' (s\<lparr>io := ts, connecting_socket := None\<rparr>))"
proof -
  let ?s = "s\<lparr>io := ts, connecting_socket := None\<rparr>"
  have base: "base_inv s" and base': "base_inv ?s"
    and closing: "client_closing (s\<lparr>io := ts\<rparr>) = client_closing s"
    using base_pop [OF _ io u(1)] inv base_forget_socket [of "s\<lparr>io := ts\<rparr>"]
    by (simp_all add: client_inv_def)
  have still: "still_going ?s" if "alive s"
    using still_going_forget_pop [OF _ io u(1,2)] inv that by (simp add: client_inv_def going_still)
  have token: "recovering ?s \<or> t = now_token s" if "alive s" "scope_running (scope s)"
  proof (cases "client_closing s")
    case True
    then have "recovering s"
      using inv that by (simp add: client_inv_def going_still)
    then show ?thesis using recovering_pop [OF io] u by auto
  next
    case False
    then show ?thesis
      using attempt_token [OF base _ sk own_attempt [OF u(4)] False] io inv that
      by (simp add: client_inv_def going_still)
  qed
  have notified: "client_inv (notify_only t n v)"
    if n: "retries n" and v: "base_inv v" "alive v = alive s" "now_token v = now_token s"
      "scope_running (scope v) = scope_running (scope s)"
      "alive s \<Longrightarrow> still_going v" "recovering v = recovering ?s" for n v
  proof -
    have "base_inv (notify_only t n v)"
      unfolding notify_only_own by (rule base_enqueue [OF v(1)]) (simp_all add: retries_attempts n)
    moreover have "recovering (notify_only t n v)" if "alive s" "scope_running (scope s)"
    proof (cases "recovering ?s")
      case True
      then show ?thesis
        unfolding notify_only_own using v(6) baseD(5) [OF v(1)] by (intro recovering_enqueue) simp_all
    next
      case False
      then show ?thesis
        using token [OF that] recovering_retry [OF n, of v] v(2,3) that by (simp add: notify_only_own)
    qed
    ultimately show ?thesis
      using v(2,4,5) still_going_enqueue by (auto simp: client_inv_def going_still notify_only_own)
  qed
  show "client_inv (notify_only t n ?s)" if "retries n"
    using notified [OF that base'] still by simp
  show "client_inv (notify_only t n (close_socket_ref sk' ?s))" if "retries n"
    using notified [OF that base_close_socket [OF base']] still_going_close_socket [OF still] by simp
  show "client_inv (close_socket_ref sk' ?s)" if "\<not> is_current t (scope s) \<or> \<not> alive s"
    using base_close_socket [OF base'] still_going_close_socket [OF still] token that
    by (auto simp: client_inv_def going_still is_current_def)
qed

lemma io_connect_done_inv:
  assumes inv: "client_inv s" and io: "io s = Io_connect_done sk t ec credentials # ts"
  shows "client_inv (io_connect_done sk t ec credentials (s\<lparr>io := ts\<rparr>))"
proof -
  let ?s = "s\<lparr>io := ts\<rparr>"
  note forget = forget_socket_inv [OF inv io, of sk t]
  consider (stale) "\<not> scope_running (scope s) \<or> connecting_socket s \<noteq> Some sk"
    | (failed) "connecting_socket s = Some sk" "scope_running (scope s)" "is_error ec"
    | (lost) "connecting_socket s = Some sk" "scope_running (scope s)" "\<not> is_error ec" "\<not> alive s"
    | (verify) "connecting_socket s = Some sk" "scope_running (scope s)" "\<not> is_error ec" "alive s"
    by blast
  then show ?thesis
  proof cases
    case stale
    then have eq: "io_connect_done sk t ec credentials ?s = close_socket_ref sk ?s"
      by (auto simp: io_connect_done_def)
    have "client_closing s \<or> sk' \<noteq> sk" if "connecting_socket s = Some sk'" for sk'
      using stale that inv by (auto simp: client_inv_def base_inv_def holding_inv_def progressing_def)
    then show ?thesis
      unfolding eq using done_closed_inv [OF inv io] by auto
  next
    case failed
    then show ?thesis
      using forget(1) [of "N_connect_failed ec"] by (simp add: io_connect_done_def)
  next
    case lost
    then show ?thesis
      using forget(3) [of sk] by (simp add: io_connect_done_def notify_own enqueue_own_alive(2))
  next
    case verify
    let ?f = "Fn_scoped t (N_verify sk credentials t)"
    have eq: "io_connect_done sk t ec credentials ?s = enqueue_own ?f when_immediately ?s"
      using verify by (simp add: io_connect_done_def notify_own)
    have base: "base_inv s" and g: "going_inv s"
      using inv verify(4) by (simp_all add: client_inv_def)
    have closing: "client_closing ?s = client_closing s"
      by (rule base_pop(2) [OF base io]) simp
    have own: "(sk, t) \<in> attempts s"
      using io by (auto simp: attempts_def)
    have "base_inv (enqueue_own ?f when_immediately ?s)"
      using own by (intro base_enqueue_pop [OF base io]) simp_all
    moreover have "still_going (enqueue_own ?f when_immediately ?s)"
    proof -
      have "still_going (s\<lparr>io := ts, connecting_socket := None\<rparr>)"
        using still_going_forget_pop [OF _ io] g by (simp add: going_still)
      moreover have "attempt_live (enqueue_own ?f when_immediately ?s) sk" if "\<not> client_closing s"
        using attempt_token [OF base _ verify(1) own that] g verify(4)
        by (auto simp: going_still attempt_live_def)
      ultimately show ?thesis
        using verify(1) closing by (auto simp: still_going_def closing_thread_def)
    qed
    moreover have "scope_running (scope s) \<longrightarrow> recovering (enqueue_own ?f when_immediately ?s) \<or>
        \<not> client_closing s \<and> progressing s"
      using g recovering_pop [OF io] recovering_enqueue [of ?s ?f] baseD(5) [OF base]
      by (auto simp: going_still)
    ultimately show ?thesis
      unfolding eq using closing by (simp add: client_inv_def going_still progressing_def)
  qed
qed

section \<open>A new peer\<close>

lemma new_peer_inv:
  assumes inv: "client_inv s" and io: "io s = u # ts" and u: "\<not> closing_task u"
    "\<And>p t. u \<noteq> Io_peer_closed p t" "\<And>t. u \<noteq> Io_connect t"
    and sk: "connecting_socket s = Some sk" and cur: "is_current t (scope s)"
  shows "client_inv
    (post_io (Io_notify_connected (next_ref s) credentials t)
      (call_peer (next_ref s) Peer_start
        (s\<lparr>io := ts, connecting_socket := None, next_ref := Suc (next_ref s),
           client_peer := Some (next_ref s),
           peer_session := (peer_session s)(next_ref s \<mapsto> (t, credentials)),
           live_peers := insert (next_ref s) (live_peers s)\<rparr>)))" (is "client_inv ?t")
proof -
  let ?p = "next_ref s"
  let ?s = "s\<lparr>io := ts, connecting_socket := None\<rparr>"
  have base: "base_inv ?s" and pop: "client_closing (s\<lparr>io := ts\<rparr>) = client_closing s"
    using base_pop [OF _ io u(1)] inv base_forget_socket [of "s\<lparr>io := ts\<rparr>"]
    by (simp_all add: client_inv_def)
  have closing: "client_closing ?t = client_closing s"
    using pop by (simp add: client_closing_def closing_thread_def)
  have attempts: "attempts ?t = attempts ?s"
    by (simp add: attempts_def)
  have "base_inv ?t"
  proof (rule baseI)
    show "order_inv ?t"
      using baseD(1) [OF base] by (simp add: order_inv_def)
    show "refs_inv ?t"
      using baseD(2) [OF base] unfolding refs_inv_def attempts by (fastforce simp: less_Suc_eq)
    show "requests_inv ?t"
      by (rule requests_same [OF baseD(3) [OF base]]) (simp_all add: closing pop)
    show "holding_inv ?t"
      using cur by (simp add: holding_inv_def is_current_def)
  qed
  moreover have "going_inv ?t" if "alive s"
  proof -
    have g: "going_inv s" and still: "still_going ?s"
      using inv that still_going_forget_pop [OF _ io u(1,2)] by (simp_all add: client_inv_def going_still)
    have "?p \<notin> silenced_peers s"
      using baseD(2) [OF base] by (auto simp: refs_inv_def)
    then have "peer_live ?t ?p"
      using cur by (simp add: peer_live_def is_current_def)
    moreover have "recovering s \<longrightarrow> recovering ?t"
      using recovering_pop [OF io] u by (auto simp: recovering_def reconnect_scheduled_unfold)
    ultimately show ?thesis
      using g still closing
      by (simp add: going_still still_going_def closing_thread_def progressing_def connects_last_append)
         auto
  qed
  ultimately show ?thesis by (simp add: client_inv_def)
qed

lemma handle_connected_inv:
  assumes inv: "client_inv s" and io: "io s = Io_handle_connected sk credentials verified t # ts"
  shows "client_inv (handle_connected_socket sk credentials verified t (s\<lparr>io := ts\<rparr>))"
proof -
  note forget = forget_socket_inv [OF inv io, of sk t]
  consider (stale) "connecting_socket s \<noteq> Some sk"
    | (ended) "connecting_socket s = Some sk" "\<not> is_current t (scope s)"
    | (rejected) "connecting_socket s = Some sk" "is_current t (scope s)" "\<not> verified"
    | (peer) "connecting_socket s = Some sk" "is_current t (scope s)" "verified"
    by blast
  then show ?thesis
  proof cases
    case stale
    then have "client_inv (close_socket_ref sk (s\<lparr>io := ts\<rparr>))"
      by (intro done_closed_inv [OF inv io]) auto
    then show ?thesis using stale by (simp add: handle_connected_socket_def)
  next
    case ended
    then show ?thesis using forget(3) [of sk] by (simp add: handle_connected_socket_def)
  next
    case rejected
    then show ?thesis
      using forget(2) [of "N_peer_verification_failed credentials" sk]
      by (simp add: handle_connected_socket_def)
  next
    case peer
    then show ?thesis
      using new_peer_inv [OF inv io _ _ _ peer(1,2)] by (simp add: handle_connected_socket_def Let_def)
  qed
qed

section \<open>Closing the peer\<close>

lemma close_peer_fields [simp]:
  "scope (snd (client_close_peer ec s)) = scope s"
  "sessions (snd (client_close_peer ec s)) = sessions s"
  "connecting_socket (snd (client_close_peer ec s)) = connecting_socket s"
  "client_peer (snd (client_close_peer ec s)) = None"
  "client_opts (snd (client_close_peer ec s)) = client_opts s"
  "reconnect_task (snd (client_close_peer ec s)) = reconnect_task s"
  "client_oid (snd (client_close_peer ec s)) = client_oid s"
  "thread (snd (client_close_peer ec s)) = thread s"
  "io (snd (client_close_peer ec s)) = io s"
  "connects (snd (client_close_peer ec s)) = connects s"
  "next_ref (snd (client_close_peer ec s)) = next_ref s"
  "peer_session (snd (client_close_peer ec s)) = peer_session s"
  "live_peers (snd (client_close_peer ec s)) = live_peers s"
  "silenced_peers (snd (client_close_peer ec s)) = silenced_peers s"
  "peer_signals (snd (client_close_peer ec s)) = peer_signals s"
  "client_log (snd (client_close_peer ec s)) = client_log s"
  "delivered (snd (client_close_peer ec s)) = delivered s"
  "alive (snd (client_close_peer ec s)) = alive s"
  "requests_made (snd (client_close_peer ec s)) = requests_made s"
  "fst (client_close_peer ec s) = (client_peer s \<noteq> None)"
  by (simp_all add: client_close_peer_def Let_def split: option.split)

lemma close_peer_requests:
  "client_peer s \<noteq> None \<Longrightarrow>
     requests (snd (client_close_peer ec s)) = fst (rm_complete_all ec (requests s))"
  "client_peer s = None \<Longrightarrow> snd (client_close_peer ec s) = s"
  by (auto simp: client_close_peer_def Let_def)

text \<open>Closing the peer is invisible but for the peer and the requests.\<close>

lemma close_peer_view:
  assumes "queue_ok s"
  shows "same_view (s\<lparr>client_peer := None\<rparr>) (snd (client_close_peer ec s))"
    and "queue_ok (snd (client_close_peer ec s))"
proof -
  have "same_view (s\<lparr>client_peer := None\<rparr>) (snd (client_close_peer ec s)) \<and>
      queue_ok (snd (client_close_peer ec s))"
  proof (cases "client_peer s")
    case None
    then show ?thesis
      using assms by (simp add: close_peer_requests(2) same_view_def busy_io_def busy_own_def)
  next
    case (Some p)
    then show ?thesis
      using with_requests_view [OF assms, of "rm_complete_all ec (requests s)"]
      by (simp add: client_close_peer_def Let_def same_view_def busy_io_def busy_own_def)
  qed
  then show "same_view (s\<lparr>client_peer := None\<rparr>) (snd (client_close_peer ec s))"
    and "queue_ok (snd (client_close_peer ec s))" by blast+
qed

lemma forget_peer [simp]:
  "client_closing (s\<lparr>client_peer := x\<rparr>) = client_closing s"
  "attempts (s\<lparr>client_peer := x\<rparr>) = attempts s"
  "attempt_live (s\<lparr>client_peer := x\<rparr>) sk = attempt_live s sk"
  "peer_live (s\<lparr>client_peer := x\<rparr>) p = peer_live s p"
  "recovering (s\<lparr>client_peer := x\<rparr>) = recovering s"
  "closing_thread (s\<lparr>client_peer := x\<rparr>) = closing_thread s"
  by (simp_all add: client_closing_def closing_thread_def attempts_def attempt_live_def peer_live_def
      recovering_def reconnect_scheduled_unfold)

lemma same_view_attempt_live:
  assumes "same_view s t"
  shows "attempt_live t sk = attempt_live s sk"
proof -
  have "busy_io t = busy_io s" using assms by (simp add: same_view_def)
  then have "(\<Union>u \<in> set (io t). task_attempts u) = (\<Union>u \<in> set (io s). task_attempts u)"
    by (simp only: attempts_busy_io)
  then have "(\<exists>u \<in> set (io t). x \<in> task_attempts u) \<longleftrightarrow> (\<exists>u \<in> set (io s). x \<in> task_attempts u)" for x
    by blast
  moreover have "f \<in> set (own t) \<longleftrightarrow> f \<in> set (own s)" if "\<not> idle_function f" for f
    using assms that by (simp add: busy_own_mem same_view_def)
  ultimately show ?thesis
    using assms by (simp add: attempt_live_def same_view_def)
qed

lemma close_peer_parts:
  assumes "queue_ok s"
  shows "client_closing (snd (client_close_peer ec s)) = client_closing s"
    "attempts (snd (client_close_peer ec s)) = attempts s"
    "attempt_live (snd (client_close_peer ec s)) sk = attempt_live s sk"
    "recovering (snd (client_close_peer ec s)) = recovering s"
  using same_view_closing [OF close_peer_view(1) [OF assms]]
    same_view_attempts [OF close_peer_view(1) [OF assms]]
    same_view_recovering [OF close_peer_view(1) [OF assms]]
    same_view_attempt_live [OF close_peer_view(1) [OF assms]]
  by simp_all

lemma close_peer_pending:
  assumes "requests_inv s"
  shows "pending_requests (requests (snd (client_close_peer ec s))) = []"
    and "requests_inv (snd (client_close_peer ec s))"
proof -
  have rm: "rm_inv (requests s)"
    using assms by (simp add: requests_inv_def)
  show pending: "pending_requests (requests (snd (client_close_peer ec s))) = []"
    using assms complete_all_pending [OF rm]
    by (cases "client_peer s") (simp_all add: close_peer_requests requests_inv_def)
  have "fewer_requests (requests s) (requests (snd (client_close_peer ec s)))"
    using fewer_complete_all [OF rm] rm
    by (cases "client_peer s") (simp_all add: close_peer_requests fewer_requests_def)
  then show "requests_inv (snd (client_close_peer ec s))"
    using pending by (intro requests_fewer [OF assms]) (simp_all add: fewer_requests_def)
qed

text \<open>The peer is closed while the client goes on: some retry must follow, or a close is pending.\<close>

lemma base_close_peer:
  assumes "base_inv s"
  shows "base_inv (snd (client_close_peer ec s))"
proof (rule baseI)
  note view = close_peer_view [OF baseD(5) [OF assms]] and parts = close_peer_parts [OF baseD(5) [OF assms]]
  show "order_inv (snd (client_close_peer ec s))"
    using baseD(1) [OF assms] view by (simp add: order_inv_def)
  show "refs_inv (snd (client_close_peer ec s))"
    by (rule refs_keep [OF baseD(2) [OF assms]]) (simp_all add: parts)
  show "requests_inv (snd (client_close_peer ec s))"
    using close_peer_pending(2) [OF baseD(3) [OF assms]] .
  show "holding_inv (snd (client_close_peer ec s))"
    using baseD(4) [OF assms] by (auto simp: holding_inv_def parts progressing_def)
qed

lemma still_going_close_peer:
  assumes "still_going s" and "queue_ok s"
  shows "still_going (snd (client_close_peer ec s))"
  using assms(1) by (simp add: still_going_def close_peer_parts [OF assms(2)] closing_thread_def)

section \<open>Closing everything\<close>

lemma close_connecting_attempts [simp]:
  "attempts (close_connecting_socket s) = attempts s"
  "client_closing (close_connecting_socket s) = client_closing s"
  "recovering (close_connecting_socket s) = recovering s"
  "peer_live (close_connecting_socket s) p = peer_live s p"
  "connects_last c (io (close_connecting_socket s)) = connects_last c (io s)"
  "Io_peer_closed p t \<in> set (io (close_connecting_socket s)) \<longleftrightarrow> Io_peer_closed p t \<in> set (io s)"
  "Io_connect t \<in> set (io (close_connecting_socket s)) \<longleftrightarrow> Io_connect t \<in> set (io s)"
  "Io_shutdown \<in> set (io (close_connecting_socket s)) \<longleftrightarrow> Io_shutdown \<in> set (io s)"
  by (simp_all add: close_connecting_socket_def connects_last_close close_socket_io split: option.split)

lemma attempts_pop: "io s = u # ts \<Longrightarrow> attempts (s\<lparr>io := ts\<rparr>) \<subseteq> attempts s"
  by (auto simp: attempts_def)

lemma base_close_all:
  assumes base: "base_inv s" and "order_inv v" and "refs_inv v" and "connecting_socket v = None"
    and same: "requests v = requests s" "requests_made v = requests_made s" "now_token v = now_token s"
      "client_peer v = client_peer s"
  shows "base_inv (snd (client_close_peer ec v))"
proof (rule baseI)
  have queue: "queue_ok v"
    using assms(2) by (simp add: order_inv_def)
  note view = close_peer_view [OF queue] and parts = close_peer_parts [OF queue]
  show "order_inv (snd (client_close_peer ec v))"
    using assms(2) view by (simp add: order_inv_def)
  show "refs_inv (snd (client_close_peer ec v))"
    by (rule refs_keep [OF assms(3)]) (simp_all add: parts)
  have rm: "rm_inv (requests s)"
    using baseD(3) [OF base] by (simp add: requests_inv_def)
  have "pending_requests (requests (snd (client_close_peer ec v))) = []"
    using baseD(3) [OF base] same complete_all_pending [OF rm]
    by (cases "client_peer s") (simp_all add: close_peer_requests requests_inv_def)
  moreover have "fewer_requests (requests s) (requests (snd (client_close_peer ec v)))"
    using fewer_complete_all [OF rm] rm same
    by (cases "client_peer s") (simp_all add: close_peer_requests fewer_requests_def)
  ultimately show "requests_inv (snd (client_close_peer ec v))"
    using same by (intro requests_fewer [OF baseD(3) [OF base]]) (simp_all add: fewer_requests_def)
  show "holding_inv (snd (client_close_peer ec v))"
    using assms(4) by (simp add: holding_inv_def progressing_def)
qed

lemma order_pop:
  assumes "order_inv s" and "io s = u # ts"
  shows "order_inv (close_connecting_socket (s\<lparr>io := ts\<rparr>))"
  using assms by (simp add: order_inv_def)

lemma refs_pop:
  assumes "refs_inv s" and "io s = u # ts"
  shows "refs_inv (close_connecting_socket (s\<lparr>io := ts\<rparr>))"
  by (rule refs_keep [OF assms(1)]) (use attempts_pop [OF assms(2)] assms(2) in simp_all)

lemma close_all_parts:
  assumes inv: "client_inv s" and io: "io s = u # ts" and u: "closing_task u"
  defines "v \<equiv> io_stop (s\<lparr>io := ts\<rparr>)"
  shows "base_inv v" and "alive s \<Longrightarrow> still_going v" and "alive v = alive s" and "scope v = scope s"
    and "alive s \<Longrightarrow> scope_running (scope s) \<Longrightarrow> recovering v \<or> u = Io_invalidate (now_token s)"
proof -
  let ?c = "close_connecting_socket (s\<lparr>io := ts\<rparr>)"
  have base: "base_inv s" using inv by (simp add: client_inv_def)
  have v: "v = snd (client_close_peer Operation_aborted ?c)"
    by (simp add: v_def io_stop_def)
  have order: "order_inv ?c" using order_pop [OF baseD(1) [OF base] io] .
  then have queue: "queue_ok ?c" by (simp add: order_inv_def)
  show "base_inv v"
    unfolding v by (rule base_close_all [OF base order refs_pop [OF baseD(2) [OF base] io]]) simp_all
  show "alive v = alive s" "scope v = scope s"
    by (simp_all add: v)
  show "still_going v" if "alive s"
  proof -
    have "still_going s"
      using inv that by (simp add: client_inv_def going_still)
    then show ?thesis
      using io by (auto simp: v still_going_def closing_thread_def)
  qed
  show "recovering v \<or> u = Io_invalidate (now_token s)" if "alive s" "scope_running (scope s)"
  proof -
    have "client_closing s"
      using io u by (auto simp: client_closing_def)
    then have "recovering s"
      using inv that by (simp add: client_inv_def going_still)
    then show ?thesis
      using recovering_pop [OF io] u close_peer_parts(4) [OF queue] by (auto simp: v)
  qed
qed

lemma io_stop_inv:
  assumes "client_inv s" and "io s = Io_stop # ts"
  shows "client_inv (io_stop (s\<lparr>io := ts\<rparr>))"
  using close_all_parts [OF assms] by (simp add: client_inv_def going_still)

lemma io_invalidate_inv:
  assumes "client_inv s" and "io s = Io_invalidate t # ts"
  shows "client_inv (io_invalidate t (s\<lparr>io := ts\<rparr>))"
proof -
  let ?v = "io_stop (s\<lparr>io := ts\<rparr>)"
  note parts = close_all_parts [OF assms, simplified]
  have "base_inv (notify_only t N_schedule_reconnect ?v)"
    unfolding notify_only_own by (rule base_enqueue [OF parts(1)]) simp_all
  moreover have "recovering (notify_only t N_schedule_reconnect ?v)"
    if "alive s" "scope_running (scope s)"
    using parts(5) [OF that] recovering_enqueue [OF _ baseD(5) [OF parts(1)]] parts(3,4) that
      recovering_retry [of N_schedule_reconnect ?v]
    by (auto simp: notify_only_own)
  ultimately show ?thesis
    using still_going_enqueue [OF parts(2)] parts(3,4)
    by (auto simp: io_invalidate_def client_inv_def going_still notify_only_own)
qed

lemma io_shutdown_inv:
  assumes inv: "client_inv s" and io: "io s = Io_shutdown # ts"
  shows "client_inv (io_shutdown (s\<lparr>io := ts\<rparr>))"
proof -
  let ?c = "close_connecting_socket (s\<lparr>io := ts\<rparr>)"
  let ?v = "case client_peer ?c of None \<Rightarrow> ?c | Some p \<Rightarrow> ?c\<lparr>silenced_peers := insert p (silenced_peers ?c)\<rparr>"
  have base: "base_inv s" using inv by (simp add: client_inv_def)
  have dead: "\<not> alive s"
    using baseD(1) [OF base] io by (simp add: order_inv_def)
  have order: "order_inv ?c" and refs: "refs_inv ?c"
    using order_pop [OF baseD(1) [OF base] io] refs_pop [OF baseD(2) [OF base] io] .
  have "order_inv ?v"
    using order by (simp add: order_inv_def split: option.split)
  moreover have "refs_inv ?v"
  proof (cases "client_peer ?c")
    case None
    then show ?thesis using refs by simp
  next
    case (Some p)
    then have "p < next_ref s"
      using baseD(2) [OF base] by (auto simp: refs_inv_def)
    moreover have "attempts (?c\<lparr>silenced_peers := S\<rparr>) = attempts ?c" for S
      by (simp add: attempts_def)
    ultimately show ?thesis
      using refs Some by (simp add: refs_inv_def)
  qed
  ultimately have "base_inv (snd (client_close_peer Operation_aborted ?v))"
    by (rule base_close_all [OF base]) (simp_all split: option.split)
  then have "client_inv (snd (client_close_peer Operation_aborted ?v))"
    using dead by (simp add: client_inv_def split: option.split)
  then show ?thesis
    by (simp add: io_shutdown_def Let_def post_idle_inv)
qed

section \<open>The connection ends\<close>

lemma same_calls [simp]: "s\<lparr>peer_calls := peer_calls s\<rparr> = s"
  by simp

lemma other_calls [simp]:
  "client_closing (s\<lparr>peer_calls := x\<rparr>) = client_closing s"
  "recovering (s\<lparr>peer_calls := x\<rparr>) = recovering s"
  "still_going (s\<lparr>peer_calls := x\<rparr>) = still_going s"
  by (simp_all add: client_closing_def closing_thread_def attempt_live_def peer_live_def still_going_def
      recovering_def reconnect_scheduled_unfold)

lemma base_calls:
  assumes "base_inv s" and "requests_made (s\<lparr>peer_calls := x\<rparr>) = requests_made s"
  shows "base_inv (s\<lparr>peer_calls := x\<rparr>)"
proof (rule baseI)
  show "order_inv (s\<lparr>peer_calls := x\<rparr>)"
    using baseD(1) [OF assms(1)] by (simp add: order_inv_def)
  show "refs_inv (s\<lparr>peer_calls := x\<rparr>)"
    by (rule refs_keep [OF baseD(2) [OF assms(1)]]) (simp_all add: attempts_def)
  show "requests_inv (s\<lparr>peer_calls := x\<rparr>)"
    using assms(2) by (intro requests_same [OF baseD(3) [OF assms(1)]]) simp_all
  show "holding_inv (s\<lparr>peer_calls := x\<rparr>)"
    using baseD(4) [OF assms(1)] by (simp add: holding_inv_def progressing_def)
qed

lemma peer_ended_inv:
  assumes base: "base_inv s" and still: "alive s \<Longrightarrow> still_going (s\<lparr>client_peer := None\<rparr>)"
    and token: "alive s \<Longrightarrow> scope_running (scope s) \<Longrightarrow> recovering s \<or> t = now_token s"
  shows "client_inv (notify_only t (N_closed p) (snd (client_close_peer ec s)))"
    and "client_inv (notify_only t (N_closed p)
      ((with_requests (rm_complete_all ec (requests s)) s)\<lparr>client_peer := None\<rparr>))"
proof -
  let ?n = "notify_only t (N_closed p)"
  let ?c = "snd (client_close_peer ec s)"
  let ?w = "(with_requests (rm_complete_all ec (requests s)) s)\<lparr>client_peer := None\<rparr>"
  have queue: "queue_ok s" using baseD(5) [OF base] .
  have going: "client_inv (?n v)"
    if v: "base_inv v" "alive v = alive s" "scope v = scope s" "alive s \<Longrightarrow> still_going v"
      "recovering v = recovering s" for v
  proof -
    have "base_inv (?n v)"
      unfolding notify_only_own by (rule base_enqueue [OF v(1)]) simp_all
    moreover have "recovering (?n v)" if "alive s" "scope_running (scope s)"
      using token [OF that] recovering_enqueue [OF _ baseD(5) [OF v(1)]] v(2,3,5) that
        recovering_retry [of "N_closed p" v]
      by (auto simp: notify_only_own)
    ultimately show ?thesis
      using still_going_enqueue [OF v(4)] v(2,3) by (auto simp: client_inv_def going_still notify_only_own)
  qed
  have closed: "still_going ?c" if "alive s"
    using still [OF that] by (simp add: still_going_def close_peer_parts [OF queue] closing_thread_def)
  show "client_inv (?n ?c)"
    using going [OF base_close_peer [OF base]] closed close_peer_parts(4) [OF queue] by simp
  show "client_inv (?n ?w)"
  proof (cases "client_peer s")
    case (Some q)
    have eq: "?w = ?c\<lparr>peer_calls := peer_calls s\<rparr>"
      using same_calls [of "with_requests (rm_complete_all ec (requests s)) s"]
      by (simp add: client_close_peer_def Some Let_def call_peer_def del: same_calls)
    have "base_inv ?w"
    proof -
      have "requests_made (v\<lparr>peer_calls := peer_calls s\<rparr>) = requests_made s" for v :: "'a client"
        by (simp add: requests_made_def)
      then show ?thesis
        unfolding eq by (intro base_calls [OF base_close_peer [OF base]]) simp
    qed
    then show ?thesis
      unfolding eq using going [of "?c\<lparr>peer_calls := peer_calls s\<rparr>"] closed close_peer_parts(4) [OF queue]
      by simp
  next
    case None
    have "pending_requests (requests s) = []"
      using baseD(3) [OF base] None by (simp add: requests_inv_def)
    then have "with_requests (rm_complete_all ec (requests s)) s = s"
      by (simp add: rm_complete_all_def with_requests_def)
    moreover have "s\<lparr>client_peer := None\<rparr> = s" using None by (cases s) simp
    ultimately show ?thesis
      using going [OF base] still by simp
  qed
qed

lemma io_peer_closed_inv:
  assumes inv: "client_inv s" and io: "io s = Io_peer_closed p t # ts"
  shows "client_inv (io_peer_closed p t (s\<lparr>io := ts\<rparr>))"
proof -
  let ?s = "s\<lparr>io := ts\<rparr>"
  have base: "base_inv ?s" and closing: "client_closing ?s = client_closing s"
    using base_pop [OF _ io] inv by (simp_all add: client_inv_def)
  show ?thesis
  proof (cases "client_peer s = Some p")
    case False
    have "going_inv ?s" if "alive s"
    proof -
      have g: "going_inv s"
        using inv that by (simp add: client_inv_def)
      then have "still_going ?s"
        using False by (intro still_going_pop [OF _ io]) (auto simp: going_still)
      then show ?thesis
        using g recovering_pop [OF io] closing by (auto simp: going_still progressing_def)
    qed
    then show ?thesis
      using base False by (simp add: io_peer_closed_def client_inv_def)
  next
    case True
    have session: "map_option fst (peer_session s p) = Some t"
      using inv io by (simp add: client_inv_def base_inv_def refs_inv_def)
    have "still_going (?s\<lparr>client_peer := None\<rparr>)" if "alive s"
    proof -
      have "still_going (s\<lparr>client_peer := None\<rparr>)"
        using inv that by (simp add: client_inv_def going_still still_going_def)
      then have "still_going (s\<lparr>client_peer := None, io := ts\<rparr>)"
        using still_going_pop [of "s\<lparr>client_peer := None\<rparr>" "Io_peer_closed p t" ts] io by simp
      moreover have "s\<lparr>client_peer := None, io := ts\<rparr> = s\<lparr>io := ts, client_peer := None\<rparr>"
        by simp
      ultimately show ?thesis by simp
    qed
    moreover have "recovering ?s \<or> t = now_token s" if "alive s" "scope_running (scope s)"
    proof (cases "client_closing s")
      case True
      then show ?thesis
        using recovering_pop [OF io] inv that by (auto simp: client_inv_def going_still)
    next
      case False
      then have "peer_live s p"
        using inv that True by (simp add: client_inv_def going_still still_going_def)
      then show ?thesis
        using session by (auto simp: peer_live_def)
    qed
    ultimately show ?thesis
      using peer_ended_inv(2) [OF base, of t p Connection_reset] True by (simp add: io_peer_closed_def)
  qed
qed

section \<open>Requests\<close>

lemma io_request_timer_inv:
  assumes inv: "client_inv s"
  shows "client_inv (io_request_timer s)"
proof -
  obtain rm out tc where r: "run_expired (requests s) = (rm, out, tc)"
    using prod_cases3 by blast
  note fewer = fewer_run_expired [OF rm_inv_of_inv [OF inv] r]
  let ?s = "with_requests (rm, out) s"
  have inv': "client_inv ?s"
    using fewer_inv [OF inv, of "(rm, out)"] fewer(1) by simp
  have view: "same_view s ?s"
    using with_requests_view(1) [OF queue_of_inv [OF inv]] .
  show ?thesis
  proof (cases tc)
    case None
    then show ?thesis using r inv' by (simp add: io_request_timer_def)
  next
    case (Some t)
    obtain rid where rid: "(rid, Some t) \<in> set (expired (requests s))"
      "rid \<in> map_keys (pending_requests (requests s))"
      using fewer(2) [OF Some] by blast
    have "request_tokens_ok s"
      using requests_of_inv [OF inv] by (simp add: requests_inv_def)
    then have "t = now_token s \<or> client_closing s"
      using rid unfolding request_tokens_ok_def by blast
    then have token: "recovering ?s \<or> t = now_token ?s" if "alive ?s" "scope_running (scope ?s)"
      using that inv same_view_recovering [OF view] by (auto simp: client_inv_def going_still)
    have "still_going (?s\<lparr>client_peer := None\<rparr>)" if "alive ?s"
      using inv' that by (simp add: client_inv_def going_still still_going_def)
    then have "client_inv (notify_only t (N_closed p) (snd (client_close_peer Connection_reset ?s)))" for p
      using peer_ended_inv(1) [of ?s] inv' token by (simp add: client_inv_def)
    then have "client_inv (request_timed_out t ?s)"
      using inv' by (auto simp: request_timed_out_def split_beta split: option.split)
    then show ?thesis using r Some by (simp add: io_request_timer_def)
  qed
qed

lemma send_request_inv:
  assumes inv: "client_inv s" and bound: "requests_made (send_request data cb s) < 2 ^ 64"
  shows "client_inv (send_request data cb s)"
proof (cases "client_peer s")
  case None
  then show ?thesis
    using enqueue_idle_inv [OF inv, of "Fn_callback cb Not_connected None"]
    by (simp add: send_request_def to_dispatcher_own)
next
  case (Some p)
  obtain rid rm where add: "rm_add None cb (Some (capture (scope s))) (requests s) = (rid, rm)"
    by fastforce
  let ?t = "call_peer p (Peer_send_request rid data) (s\<lparr>requests := rm\<rparr>)"
  have eq: "send_request data cb s = ?t"
    using Some add by (simp add: send_request_def)
  have reqs: "requests_inv s"
    using requests_of_inv [OF inv] .
  then have next_id: "unat (next_request_id (requests s)) = requests_made s"
    using bound by (simp add: requests_inv_def eq unat_of_nat)
  then have small: "unat (next_request_id (requests s)) < 2 ^ 64 - 1"
    using bound by (simp add: eq)
  note ok = rm_add_ok [OF rm_inv_of_inv [OF inv] small add]
  have rid: "next_request_id rm = rid" "rid = next_request_id (requests s) + 1"
    "set (waiting rm) \<subseteq> insert (rid, Some (now_token s)) (set (waiting (requests s)))"
    "expired rm = expired (requests s)"
    "map_keys (pending_requests rm) \<subseteq> insert rid (map_keys (pending_requests (requests s)))"
    using add by (auto simp: rm_add_def Let_def capture_def split: if_splits)
  have view: "same_view s ?t"
    by (simp add: same_view_def busy_io_def busy_own_def)
  have "request_tokens_ok ?t"
    unfolding request_tokens_ok_def
  proof (intro allI impI)
    fix r tc
    assume "(r, tc) \<in> set (waiting (requests ?t)) \<union> set (expired (requests ?t))"
    then consider "r = rid" "tc = Some (now_token s)"
      | "(r, tc) \<in> set (waiting (requests s)) \<union> set (expired (requests s))"
      using rid(3,4) by auto
    then show "unat r \<le> unat (next_request_id (requests ?t)) \<and>
        (r \<in> map_keys (pending_requests (requests ?t)) \<longrightarrow>
           tc = Some (now_token ?t) \<or> client_closing ?t)"
    proof cases
      case 1
      then show ?thesis using rid(1) by simp
    next
      case 2
      have "request_tokens_ok s" using reqs by (simp add: requests_inv_def)
      then have old: "unat r \<le> unat (next_request_id (requests s))"
        "r \<in> map_keys (pending_requests (requests s)) \<longrightarrow> tc = Some (now_token s) \<or> client_closing s"
        using 2 unfolding request_tokens_ok_def by blast+
      moreover have "r \<noteq> rid"
        using old(1) ok(3) rid(1) by auto
      ultimately show ?thesis
        using ok(3) rid(5) same_view_closing [OF view] by auto
    qed
  qed
  moreover have "next_request_id rm = of_nat (requests_made ?t)"
    using reqs rid(1,2) by (simp add: requests_inv_def)
  ultimately have "requests_inv ?t"
    using ok(1) Some by (simp add: requests_inv_def)
  then show ?thesis
    unfolding eq using view_inv [OF inv view] queue_of_inv [OF inv] by simp
qed

section \<open>Every I/O task\<close>

lemma to_peer_inv:
  "client_inv s \<Longrightarrow> \<forall>rid data. c \<noteq> Peer_send_request rid data \<Longrightarrow> client_inv (to_peer c s)"
  by (auto simp: to_peer_def intro: call_peer_inv split: option.split)

lemma run_io_inv:
  assumes inv: "client_inv s" and io: "io s = u # ts"
    and bound: "requests_made (run_io ep u (s\<lparr>io := ts\<rparr>)) < 2 ^ 64"
  shows "client_inv (run_io ep u (s\<lparr>io := ts\<rparr>))"
proof (cases "idle_task u")
  case True
  let ?s = "s\<lparr>io := ts\<rparr>"
  have pop: "client_inv ?s"
    by (rule pop_idle_inv [OF inv io True])
  have fewer: "client_inv (with_requests r ?s)" if "fewer_requests (requests s) (fst r)" for r
    using fewer_inv [OF pop] that by simp
  show ?thesis
  proof (cases u)
    case (Io_request data cb)
    then show ?thesis using send_request_inv [OF pop] bound by simp
  next
    case (Io_peer_response_received p rid data)
    then show ?thesis
      using pop fewer fewer_complete [OF rm_inv_of_inv [OF inv]] by (simp add: if_peer_def)
  next
    case (Io_peer_error_occurred p t ec)
    then show ?thesis
      using pop fewer [OF fewer_complete_all [OF rm_inv_of_inv [OF inv]]]
      by (auto simp: io_peer_error_occurred_def intro: notify_idle_inv)
  qed (use True pop in \<open>auto simp: if_peer_def intro: to_peer_inv notify_idle_inv\<close>)
next
  case False
  then show ?thesis
    using inv io
    by (cases u) (auto intro: io_connect_inv io_connect_done_inv handle_connected_inv io_stop_inv
        io_invalidate_inv io_shutdown_inv io_peer_closed_inv)
qed

end
