(* ===== verification/Client_Machine.thy ===== *)
theory Client_Machine
  imports Client_Io
begin

text \<open>
  The dispatcher thread keeps the client's invariant, and so does the environment; together with
  the I/O thread (theory \<open>Client_Io\<close>) every step does, as long as the 64-bit counters of sessions
  and requests have not wrapped around.
\<close>

section \<open>Taking a function from the queue\<close>

lemma took_own:
  assumes d: "disp s = Some d" and run: "worker_iteration now d = (Run e, d')"
    and e: "object_id_value e = client_oid s"
  shows "own s = entry_function e # own (s\<lparr>disp := Some d'\<rparr>)"
    "alive (s\<lparr>disp := Some d'\<rparr>) = alive s" "alive s \<longleftrightarrow> call_function e d' \<noteq> None"
  using take_owned(1-3) [OF run e] d by (simp_all add: own_def alive_def)

lemma took:
  assumes queue: "queue_ok s" and d: "disp s = Some d"
    and run: "worker_iteration now d = (Run e, d')" and e: "object_id_value e = client_oid s"
  defines "v \<equiv> s\<lparr>disp := Some d'\<rparr>"
  shows "own s = entry_function e # own v" "queue_ok v" "alive v = alive s"
    "alive s \<longleftrightarrow> call_function e d' \<noteq> None" "debounce_time_ok (entry_function e)"
    "control s = (if is_control (entry_function e) then [entry_function e] else []) @ control v"
proof -
  note take = take_owned [OF run e]
  show own: "own s = entry_function e # own v" and "alive v = alive s"
    "alive s \<longleftrightarrow> call_function e d' \<noteq> None" "queue_ok v"
    using took_own [OF d run e] take(4) queue d by (simp_all add: queue_ok_def v_def)
  show "debounce_time_ok (entry_function e)"
    using take(5) queue d
    by (cases "entry_function e" rule: is_control.cases) (force simp: queue_ok_def)+
  show "control s = (if is_control (entry_function e) then [entry_function e] else []) @ control v"
    by (simp add: control_def own)
qed

lemma disp_update [simp]:
  "client_closing (s\<lparr>disp := x\<rparr>) = client_closing s"
  "closing_thread (s\<lparr>disp := x\<rparr>) = closing_thread s"
  "peer_live (s\<lparr>disp := x\<rparr>) p = peer_live s p"
  by (simp_all add: client_closing_def closing_thread_def peer_live_def)

text \<open>Functions may go: what is left is still in order.\<close>

lemma base_disp:
  assumes "base_inv s" and "queue_ok (s\<lparr>disp := x\<rparr>)" and "set (own (s\<lparr>disp := x\<rparr>)) \<subseteq> set (own s)"
    and "alive (s\<lparr>disp := x\<rparr>) \<longrightarrow> alive s"
  shows "base_inv (s\<lparr>disp := x\<rparr>)"
proof (rule baseI)
  show "order_inv (s\<lparr>disp := x\<rparr>)"
    using baseD(1) [OF assms(1)] assms(2,4) by (auto simp: order_inv_def)
  have "attempts (s\<lparr>disp := x\<rparr>) \<subseteq> attempts s"
    using assms(3) by (auto simp: attempts_def)
  then show "refs_inv (s\<lparr>disp := x\<rparr>)"
    by (intro refs_keep [OF baseD(2) [OF assms(1)]]) simp_all
  show "requests_inv (s\<lparr>disp := x\<rparr>)"
    by (rule requests_same [OF baseD(3) [OF assms(1)]]) simp_all
  show "holding_inv (s\<lparr>disp := x\<rparr>)"
    using baseD(4) [OF assms(1)] by (simp add: holding_inv_def progressing_def)
qed

text \<open>
  A function begins: the client without it, with what is known of its attempts and its recovery.
\<close>

definition underway :: "'cb client \<Rightarrow> bool" where
  "underway s \<longleftrightarrow>
     D_connect \<in> set (thread s) \<or> D_schedule_reconnect \<in> set (thread s) \<or>
     D_post_invalidate \<in> set (thread s) \<or>
     Io_connect (now_token s) \<in> set (io s) \<or> Io_invalidate (now_token s) \<in> set (io s) \<or>
     (\<exists>n. retries n \<and> Fn_scoped (now_token s) n \<in> set (own s))"

lemma recovering_underway: "recovering s \<longleftrightarrow> underway s \<or> reconnect_scheduled s"
  by (auto simp: recovering_def underway_def)

definition begun :: "'cb client_function \<Rightarrow> 'cb client \<Rightarrow> 'cb client \<Rightarrow> bool" where
  "begun f s v \<longleftrightarrow>
     v = s\<lparr>disp := disp v\<rparr> \<and> own s = f # own v \<and>
     client_inv s \<and> base_inv v \<and> alive s \<and> alive v \<and> thread v = [] \<and> scope v = scope s \<and>
     sessions v = sessions s \<and>
     connects_last (now_token v) (io v) \<and> \<not> closing_thread v \<and>
     (\<forall>sk. connecting_socket v = Some sk \<longrightarrow>
        client_closing v \<or> attempt_live v sk \<or>
        (\<exists>c. f = Fn_scoped (now_token v) (N_verify sk c (now_token v)))) \<and>
     (\<forall>p. client_peer v = Some p \<longrightarrow> client_closing v \<or> peer_live v p) \<and>
     (scope_running (scope v) \<longrightarrow>
        underway v \<or> \<not> client_closing v \<and> progressing v \<or>
        reconnect_scheduled v \<and> (f = Fn_debounced Cancel_debounced \<longrightarrow> control v \<noteq> []) \<or>
        (\<exists>n. retries n \<and> f = Fn_scoped (now_token v) n) \<or>
        control v = [] \<and>
          (f = Fn_debounced (Debounced_call (dt_generation (reconnect_task v)) ()) \<or>
           (\<exists>w. f = Fn_debounced (Debounce_in_dispatcher () w)))) \<and>
     debounce_time_ok f"

lemma begunI:
  assumes inv: "client_inv s" and idle: "thread s = []" and d: "disp s = Some d"
    and run: "worker_iteration now d = (Run e, d')" and e: "object_id_value e = client_oid s"
    and alive: "alive s"
  shows "begun (entry_function e) s (s\<lparr>disp := Some d'\<rparr>)"
proof -
  let ?v = "s\<lparr>disp := Some d'\<rparr>" and ?f = "entry_function e"
  note took = took [OF queue_of_inv [OF inv] d run e]
  have base: "base_inv ?v"
    using took by (intro base_disp) (use inv in \<open>auto simp: client_inv_def\<close>)
  have g: "going_inv s" using inv alive by (simp add: client_inv_def)
  have attempt: "attempt_live ?v sk \<or> (\<exists>c. ?f = Fn_scoped (now_token s) (N_verify sk c (now_token s)))"
    if "attempt_live s sk" for sk
    using that by (auto simp: attempt_live_def took(1) dest: sym)
  have "underway ?v \<or> (\<exists>n. retries n \<and> ?f = Fn_scoped (now_token s) n)" if "underway s"
    using that by (auto simp: underway_def took(1))
  moreover have "reconnect_scheduled ?v \<and> (?f = Fn_debounced Cancel_debounced \<longrightarrow> control ?v \<noteq> []) \<or>
      control ?v = [] \<and>
        (?f = Fn_debounced (Debounced_call (dt_generation (reconnect_task s)) ()) \<or>
         (\<exists>w. ?f = Fn_debounced (Debounce_in_dispatcher () w)))"
    if sched: "reconnect_scheduled s"
  proof (cases "control ?v = []")
    case False
    then show ?thesis
      using sched took(6) by (auto simp: reconnect_scheduled_unfold split: if_splits)
  next
    case none: True
    show ?thesis
    proof (cases "is_control ?f")
      case True
      then have "\<exists>w. ?f = Fn_debounced (Debounce_in_dispatcher () w)"
        using sched took(6) none
        by (cases ?f rule: is_control.cases) (auto simp: reconnect_scheduled_unfold)
      then show ?thesis using none by blast
    next
      case False
      then have "control s = []" using took(6) none by simp
      then have "Fn_debounced (Debounced_call (dt_generation (reconnect_task s)) ()) \<in> set (own s)"
        using sched by (simp add: reconnect_scheduled_unfold)
      then show ?thesis
        using none False by (auto simp: took(1) reconnect_scheduled_unfold)
    qed
  qed
  ultimately show ?thesis
    using g base inv alive idle took(1,3,5) attempt unfolding recovering_underway going_still
    by (auto simp: begun_def recovering_underway still_going_def closing_thread_def progressing_def)
qed

section \<open>Running a function\<close>

lemma begunD:
  assumes "begun f s v"
  shows "base_inv v" "base_inv s" "alive v" "thread v = []" "thread s = []" "queue_ok v"
    "debounce_time_ok f" "next_ref v = next_ref s" "silenced_peers v = silenced_peers s"
    "peer_session v = peer_session s" "client_peer v = client_peer s" "io v = io s"
    "attempts s = attempts v \<union> function_attempts f"
proof -
  have v: "v = s\<lparr>disp := disp v\<rparr>"
    using assms by (simp add: begun_def)
  show "base_inv v" "base_inv s" "alive v" "thread v = []" "queue_ok v" "debounce_time_ok f"
    using assms by (auto simp: begun_def client_inv_def intro: baseD(5))
  show "thread s = []"
    using \<open>thread v = []\<close> by (subst (asm) v) simp
  show "next_ref v = next_ref s" "silenced_peers v = silenced_peers s" "io v = io s"
    "peer_session v = peer_session s" "client_peer v = client_peer s"
    by (subst v, simp)+
  have "connects v = connects s" by (subst v) simp
  then show "attempts s = attempts v \<union> function_attempts f"
    using assms \<open>io v = io s\<close> \<open>thread s = []\<close> \<open>thread v = []\<close> by (auto simp: attempts_def begun_def)
qed

lemma begun_thread:
  assumes b: "begun f s v" and as: "thread_ok as" "D_post_stop \<notin> set as" "D_post_invalidate \<notin> set as"
    and own: "(\<Union>a \<in> set as. action_attempts a) \<subseteq> function_attempts f"
  shows "base_inv (v\<lparr>thread := as\<rparr>)" "client_closing (v\<lparr>thread := as\<rparr>) = client_closing v"
    "\<not> closing_thread (v\<lparr>thread := as\<rparr>)"
proof -
  note v = begunD [OF b]
  show closing: "client_closing (v\<lparr>thread := as\<rparr>) = client_closing v"
    and "\<not> closing_thread (v\<lparr>thread := as\<rparr>)"
    using v(4) as(2,3) by (simp_all add: client_closing_def closing_thread_def)
  show "base_inv (v\<lparr>thread := as\<rparr>)"
  proof (rule baseI)
    show "order_inv (v\<lparr>thread := as\<rparr>)"
      using baseD(1) [OF v(1)] as by (simp add: order_inv_def)
    have "attempts (v\<lparr>thread := as\<rparr>) \<subseteq> attempts s"
      using v(4,13) own by (auto simp: attempts_def)
    then show "refs_inv (v\<lparr>thread := as\<rparr>)"
      using v(8-12) by (intro refs_keep [OF baseD(2) [OF v(2)]]) simp_all
    show "requests_inv (v\<lparr>thread := as\<rparr>)"
      by (rule requests_same [OF baseD(3) [OF v(1)]]) (simp_all add: closing)
    show "holding_inv (v\<lparr>thread := as\<rparr>)"
      using baseD(4) [OF v(1)] closing by (simp add: holding_inv_def progressing_def)
  qed
qed

lemma attempt_live_thread:
  "thread v = [] \<Longrightarrow> attempt_live v sk \<Longrightarrow> attempt_live (v\<lparr>thread := as\<rparr>) sk"
  by (auto simp: attempt_live_def)

lemma recovering_thread:
  "thread v = [] \<Longrightarrow> recovering v \<Longrightarrow> recovering (v\<lparr>thread := as\<rparr>)"
  by (auto simp: recovering_def reconnect_scheduled_unfold)

text \<open>
  Functions that neither verify nor retry nor schedule, and those that go on on the thread with
  what they were queued for.
\<close>

lemma begun_plain:
  assumes b: "begun f s v" and as: "thread_ok as" "D_post_stop \<notin> set as" "D_post_invalidate \<notin> set as"
    and own: "(\<Union>a \<in> set as. action_attempts a) \<subseteq> function_attempts f"
    and verify: "\<And>sk c. scope_running (scope v) \<Longrightarrow>
      f = Fn_scoped (now_token v) (N_verify sk c (now_token v)) \<Longrightarrow>
      attempt_live (v\<lparr>thread := as\<rparr>) sk"
    and retry: "scope_running (scope v) \<Longrightarrow>
      recovering v \<or> \<not> client_closing v \<and> progressing v \<or> recovering (v\<lparr>thread := as\<rparr>)"
  shows "client_inv (v\<lparr>thread := as\<rparr>)"
proof -
  note v = begunD [OF b] and th = begun_thread [OF b as own]
  have "still_going (v\<lparr>thread := as\<rparr>)"
  proof -
    have "client_closing v \<or> attempt_live (v\<lparr>thread := as\<rparr>) sk" if "connecting_socket v = Some sk" for sk
    proof (cases "scope_running (scope v)")
      case True
      then show ?thesis
        using b that verify attempt_live_thread [OF v(4)] by (auto simp: begun_def)
    next
      case False
      then show ?thesis
        using baseD(4) [OF v(1)] that by (auto simp: holding_inv_def progressing_def)
    qed
    moreover have "peer_live (v\<lparr>thread := as\<rparr>) p = peer_live v p" for p
      by (simp add: peer_live_def)
    ultimately show ?thesis
      using b th by (auto simp: begun_def still_going_def)
  qed
  then show ?thesis
    using th recovering_thread [OF v(4)] retry
    by (auto simp: client_inv_def going_still progressing_def)
qed

lemma begin_start_inv:
  assumes b: "begun Fn_start s v"
  shows "client_inv (begin_function Fn_start v)"
proof -
  have "client_inv (v\<lparr>scope := scope_start (scope v), thread := [D_connect]\<rparr>)"
  proof -
    let ?t = "v\<lparr>scope := scope_start (scope v), thread := [D_connect]\<rparr>"
    note v = begunD [OF b]
    have closing: "client_closing ?t = client_closing v"
      using v(4) by (simp add: client_closing_def closing_thread_def)
    have attempts: "attempts ?t = attempts v"
      using v(4) by (simp add: attempts_def)
    have "base_inv ?t"
    proof (rule baseI)
      show "order_inv ?t"
        using baseD(1) [OF v(1)] by (simp add: order_inv_def scope_start_def)
      show "refs_inv ?t"
        by (rule refs_keep [OF baseD(2) [OF v(1)]]) (simp_all add: attempts)
      show "requests_inv ?t"
        by (rule requests_same [OF baseD(3) [OF v(1)]]) (simp add: closing | simp add: scope_start_def)+
      show "holding_inv ?t"
        using baseD(4) [OF v(1)] by (simp add: holding_inv_def scope_start_def)
    qed
    moreover have "going_inv ?t"
      using b v(4) closing
      by (auto simp: begun_def going_still still_going_def closing_thread_def recovering_def
          attempt_live_def peer_live_def scope_start_def)
    ultimately show ?thesis by (simp add: client_inv_def)
  qed
  then show ?thesis by simp
qed

lemma connects_last_absent: "Io_connect c \<notin> set ts \<Longrightarrow> connects_last c ts"
  by (induction ts) auto

text \<open>Stop and invalidation end the session: a new token, and a close about to be posted.\<close>

lemma end_session_inv:
  assumes b: "begun f s v" and "sessions v + 1 < 2 ^ 64" and "function_attempts f = {}"
    and sc: "generation sc = now_token v + 1"
    and as: "as = [D_cancel_reconnect, D_post_stop] \<and> \<not> scope_running sc \<or>
      as = [D_cancel_reconnect, D_post_invalidate]"
  shows "client_inv (v\<lparr>scope := sc, sessions := Suc (sessions v), thread := as\<rparr>)" (is "client_inv ?t")
proof -
  note v = begunD [OF b]
  have closing: "client_closing ?t" "closing_thread ?t"
    using as by (auto simp: client_closing_def closing_thread_def)
  have attempts: "attempts ?t = attempts v"
    using v(4) as by (auto simp: attempts_def)
  have order: "order_inv v" using baseD(1) [OF v(1)] .
  have token: "now_token ?t = of_nat (Suc (sessions v))"
    using sc order by (simp add: order_inv_def)
  have new: "Io_connect (now_token ?t) \<notin> set (io ?t)"
  proof
    assume "Io_connect (now_token ?t) \<in> set (io ?t)"
    then have "unat (now_token ?t) \<le> sessions v"
      using order by (auto simp: order_inv_def)
    then show False
      unfolding token using assms(2) by (simp only: unat_of_nat) simp
  qed
  have "base_inv ?t"
  proof (rule baseI)
    show "order_inv ?t"
      using order as token by (auto simp: order_inv_def intro: le_SucI)
    show "refs_inv ?t"
      by (rule refs_keep [OF baseD(2) [OF v(1)]]) (simp_all add: attempts)
    show "requests_inv ?t"
      using baseD(3) [OF v(1)] closing by (auto simp: requests_inv_def request_tokens_ok_def)
    show "holding_inv ?t"
      using baseD(4) [OF v(1)] closing by (simp add: holding_inv_def)
  qed
  moreover have "going_inv ?t"
    using closing new connects_last_absent as
    by (auto simp: going_still still_going_def recovering_def)
  ultimately show ?thesis by (simp add: client_inv_def)
qed

lemma begin_scoped_inv:
  assumes b: "begun (Fn_scoped t n) s v"
  shows "client_inv (begin_function (Fn_scoped t n) v)"
proof (cases "is_current t (scope v)")
  case False
  have "client_inv (v\<lparr>thread := []\<rparr>)"
    using b False by (intro begun_plain [OF b]) (auto simp: begun_def is_current_def recovering_underway)
  moreover have "v\<lparr>thread := []\<rparr> = v"
    using begunD(4) [OF b] by (cases v) simp
  ultimately show ?thesis using False by (simp add: run_scoped_def)
next
  case True
  have verify: "attempt_live (v\<lparr>thread := notification_actions n\<rparr>) sk"
    if "n = N_verify sk c (now_token v)" for sk c
    using that by (simp add: attempt_live_def)
  have retry: "recovering (v\<lparr>thread := notification_actions n\<rparr>)" if "retries n"
    using that by (cases n) (simp_all add: recovering_def)
  have "client_inv (v\<lparr>thread := notification_actions n\<rparr>)"
  proof (rule begun_plain [OF b])
    show "thread_ok (notification_actions n)" by (cases n) simp_all
    show "D_post_stop \<notin> set (notification_actions n)" "D_post_invalidate \<notin> set (notification_actions n)"
      by (cases n; simp)+
    show "(\<Union>a \<in> set (notification_actions n). action_attempts a) \<subseteq> function_attempts (Fn_scoped t n)"
      by (cases n) auto
  qed (use verify retry b in \<open>auto simp: begun_def recovering_underway\<close>)
  then show ?thesis using True by (simp add: run_scoped_def)
qed

lemma retask [simp]:
  "client_closing (s\<lparr>reconnect_task := x\<rparr>) = client_closing s"
  "attempts (s\<lparr>reconnect_task := x\<rparr>) = attempts s"
  "still_going (s\<lparr>reconnect_task := x\<rparr>) = still_going s"
  by (simp_all add: client_closing_def closing_thread_def attempts_def still_going_def
      attempt_live_def peer_live_def)

lemma base_retask:
  assumes "base_inv s"
  shows "base_inv (s\<lparr>reconnect_task := x\<rparr>)"
proof (rule baseI)
  show "order_inv (s\<lparr>reconnect_task := x\<rparr>)"
    using baseD(1) [OF assms] by (simp add: order_inv_def)
  show "refs_inv (s\<lparr>reconnect_task := x\<rparr>)"
    by (rule refs_keep [OF baseD(2) [OF assms]]) simp_all
  show "requests_inv (s\<lparr>reconnect_task := x\<rparr>)"
    by (rule requests_same [OF baseD(3) [OF assms]]) simp_all
  show "holding_inv (s\<lparr>reconnect_task := x\<rparr>)"
    using baseD(4) [OF assms] by (simp add: holding_inv_def progressing_def)
qed

text \<open>A control function runs: the generation changes, and a queued control decides what follows.\<close>

lemma begun_still: "begun (Fn_debounced f) s v \<Longrightarrow> still_going v"
  by (auto simp: begun_def still_going_def)

lemma underway_retask [simp]: "underway (s\<lparr>reconnect_task := x\<rparr>) = underway s"
  by (simp add: underway_def)

lemma scheduled_retask: "control s \<noteq> [] \<Longrightarrow> reconnect_scheduled (s\<lparr>reconnect_task := x\<rparr>) = reconnect_scheduled s"
  by (simp add: reconnect_scheduled_unfold)

lemma same_thread: "thread v = [] \<Longrightarrow> v\<lparr>thread := []\<rparr> = v"
  by (cases v) simp

lemma begin_cancel_inv:
  assumes b: "begun (Fn_debounced Cancel_debounced) s v"
  shows "client_inv (begin_function (Fn_debounced Cancel_debounced) v)"
proof -
  let ?t = "v\<lparr>reconnect_task := (reconnect_task v)\<lparr>dt_generation := dt_generation (reconnect_task v) + 1\<rparr>\<rparr>"
  note v = begunD [OF b]
  have eq: "begin_function (Fn_debounced Cancel_debounced) v = ?t"
    using v(4) same_thread [of ?t] by simp
  have "recovering ?t \<or> \<not> client_closing ?t \<and> progressing ?t" if "scope_running (scope v)"
  proof -
    have "underway v \<or> \<not> client_closing v \<and> progressing v \<or> reconnect_scheduled v \<and> control v \<noteq> []"
      using b that by (auto simp: begun_def)
    then show ?thesis
      using scheduled_retask [of v] by (auto simp: recovering_underway progressing_def)
  qed
  then show ?thesis
    unfolding eq using base_retask [OF v(1)] begun_still [OF b] by (simp add: client_inv_def going_still)
qed

lemma begin_debounce_inv:
  assumes b: "begun (Fn_debounced (Debounce_in_dispatcher () w)) s v"
  shows "client_inv (begin_function (Fn_debounced (Debounce_in_dispatcher () w)) v)"
proof -
  let ?g = "dt_generation (reconnect_task v) + 1"
  let ?f = "Fn_debounced (Debounced_call ?g ())"
  let ?u = "v\<lparr>reconnect_task := (reconnect_task v)\<lparr>dt_generation := ?g\<rparr>\<rparr>"
  let ?t = "enqueue_own ?f w ?u"
  note v = begunD [OF b]
  have w: "1 \<le> w" using v(7) by simp
  have eq: "begin_function (Fn_debounced (Debounce_in_dispatcher () w)) v = ?t"
  proof -
    obtain d where d: "disp v = Some d" "\<not> exit_flag d" "client_oid v \<in> object_ids d"
      using v(3) by (auto simp: alive_unfold)
    show ?thesis
      using v(4) same_thread [of ?t] d
      by (simp add: debounce_in_dispatcher_def Let_def enqueue_own_def enqueue_to_dispatcher_def
          enqueue_def)
  qed
  have base: "base_inv ?u"
    by (rule base_retask [OF v(1)])
  have controls: "control ?t = control v"
    using enqueue_own_queue_ok(2) [of ?u w ?f] v(6) w by simp
  have "recovering ?t \<or> \<not> client_closing ?t \<and> progressing ?t" if "scope_running (scope v)"
  proof (cases "control v = []")
    case True
    then have "reconnect_scheduled ?t"
      using controls v(3) w by (simp add: reconnect_scheduled_unfold)
    then show ?thesis by (simp add: recovering_def)
  next
    case False
    then have "underway v \<or> \<not> client_closing v \<and> progressing v \<or> reconnect_scheduled v"
      using b that by (auto simp: begun_def)
    then have "recovering ?u \<or> \<not> client_closing v \<and> progressing v"
      using scheduled_retask [OF False] by (auto simp: recovering_underway)
    then show ?thesis
      using recovering_enqueue_at [of ?u w ?f] v(6) w by (auto simp: progressing_def)
  qed
  then show ?thesis
    unfolding eq using base_enqueue_at [OF base w, of ?f] still_going_enqueue_at [of ?u w ?f] begun_still [OF b] w
    by (simp add: client_inv_def going_still)
qed

lemma begin_call_inv:
  assumes b: "begun (Fn_debounced (Debounced_call g ())) s v"
  shows "client_inv (begin_function (Fn_debounced (Debounced_call g ())) v)"
proof -
  let ?as = "if dt_generation (reconnect_task v) = g \<and> scope_running (scope v) then [D_connect] else []"
  have "client_inv (v\<lparr>thread := ?as\<rparr>)"
  proof (rule begun_plain [OF b])
    show "recovering v \<or> \<not> client_closing v \<and> progressing v \<or> recovering (v\<lparr>thread := ?as\<rparr>)"
      if "scope_running (scope v)"
      using b that by (auto simp: begun_def recovering_underway) (simp add: underway_def)+
  qed auto
  moreover have "begin_function (Fn_debounced (Debounced_call g ())) v = v\<lparr>thread := ?as\<rparr>"
    by simp
  ultimately show ?thesis by metis
qed

lemma begin_inv:
  assumes b: "begun f s v" and bound: "sessions (begin_function f v) < 2 ^ 64"
  shows "client_inv (begin_function f v)"
proof (cases f)
  case Fn_start
  then show ?thesis using b begin_start_inv by simp
next
  case Fn_stop
  then show ?thesis
    using end_session_inv [OF b, of "scope_stop (scope v)"] bound by (simp add: scope_defs)
next
  case Fn_invalidate
  then show ?thesis
    using end_session_inv [OF b, of "scope_invalidate (scope v)"] bound by (simp add: scope_defs)
next
  case (Fn_scoped t n)
  then show ?thesis using b begin_scoped_inv by simp
next
  case (Fn_debounced g)
  show ?thesis
  proof (cases g)
    case (Debounce_in_dispatcher x w)
    have "x = ()" by simp
    then show ?thesis
      using begin_debounce_inv [of w s v] b by (simp only: Fn_debounced Debounce_in_dispatcher)
  next
    case (Debounced_call k x)
    have "x = ()" by simp
    then show ?thesis
      using begin_call_inv [of k s v] b by (simp only: Fn_debounced Debounced_call)
  next
    case Cancel_debounced
    then show ?thesis
      using begin_cancel_inv [of s v] b by (simp only: Fn_debounced)
  qed
next
  case (Fn_callback cb ec data)
  have "client_inv (v\<lparr>thread := [D_callback cb ec data]\<rparr>)"
    using b Fn_callback by (intro begun_plain [OF b]) (auto simp: begun_def recovering_underway)
  then show ?thesis using Fn_callback by simp
qed

lemma take_inv:
  assumes inv: "client_inv s" and idle: "thread s = []" and d: "disp s = Some d"
    and run: "worker_iteration now d = (Run e, d')" and e: "object_id_value e = client_oid s"
    and t: "t = (case call_function e d' of
         None \<Rightarrow> s\<lparr>disp := Some d'\<rparr> | Some f \<Rightarrow> begin_function f (s\<lparr>disp := Some d'\<rparr>))"
    and bound: "sessions t < 2 ^ 64"
  shows "client_inv t"
proof (cases "call_function e d'")
  case None
  note took = took [OF queue_of_inv [OF inv] d run e]
  have "base_inv (s\<lparr>disp := Some d'\<rparr>)"
    using took by (intro base_disp) (use inv in \<open>auto simp: client_inv_def\<close>)
  then show ?thesis using None t took(3,4) by (simp add: client_inv_def)
next
  case (Some f)
  have "alive s"
    using took(4) [OF queue_of_inv [OF inv] d run e] Some by simp
  moreover have "f = entry_function e"
    using Some by (simp add: call_function_def split: if_splits)
  ultimately show ?thesis
    using begin_inv [OF begunI [OF inv idle d run e]] t Some bound by simp
qed

section \<open>The actions of a running function\<close>

lemma thread_ok_tail: "thread_ok (a # as) \<Longrightarrow> thread_ok as"
  by (cases a) auto

text \<open>An action leaves the thread and may post tasks.\<close>

definition acted :: "'cb client \<Rightarrow> 'cb client_action list \<Rightarrow> 'cb io_task list \<Rightarrow> 'cb client" where
  "acted s as us = s\<lparr>thread := as, io := io s @ us\<rparr>"

lemma acted_fields [simp]:
  "thread (acted s as us) = as" "io (acted s as us) = io s @ us" "scope (acted s as us) = scope s"
  "requests (acted s as us) = requests s" "client_peer (acted s as us) = client_peer s"
  "connecting_socket (acted s as us) = connecting_socket s" "sessions (acted s as us) = sessions s"
  "connects (acted s as us) = connects s" "next_ref (acted s as us) = next_ref s"
  "peer_session (acted s as us) = peer_session s" "live_peers (acted s as us) = live_peers s"
  "silenced_peers (acted s as us) = silenced_peers s" "peer_signals (acted s as us) = peer_signals s"
  "reconnect_task (acted s as us) = reconnect_task s" "requests_made (acted s as us) = requests_made s"
  "own (acted s as us) = own s" "control (acted s as us) = control s" "alive (acted s as us) = alive s"
  "queue_ok (acted s as us) = queue_ok s"
  by (simp_all add: acted_def)

lemma base_acted:
  assumes base: "base_inv s" and th: "thread s = a # as"
    and closing: "client_closing (acted s as us) = client_closing s"
    and attempts: "(\<Union>u \<in> set us. task_attempts u) \<subseteq> action_attempts a"
    and us: "\<And>c. Io_connect c \<in> set us \<Longrightarrow> c = now_token s" "Io_shutdown \<notin> set us"
      "\<And>p t. Io_peer_closed p t \<notin> set us"
  shows "base_inv (acted s as us)"
proof (rule baseI)
  note order = baseD(1) [OF base]
  have "unat (now_token s) \<le> sessions s"
    using order by (simp add: order_inv_def unat_of_nat)
  then show "order_inv (acted s as us)"
    using order th us thread_ok_tail [of a as] by (auto simp: order_inv_def)
  have "attempts (acted s as us) \<subseteq> attempts s"
    using th attempts by (auto simp: attempts_def)
  then show "refs_inv (acted s as us)"
    using us(3) by (intro refs_keep [OF baseD(2) [OF base]]) auto
  show "requests_inv (acted s as us)"
    by (rule requests_same [OF baseD(3) [OF base]]) (simp_all add: closing)
  show "holding_inv (acted s as us)"
    using baseD(4) [OF base] closing by (simp add: holding_inv_def progressing_def)
qed

lemma still_going_acted:
  assumes "still_going s" and th: "thread s = a # as"
    and closing: "client_closing (acted s as us) = client_closing s"
    and attempts: "action_attempts a \<subseteq> (\<Union>u \<in> set us. task_attempts u)"
    and us: "connects_last (now_token s) us"
      "Io_connect (now_token s) \<in> set us \<Longrightarrow> \<not> closing_thread (acted s as us)"
      "Io_connect (now_token s) \<in> set (io s) \<Longrightarrow> \<forall>u \<in> set us. \<not> closing_task u"
  shows "still_going (acted s as us)"
proof -
  have "attempt_live s sk \<Longrightarrow> attempt_live (acted s as us) sk" for sk
    using th attempts by (fastforce simp: attempt_live_def)
  moreover have "peer_live s p \<Longrightarrow> peer_live (acted s as us) p" for p
    by (auto simp: peer_live_def)
  moreover have "closing_thread (acted s as us) \<longrightarrow> closing_thread s"
    using th by (auto simp: closing_thread_def)
  ultimately show ?thesis
    using assms(1) us closing by (auto simp: still_going_def connects_last_append)
qed

lemma recovering_acted:
  assumes "recovering s" and "thread s = a # as"
    and "a = D_connect \<Longrightarrow> Io_connect (now_token s) \<in> set us"
    and "a = D_post_invalidate \<Longrightarrow> Io_invalidate (now_token s) \<in> set us"
    and "a \<noteq> D_schedule_reconnect"
  shows "recovering (acted s as us)"
  using assms by (auto simp: recovering_def reconnect_scheduled_unfold)

lemma acted_inv:
  assumes inv: "client_inv s" and th: "thread s = a # as"
    and closing: "client_closing (acted s as us) = client_closing s"
    and attempts: "(\<Union>u \<in> set us. task_attempts u) = action_attempts a"
    and us: "\<And>c. Io_connect c \<in> set us \<Longrightarrow> c = now_token s" "Io_shutdown \<notin> set us"
      "\<And>p t. Io_peer_closed p t \<notin> set us" "connects_last (now_token s) us"
      "Io_connect (now_token s) \<in> set us \<Longrightarrow> as = []"
      "Io_connect (now_token s) \<in> set (io s) \<Longrightarrow> still_going s \<Longrightarrow> \<forall>u \<in> set us. \<not> closing_task u"
    and rec: "a = D_connect \<Longrightarrow> Io_connect (now_token s) \<in> set us"
      "a = D_post_invalidate \<Longrightarrow> Io_invalidate (now_token s) \<in> set us" "a \<noteq> D_schedule_reconnect"
  shows "client_inv (acted s as us)"
proof -
  have "base_inv (acted s as us)"
    using inv attempts us(1-3) by (intro base_acted [OF _ th closing]) (auto simp: client_inv_def)
  moreover have "going_inv (acted s as us)" if "alive s"
  proof -
    have g: "going_inv s" using inv that by (simp add: client_inv_def)
    then have "still_going (acted s as us)"
      using attempts us(4-6)
      by (intro still_going_acted [OF _ th closing]) (auto simp: going_still closing_thread_def)
    then show ?thesis
      using g recovering_acted [OF _ th rec] closing by (auto simp: going_still progressing_def)
  qed
  ultimately show ?thesis by (simp add: client_inv_def)
qed

lemma log_inv:
  assumes "client_inv s"
  shows "client_inv (s\<lparr>client_log := x\<rparr>)" "client_inv (s\<lparr>delivered := y\<rparr>)"
  by (rule idle_inv [OF assms]; simp add: queue_of_inv [OF assms] same_view_def busy_io_def busy_own_def)+

lemma acted_none: "acted s as [] = s\<lparr>thread := as\<rparr>"
  by (simp add: acted_def)

lemma post_acted: "post_io u (s\<lparr>thread := as\<rparr>) = acted s as [u]"
  by (simp add: acted_def post_io_def)

lemma cancel_action_inv:
  assumes inv: "client_inv s" and th: "thread s = D_cancel_reconnect # as"
  shows "client_inv (enqueue_own (Fn_debounced Cancel_debounced) when_immediately (s\<lparr>thread := as\<rparr>))"
proof -
  let ?s = "s\<lparr>thread := as\<rparr>"
  have order: "order_inv s" using inv by (simp add: client_inv_def base_inv_def)
  have "client_closing ?s = client_closing s"
    using th by (simp add: client_closing_def closing_thread_def)
  then have "client_inv (acted s as [])"
    by (intro acted_inv [OF inv th]) (simp_all add: acted_none)
  then have v: "client_inv ?s" by (simp add: acted_none)
  have "recovering (enqueue_own (Fn_debounced Cancel_debounced) when_immediately ?s)"
    if "scope_running (scope s)"
    using order th that by (auto simp: order_inv_def recovering_def)
  then show ?thesis
    using v base_enqueue [of ?s "Fn_debounced Cancel_debounced"] still_going_enqueue
    by (auto simp: client_inv_def going_still)
qed

lemma schedule_action_inv:
  assumes inv: "client_inv s" and th: "thread s = D_schedule_reconnect # as" and "clock_ok now"
  shows "client_inv (schedule_reconnect now (s\<lparr>thread := as\<rparr>))"
proof -
  let ?s = "s\<lparr>thread := as\<rparr>"
  have base: "base_inv s" using inv by (simp add: client_inv_def)
  have closing: "client_closing (acted s as []) = client_closing s"
    using th by (simp add: client_closing_def closing_thread_def)
  have base': "base_inv ?s"
    using base_acted [OF base th closing] by (simp add: acted_none)
  have still: "still_going ?s" if "alive s"
    using still_going_acted [OF _ th closing] inv that by (simp add: client_inv_def going_still acted_none)
  let ?w = "when_now now (disp s) +
    normalize_scheduling_interval (reconnect_interval (client_params (client_opts s)))"
  let ?f = "Fn_debounced (Debounce_in_dispatcher () ?w)"
  have w: "1 \<le> ?w"
  proof -
    have "0 \<le> when_now now (disp s)"
      using assms(3) by (simp add: when_now_def clock_ok_def when_immediately_def split: option.splits)
    then show ?thesis
      using normalize_scheduling_interval_bounds(1)
        [of "reconnect_interval (client_params (client_opts s))"] by linarith
  qed
  show ?thesis
  proof (cases "scope_running (scope s)")
    case False
    then show ?thesis
      using base' still by (simp add: schedule_own client_inv_def going_still)
  next
    case True
    let ?t = "enqueue_own ?f when_immediately ?s"
    have "control ?t = control s @ (if alive s then [?f] else [])"
      using enqueue_own_queue_ok(2) [of ?s when_immediately ?f] baseD(5) [OF base'] w by simp
    then have "alive s \<Longrightarrow> recovering ?t"
      by (simp add: recovering_def reconnect_scheduled_unfold)
    then show ?thesis
      using True base_enqueue [OF base', of ?f] w still_going_enqueue [OF still]
      by (simp add: schedule_own client_inv_def going_still)
  qed
qed

lemma action_inv:
  assumes inv: "client_inv s" and th: "thread s = a # as" and clock: "clock_ok now"
  shows "client_inv (run_action verify now a (s\<lparr>thread := as\<rparr>))"
proof -
  have shape: "thread_ok (a # as)"
    using inv th by (simp add: client_inv_def base_inv_def order_inv_def)
  have plain: "client_inv (s\<lparr>thread := as\<rparr>)"
    if "a \<noteq> D_connect" "a \<noteq> D_post_stop" "a \<noteq> D_post_invalidate" "a \<noteq> D_schedule_reconnect"
      "action_attempts a = {}"
  proof -
    have "client_closing (acted s as []) = client_closing s"
      using th that by (auto simp: client_closing_def closing_thread_def)
    then show ?thesis
      using acted_inv [OF inv th, of "[]"] that by (simp add: acted_none)
  qed
  show ?thesis
  proof (cases a)
    case D_connect
    then have "client_inv (acted s as [Io_connect (now_token s)])"
      using shape th by (intro acted_inv [OF inv th]) (auto simp: client_closing_def closing_thread_def)
    then show ?thesis using D_connect by (simp add: post_acted capture_def)
  next
    case D_cancel_reconnect
    then show ?thesis
      using cancel_action_inv [OF inv] th cancel_own [of "s\<lparr>thread := as\<rparr>"] by simp
  next
    case D_post_stop
    then have "client_inv (acted s as [Io_stop])"
      using shape th
      by (intro acted_inv [OF inv th]) (auto simp: client_closing_def closing_thread_def still_going_def)
    then show ?thesis using D_post_stop by (simp add: post_acted)
  next
    case D_post_invalidate
    then have "client_inv (acted s as [Io_invalidate (now_token s)])"
      using shape th
      by (intro acted_inv [OF inv th]) (auto simp: client_closing_def closing_thread_def still_going_def)
    then show ?thesis using D_post_invalidate by (simp add: post_acted capture_def)
  next
    case D_schedule_reconnect
    then show ?thesis using schedule_action_inv [OF inv _ clock] th by simp
  next
    case (D_signal sig)
    then show ?thesis using log_inv(1) [OF plain] by simp
  next
    case (D_verify sk c t)
    then have "client_inv (acted s as [Io_handle_connected sk c (verify c) t])"
      using shape th by (intro acted_inv [OF inv th]) (auto simp: client_closing_def closing_thread_def)
    then show ?thesis using D_verify by (simp add: post_acted)
  next
    case (D_callback cb ec data)
    then show ?thesis using log_inv(2) [OF plain] by simp
  qed
qed

section \<open>The environment\<close>

lemma connect_ends_inv:
  assumes inv: "client_inv s" and c: "connects s = xs @ (sk, t) # ys"
  shows "client_inv (post_io (Io_connect_done sk t ec credentials) (s\<lparr>connects := xs @ ys\<rparr>))"
    (is "client_inv ?t")
proof -
  have closing: "client_closing ?t = client_closing s"
    by (simp add: client_closing_def closing_thread_def)
  have attempts: "attempts ?t = attempts s"
    using c by (auto simp: attempts_def)
  have base: "base_inv s" using inv by (simp add: client_inv_def)
  have "base_inv ?t"
  proof (rule baseI)
    show "order_inv ?t"
      using baseD(1) [OF base] by (simp add: order_inv_def)
    show "refs_inv ?t"
      by (rule refs_keep [OF baseD(2) [OF base]]) (simp_all add: attempts)
    show "requests_inv ?t"
      by (rule requests_same [OF baseD(3) [OF base]]) (simp_all add: closing)
    show "holding_inv ?t"
      using baseD(4) [OF base] closing by (simp add: holding_inv_def progressing_def)
  qed
  moreover have "going_inv ?t" if "alive s"
  proof -
    have "attempt_live s sk' \<Longrightarrow> attempt_live ?t sk'" for sk'
      using c by (auto simp: attempt_live_def)
    moreover have "peer_live ?t p = peer_live s p" for p
      by (simp add: peer_live_def)
    moreover have "recovering ?t = recovering s"
      by (simp add: recovering_def reconnect_scheduled_unfold)
    ultimately show ?thesis
      using inv that closing
      by (auto simp: client_inv_def going_still still_going_def closing_thread_def progressing_def
          connects_last_append)
  qed
  ultimately show ?thesis by (simp add: client_inv_def)
qed

text \<open>Signals of peers: only the liveness of a connection can change.\<close>

lemma peers_inv:
  assumes inv: "client_inv s"
    and live: "\<And>p. client_peer s = Some p \<Longrightarrow> peer_live s p \<Longrightarrow>
      peer_live (s\<lparr>peer_signals := sg, live_peers := lp, io := io s @ us\<rparr>) p"
    and us: "\<And>u. u \<in> set us \<Longrightarrow> idle_task u \<or>
      (\<exists>p t. u = Io_peer_closed p t \<and> map_option fst (peer_session s p) = Some t)"
  shows "client_inv (s\<lparr>peer_signals := sg, live_peers := lp, io := io s @ us\<rparr>)" (is "client_inv ?t")
proof -
  have not_closing: "\<forall>u \<in> set us. \<not> closing_task u" "\<forall>u \<in> set us. task_attempts u = {}"
    "Io_connect c \<notin> set us" "Io_invalidate c \<notin> set us" "Io_shutdown \<notin> set us" for c
    using us by (force simp: idle_task_simps)+
  have closing: "client_closing ?t = client_closing s"
    using not_closing(1) by (auto simp: client_closing_def closing_thread_def)
  have attempts: "attempts ?t = attempts s"
    using not_closing(2) by (auto simp: attempts_def)
  have last: "connects_last c (io s @ us) = connects_last c (io s)" for c
    using not_closing(1,3) connects_last_absent [of c us] by (auto simp: connects_last_append)
  have base: "base_inv s" using inv by (simp add: client_inv_def)
  have "base_inv ?t"
  proof (rule baseI)
    show "order_inv ?t"
      using baseD(1) [OF base] not_closing by (auto simp: order_inv_def)
    show "refs_inv ?t"
      using baseD(2) [OF base] us unfolding refs_inv_def attempts by fastforce
    show "requests_inv ?t"
      by (rule requests_same [OF baseD(3) [OF base]]) (simp_all add: closing)
    show "holding_inv ?t"
      using baseD(4) [OF base] closing by (simp add: holding_inv_def progressing_def)
  qed
  moreover have "going_inv ?t" if "alive s"
  proof -
    have "attempt_live s sk \<Longrightarrow> attempt_live ?t sk" for sk
      by (auto simp: attempt_live_def)
    moreover have "recovering ?t = recovering s"
      using not_closing by (auto simp: recovering_def reconnect_scheduled_unfold)
    ultimately show ?thesis
      using inv that closing live last not_closing
      by (fastforce simp: client_inv_def going_still still_going_def closing_thread_def progressing_def)
  qed
  ultimately show ?thesis by (simp add: client_inv_def)
qed

lemma peer_announces_inv:
  assumes inv: "client_inv s"
  shows "client_inv
      (s\<lparr>peer_signals := peer_signals s @ [(p, sig)],
         live_peers := (if sig = Sig_closed then live_peers s - {p} else live_peers s)\<rparr>)"
    (is "client_inv (s\<lparr>peer_signals := ?sg, live_peers := ?lp\<rparr>)")
proof -
  have "client_inv (s\<lparr>peer_signals := ?sg, live_peers := ?lp, io := io s @ []\<rparr>)"
    by (rule peers_inv [OF inv]) (auto simp: peer_live_def)
  then show ?thesis by simp
qed

lemma peer_gone_inv:
  assumes inv: "client_inv s" and "client_peer s \<noteq> Some p"
  shows "client_inv
      (s\<lparr>peer_signals := filter (\<lambda>(q, _). q \<noteq> p) (peer_signals s), live_peers := live_peers s - {p}\<rparr>)"
    (is "client_inv (s\<lparr>peer_signals := ?sg, live_peers := ?lp\<rparr>)")
proof -
  have "client_inv (s\<lparr>peer_signals := ?sg, live_peers := ?lp, io := io s @ []\<rparr>)"
    by (rule peers_inv [OF inv]) (use assms(2) in \<open>auto simp: peer_live_def\<close>)
  then show ?thesis by simp
qed

lemma peer_slot_inv:
  assumes inv: "client_inv s" and sg: "peer_signals s = xs @ (p, sig) # ys"
  shows "client_inv (peer_slot p sig (s\<lparr>peer_signals := xs @ ys\<rparr>))"
proof -
  define us where "us = io (peer_slot p sig (s\<lparr>peer_signals := xs @ ys, io := []\<rparr>))"
  have eq: "peer_slot p sig (s\<lparr>peer_signals := xs @ ys\<rparr>) =
      s\<lparr>peer_signals := xs @ ys, live_peers := live_peers s, io := io s @ us\<rparr>"
    by (cases sig) (simp_all add: us_def peer_slot_def post_io_def split: option.split)
  have us: "idle_task u \<or> (\<exists>q t. u = Io_peer_closed q t \<and> map_option fst (peer_session s q) = Some t)"
    if "u \<in> set us" for u
    using that by (cases sig) (auto simp: us_def peer_slot_def split: option.splits if_splits)
  have closed: "Io_peer_closed p (now_token s) \<in> set us"
    if "sig = Sig_closed" "peer_session s p = Some (now_token s, c)" "p \<notin> silenced_peers s" for c
    using that by (simp add: us_def peer_slot_def)
  have "peer_live (s\<lparr>peer_signals := xs @ ys, live_peers := live_peers s, io := io s @ us\<rparr>) q"
    if "peer_live s q" for q
    using that closed sg by (auto simp: peer_live_def)
  then show ?thesis
    unfolding eq by (intro peers_inv [OF inv] us) auto
qed

text \<open>Once the dispatcher no longer serves the client, its functions are gone.\<close>

lemma dead_inv:
  assumes inv: "client_inv s" and "\<not> alive (s\<lparr>disp := x\<rparr>)" and "queue_ok (s\<lparr>disp := x\<rparr>)"
    and "set (own (s\<lparr>disp := x\<rparr>)) \<subseteq> set (own s)"
  shows "client_inv (s\<lparr>disp := x\<rparr>)"
  using base_disp [of s x] assms by (auto simp: client_inv_def)

lemma dispatcher_gone_inv: "client_inv s \<Longrightarrow> client_inv (s\<lparr>disp := None\<rparr>)"
  by (rule dead_inv) (simp_all add: alive_unfold queue_ok_unfold own_unfold)

lemma detached_inv:
  assumes inv: "client_inv s" and d: "disp s = Some d" and detach: "detach (client_oid s) d = (True, d')"
  shows "client_inv (s\<lparr>disp := Some d'\<rparr>)" "\<not> alive (s\<lparr>disp := Some d'\<rparr>)"
proof -
  note detached = detach_owned [OF detach]
  show dead: "\<not> alive (s\<lparr>disp := Some d'\<rparr>)"
    using detached(2) by (simp add: alive_def)
  show "client_inv (s\<lparr>disp := Some d'\<rparr>)"
    using detached(1,3) queue_of_inv [OF inv] d
    by (intro dead_inv [OF inv dead]) (simp_all add: queue_ok_def own_def)
qed

lemma shutdown_posted:
  assumes inv: "client_inv s" and dead: "\<not> alive s"
    and sc: "generation sc = of_nat k" "sessions s \<le> k" "scope_running sc \<Longrightarrow> scope_running (scope s)"
  shows "client_inv (post_io Io_shutdown (s\<lparr>scope := sc, sessions := k\<rparr>))" (is "client_inv ?t")
proof -
  have base: "base_inv s" using inv by (simp add: client_inv_def)
  have closing: "client_closing ?t"
    by (simp add: client_closing_def)
  have attempts: "attempts ?t = attempts s"
    by (simp add: attempts_def)
  have "base_inv ?t"
  proof (rule baseI)
    show "order_inv ?t"
      using baseD(1) [OF base] dead sc by (auto simp: order_inv_def intro: le_trans)
    show "refs_inv ?t"
      by (rule refs_keep [OF baseD(2) [OF base]]) (simp_all add: attempts)
    show "requests_inv ?t"
      using baseD(3) [OF base] closing by (auto simp: requests_inv_def request_tokens_ok_def)
    show "holding_inv ?t"
      using baseD(4) [OF base] closing by (simp add: holding_inv_def)
  qed
  then show ?thesis using dead by (simp add: client_inv_def)
qed

lemma cleanup_dead: "\<not> alive s \<Longrightarrow>
    client_cleanup s = s\<lparr>scope := scope_stop (scope s), sessions := Suc (sessions s)\<rparr>"
  using cancel_own [of "s\<lparr>scope := scope_stop (scope s), sessions := Suc (sessions s)\<rparr>"]
  by (simp add: client_cleanup_def Let_def enqueue_own_alive(2))

lemma async_shutdown_inv:
  assumes "client_inv s"
  shows "client_inv (client_async_shutdown on_thread s)"
proof (cases "shutdown_started s")
  case True
  then show ?thesis using assms by (simp add: client_async_shutdown_def)
next
  case False
  let ?s = "s\<lparr>shutdown_started := True\<rparr>"
  have inv: "client_inv ?s"
    by (rule idle_inv [OF assms])
       (simp_all add: queue_of_inv [OF assms] same_view_def busy_io_def busy_own_def)
  have token: "now_token v = of_nat (sessions v)" if "client_inv v" for v :: "'a client"
    using that by (simp add: client_inv_def base_inv_def order_inv_def)
  have plain: "client_inv (post_io Io_shutdown v)" if "client_inv v" "\<not> alive v" for v :: "'a client"
    using shutdown_posted [OF that, of "scope v" "sessions v"] token [OF that(1)] by simp
  have cleaned: "client_inv (post_io Io_shutdown (client_cleanup v))"
    if "client_inv v" "\<not> alive v" for v :: "'a client"
    unfolding cleanup_dead [OF that(2)] using token [OF that(1)]
    by (intro shutdown_posted [OF that]) (simp_all add: scope_stop_def scope_invalidate_def)
  have "client_inv (post_io Io_shutdown (client_detach on_thread ?s))"
  proof (cases "disp s")
    case None
    then show ?thesis using plain [OF inv] by (simp add: client_detach_def alive_unfold)
  next
    case (Some d)
    obtain ok d' where detach: "detach (client_oid s) d = (ok, d')" by fastforce
    show ?thesis
    proof (cases ok)
      case True
      note gone = detached_inv [OF inv, of d d']
      then show ?thesis
        using True Some detach plain cleaned by (simp add: client_detach_def Let_def)
    next
      case False
      then have "\<not> alive ?s"
        using detach Some by (auto simp: alive_unfold detach_def split: if_splits)
      then show ?thesis
        using False Some detach plain [OF inv] by (simp add: client_detach_def)
    qed
  qed
  then show ?thesis using False by (simp add: client_async_shutdown_def)
qed

section \<open>The machine\<close>

lemma initial_inv: "client_initial s \<Longrightarrow> client_inv s"
proof -
  assume "client_initial s"
  then obtain p options oid d where s: "s = new_client p options oid d" and d: "dispatcher_inv d"
    "oid \<notin> object_ids d"
    by (auto simp: client_initial_def)
  have "dispatcher_inv (snd (attach oid d))"
    using attach_inv d(1) by blast
  moreover have "own_entries oid (snd (attach oid d)) = []"
    using d by (auto simp: own_entries_def attach_def filter_empty_conv dispatcher_inv_def queue_owned_def)
  ultimately show ?thesis
    by (auto simp: s new_client_def client_inv_def base_inv_def order_inv_def refs_inv_def requests_inv_def
        holding_inv_def going_inv_def progressing_def queue_ok_unfold attempts_def own_unfold closing_thread_def
        request_tokens_ok_def requests_made_def new_notification_scope_def new_request_manager_inv)
      (auto simp: new_request_manager_def)
qed

lemma step_inv:
  assumes "client_step verify ep s t" and "client_inv s" and "within_bounds t"
  shows "client_inv t"
  using assms
proof (induction rule: client_step.induct)
  case (cl_take s d now e d')
  then show ?case
    using take_inv [of s d now e d'] by (simp add: within_bounds_def)
next
  case (cl_io s t ts)
  then show ?case using run_io_inv [of s t ts ep] by (simp add: within_bounds_def)
next
  case (cl_peer_announces s p)
  then show ?case using peer_announces_inv by blast
qed (auto simp: client_async_start_def client_async_stop_def client_async_invalidate_connection_def
      client_async_send_def client_async_respond_def client_async_request_def to_dispatcher_own
    intro: enqueue_idle_inv post_idle_inv async_shutdown_inv action_inv connect_ends_inv expire_inv
      io_request_timer_inv peer_announces_inv peer_slot_inv peer_gone_inv other_objects_inv
      dispatcher_gone_inv)

text \<open>The counters only grow.\<close>

definition counters :: "'cb client \<Rightarrow> 'cb client \<Rightarrow> bool" where
  "counters s t \<longleftrightarrow> sessions s \<le> sessions t \<and> requests_made s \<le> requests_made t"

lemma counters_same [simp]: "counters s s"
  by (simp add: counters_def)

lemma close_peer_counters [simp]:
  "sessions (request_timed_out t s) = sessions s" "requests_made (request_timed_out t s) = requests_made s"
  by (simp_all add: request_timed_out_def notify_only_own split_beta split: option.split)

lemma run_io_counters: "counters s (run_io ep u (s\<lparr>io := ts\<rparr>))"
proof -
  have "counters s (send_request data cb (s\<lparr>io := ts\<rparr>))" for data cb
    by (simp add: send_request_def counters_def to_dispatcher_own split: option.split prod.split)
  moreover have "counters s (io_stop (s\<lparr>io := ts\<rparr>))"
    by (simp add: io_stop_def counters_def)
  moreover have "counters s (to_peer c (s\<lparr>io := ts\<rparr>))" for c
    by (simp add: to_peer_def counters_def split: option.split)
  ultimately show ?thesis
    by (cases u)
      (simp_all add: counters_def io_connect_def io_connect_done_def handle_connected_socket_def Let_def
        notify_own notify_only_own io_invalidate_def io_shutdown_def io_peer_closed_def
        io_peer_error_occurred_def if_peer_def split: option.split)
qed

lemma begin_counters: "counters s (begin_function f (s\<lparr>disp := x\<rparr>))"
proof (cases f)
  case (Fn_debounced g)
  then show ?thesis
    by (simp add: counters_def split_beta)
qed (auto simp: counters_def run_scoped_def requests_made_def split: option.split)

lemma action_counters: "counters s (run_action verify now a (s\<lparr>thread := as\<rparr>))"
  by (cases a) (simp_all add: counters_def schedule_own)

lemma shutdown_counters: "counters s (client_async_shutdown on_thread s)"
proof -
  have "sessions (client_cleanup v) = Suc (sessions v)" "requests_made (client_cleanup v) = requests_made v"
    for v :: "'a client"
    by (simp_all add: client_cleanup_def Let_def requests_made_def)
  then have "counters v (client_detach on_thread v)" for v :: "'a client"
    by (simp add: client_detach_def counters_def Let_def split: option.split prod.split bool.split)
  from this [of "s\<lparr>shutdown_started := True\<rparr>"] show ?thesis
    by (simp add: client_async_shutdown_def counters_def)
qed

lemma step_counters: "client_step verify ep s t \<Longrightarrow> counters s t"
proof (induction rule: client_step.induct)
  case (cl_take s d now e d')
  then show ?case
    using begin_counters by (auto simp: counters_def split: option.split)
next
  case (cl_peer_slot s xs p sig ys)
  then show ?case
    by (cases sig) (simp_all add: peer_slot_def counters_def split: option.split)
next
  case (cl_request_timer s)
  then show ?case
    by (simp add: io_request_timer_def counters_def Let_def split: prod.split option.split)
next
  case (cl_action s a as now)
  then show ?case by (simp add: action_counters)
next
  case (cl_io s t ts)
  then show ?case by (simp add: run_io_counters)
next
  case (cl_shutdown s on_thread)
  then show ?case by (simp add: shutdown_counters)
qed (simp_all add: counters_def client_async_start_def client_async_stop_def
    client_async_invalidate_connection_def client_async_send_def client_async_respond_def
    client_async_request_def to_dispatcher_own)

text \<open>The invariant of the machine: unless a counter has wrapped around, the client is in order.\<close>

definition bounded_inv :: "'cb client \<Rightarrow> bool" where
  "bounded_inv s \<longleftrightarrow> (within_bounds s \<longrightarrow> client_inv s)"

interpretation client_machine: event_machine client_initial "client_step verify ep" bounded_inv
proof
  show "bounded_inv s" if "client_initial s" for s :: "'a client"
    using initial_inv [OF that] by (simp add: bounded_inv_def)
  show "bounded_inv t" if "bounded_inv s" "client_step verify ep s t" for s t :: "'a client"
    using step_inv [OF that(2)] step_counters [OF that(2)] that(1)
    by (auto simp: bounded_inv_def within_bounds_def counters_def)
qed

end
