(* ===== verification/Client_Signals.thy ===== *)
theory Client_Signals
  imports Client_Machine
begin

text \<open>
  The notifications and the request callbacks a client has in flight, as multisets: what is in its
  queue, in the function that runs, and delivered. From them: which signals the client can give,
  and that every request is answered once.
\<close>

section \<open>What is in flight\<close>

fun notification_signals :: "client_notification \<Rightarrow> client_signal multiset" where
  "notification_signals (N_connect_failed ec) = {#S_connect_failed ec#}"
| "notification_signals (N_peer_verification_failed credentials) =
     {#S_peer_verification_failed credentials#}"
| "notification_signals (N_connected p credentials) = {#S_connected p credentials#}"
| "notification_signals (N_received data) = {#S_received data#}"
| "notification_signals (N_request_received rid data) = {#S_request_received rid data#}"
| "notification_signals (N_error_occurred ec) = {#S_error_occurred ec#}"
| "notification_signals (N_closed p) = {#S_closed p#}"
| "notification_signals _ = {#}"

fun function_signals :: "'cb client_function \<Rightarrow> client_signal multiset" where
  "function_signals (Fn_scoped _ n) = notification_signals n"
| "function_signals _ = {#}"

fun action_signals :: "'cb client_action \<Rightarrow> client_signal multiset" where
  "action_signals (D_signal sig) = {#sig#}"
| "action_signals _ = {#}"

fun function_callbacks :: "'cb client_function \<Rightarrow> 'cb multiset" where
  "function_callbacks (Fn_callback cb _ _) = {#cb#}"
| "function_callbacks _ = {#}"

fun action_callbacks :: "'cb client_action \<Rightarrow> 'cb multiset" where
  "action_callbacks (D_callback cb _ _) = {#cb#}"
| "action_callbacks _ = {#}"

fun task_callbacks :: "'cb io_task \<Rightarrow> 'cb multiset" where
  "task_callbacks (Io_request _ cb) = {#cb#}"
| "task_callbacks _ = {#}"

definition announced :: "'cb client \<Rightarrow> client_signal multiset" where
  "announced s = mset (client_log s) + (\<Sum>a \<in># mset (thread s). action_signals a) +
     (\<Sum>f \<in># mset (own s). function_signals f)"

definition callbacks :: "'cb client \<Rightarrow> 'cb multiset" where
  "callbacks s = image_mset fst (mset (delivered s)) + (\<Sum>a \<in># mset (thread s). action_callbacks a) +
     (\<Sum>f \<in># mset (own s). function_callbacks f) + pending_callbacks (requests s) +
     (\<Sum>t \<in># mset (io s). task_callbacks t)"

lemma mset_own_enqueue [simp]:
  "mset (own (enqueue_own f w s)) = mset (own s) + (if alive s then {#f#} else {#})"
  by (simp add: own_def alive_def enqueue_own_def)

lemma mset_own_completions:
  "mset (own (enqueue_completions out s)) = mset (own s) +
     (if alive s then image_mset (\<lambda>(cb, ec, data). Fn_callback cb ec data) (mset out) else {#})"
  by (induction out s rule: enqueue_completions.induct) (simp_all add: to_dispatcher_own)

section \<open>Signals\<close>

lemma announced_update [simp]:
  "announced (s\<lparr>scope := ns\<rparr>) = announced s"
  "announced (s\<lparr>requests := rm\<rparr>) = announced s"
  "announced (s\<lparr>connecting_socket := cs\<rparr>) = announced s"
  "announced (s\<lparr>client_peer := cp\<rparr>) = announced s"
  "announced (s\<lparr>shutdown_started := sd\<rparr>) = announced s"
  "announced (s\<lparr>reconnect_task := dt\<rparr>) = announced s"
  "announced (s\<lparr>io := ts\<rparr>) = announced s"
  "announced (s\<lparr>connects := xs\<rparr>) = announced s"
  "announced (s\<lparr>next_ref := n\<rparr>) = announced s"
  "announced (s\<lparr>peer_session := ps\<rparr>) = announced s"
  "announced (s\<lparr>live_peers := lp\<rparr>) = announced s"
  "announced (s\<lparr>silenced_peers := sp\<rparr>) = announced s"
  "announced (s\<lparr>peer_signals := sg\<rparr>) = announced s"
  "announced (s\<lparr>peer_calls := pc\<rparr>) = announced s"
  "announced (s\<lparr>delivered := dl\<rparr>) = announced s"
  "announced (s\<lparr>sessions := k\<rparr>) = announced s"
  "announced (post_io t s) = announced s"
  "announced (call_peer p c s) = announced s"
  "announced (close_socket_ref sk s) = announced s"
  "announced (close_connecting_socket s) = announced s"
  by (simp_all add: announced_def)

lemma announced_enqueue [simp]:
  "announced (enqueue_own f w s) = announced s + (if alive s then function_signals f else {#})"
  by (simp add: announced_def)

lemma announced_completions [simp]: "announced (enqueue_completions out s) = announced s"
  by (induction out s rule: enqueue_completions.induct) (simp_all add: to_dispatcher_own)

lemma announced_requests [simp]: "announced (with_requests r s) = announced s"
  by (simp add: with_requests_def)

lemma announced_close_peer [simp]: "announced (snd (client_close_peer ec s)) = announced s"
  by (simp add: client_close_peer_def Let_def split: option.split)

fun connected_of :: "peer_ref \<Rightarrow> client_signal \<Rightarrow> bool" where
  "connected_of p (S_connected q _) = (q = p)"
| "connected_of p _ = False"

fun connected_task :: "peer_ref \<Rightarrow> 'cb io_task \<Rightarrow> bool" where
  "connected_task p (Io_notify_connected q _ _) = (q = p)"
| "connected_task p _ = False"

definition connected_count :: "peer_ref \<Rightarrow> 'cb client \<Rightarrow> nat" where
  "connected_count p s =
     size (filter_mset (connected_of p) (announced s)) + length (filter (connected_task p) (io s))"

definition closed_count :: "peer_ref \<Rightarrow> 'cb client \<Rightarrow> nat" where
  "closed_count p s = count (announced s) (S_closed p) + (if client_peer s = Some p then 1 else 0)"

text \<open>
  Connections are with verified servers; only they are called, and each gives one \<open>connected\<close> and
  one \<open>closed\<close> at most.
\<close>

definition announce_inv :: "(peer_credentials \<Rightarrow> bool) \<Rightarrow> 'cb client \<Rightarrow> bool" where
  "announce_inv verify s \<longleftrightarrow>
     (\<forall>p t c. peer_session s p = Some (t, c) \<longrightarrow> verify c) \<and>
     (\<forall>p c t. Io_notify_connected p c t \<in> set (io s) \<longrightarrow> verify c) \<and>
     (\<forall>p c. S_connected p c \<in># announced s \<longrightarrow> verify c) \<and>
     (\<forall>sk c v t. Io_handle_connected sk c v t \<in> set (io s) \<longrightarrow> v = verify c) \<and>
     (\<forall>p call. (p, call) \<in> set (peer_calls s) \<longrightarrow> peer_session s p \<noteq> None) \<and>
     (\<forall>p. client_peer s = Some p \<longrightarrow> peer_session s p \<noteq> None) \<and>
     (\<forall>p. peer_session s p \<noteq> None \<longrightarrow> p < next_ref s) \<and>
     (\<forall>p. closed_count p s \<le> (if peer_session s p = None then 0 else 1)) \<and>
     (\<forall>p. connected_count p s \<le> (if peer_session s p = None then 0 else 1))"

lemma announce_frame:
  assumes inv: "announce_inv verify s" and "peer_session t = peer_session s"
    and "next_ref s \<le> next_ref t"
    and "\<And>p c k. Io_notify_connected p c k \<in> set (io t) \<Longrightarrow> Io_notify_connected p c k \<in> set (io s)"
    and "\<And>sk c v k. Io_handle_connected sk c v k \<in> set (io t) \<Longrightarrow>
      Io_handle_connected sk c v k \<in> set (io s) \<or> v = verify c"
    and "\<And>p c. S_connected p c \<in># announced t \<Longrightarrow>
      S_connected p c \<in># announced s \<or> (\<exists>k. Io_notify_connected p c k \<in> set (io s))"
    and "\<And>p call. (p, call) \<in> set (peer_calls t) \<Longrightarrow>
      (p, call) \<in> set (peer_calls s) \<or> client_peer s = Some p"
    and "client_peer t = client_peer s \<or> client_peer t = None"
    and "\<And>p. closed_count p t \<le> closed_count p s"
    and "\<And>p. connected_count p t \<le> connected_count p s"
  shows "announce_inv verify t"
proof -
  have "verify c" if "S_connected p c \<in># announced t" for p c
    using assms(6) [OF that] inv unfolding announce_inv_def by blast
  moreover have "peer_session t p \<noteq> None" if "(p, call) \<in> set (peer_calls t)" for p call
    using assms(7) [OF that] inv assms(2) unfolding announce_inv_def by auto
  moreover have "v = verify c" if "Io_handle_connected sk c v k \<in> set (io t)" for sk c v k
    using assms(5) [OF that] inv unfolding announce_inv_def by blast
  moreover have "verify c" if "Io_notify_connected p c k \<in> set (io t)" for p c k
    using assms(4) [OF that] inv unfolding announce_inv_def by blast
  moreover have "peer_session t p \<noteq> None" if "client_peer t = Some p" for p
    using assms(8) that inv assms(2) unfolding announce_inv_def by auto
  moreover have "p < next_ref t" if "peer_session t p \<noteq> None" for p
    using inv assms(2,3) that unfolding announce_inv_def by (metis order_less_le_trans)
  moreover have "closed_count p t \<le> (if peer_session t p = None then 0 else 1)"
      "connected_count p t \<le> (if peer_session t p = None then 0 else 1)" for p
    using assms(2) assms(9,10) [of p] inv unfolding announce_inv_def by (metis le_trans)+
  moreover have "verify c" if "peer_session t p = Some (k, c)" for p k c
    using inv assms(2) that unfolding announce_inv_def by metis
  ultimately show ?thesis
    unfolding announce_inv_def by blast
qed

lemmas count_defs = closed_count_def connected_count_def

lemma announce_enqueue:
  assumes "announce_inv verify s" and "1 \<le> w"
    and "\<And>p. S_closed p \<notin># function_signals f" "\<And>p c. S_connected p c \<notin># function_signals f"
  shows "announce_inv verify (enqueue_own f w s)"
proof (rule announce_frame [OF assms(1)])
  have "filter_mset (connected_of p) (function_signals f) = {#}" for p
    using assms(4) by (auto elim: connected_of.elims)
  then show "connected_count p (enqueue_own f w s) \<le> connected_count p s" for p
    using assms(2) by (simp add: connected_count_def)
  show "closed_count p (enqueue_own f w s) \<le> closed_count p s" for p
    using assms(2,3) by (simp add: closed_count_def not_in_iff)
qed (use assms(2,4) in \<open>auto split: if_splits\<close>)

lemma announce_with_requests:
  assumes "announce_inv verify s"
  shows "announce_inv verify (with_requests r s)"
  by (rule announce_frame [OF assms]) (simp_all add: count_defs)

lemma announce_post:
  assumes "announce_inv verify s" and "\<And>p c t. u \<noteq> Io_notify_connected p c t"
    and "\<And>sk c v t. u = Io_handle_connected sk c v t \<Longrightarrow> v = verify c"
  shows "announce_inv verify (post_io u s)"
proof (rule announce_frame [OF assms(1)])
  have "\<not> connected_task p u" for p
    using assms(2) by (cases u) auto
  then show "connected_count p (post_io u s) \<le> connected_count p s" for p
    by (simp add: connected_count_def)
qed (use assms(2,3) in \<open>auto simp: closed_count_def\<close>)

lemma announce_pop:
  assumes "announce_inv verify s" and "io s = u # ts"
  shows "announce_inv verify (s\<lparr>io := ts\<rparr>)"
  by (rule announce_frame [OF assms(1)]) (use assms(2) in \<open>auto simp: count_defs\<close>)

lemma announce_call:
  assumes "announce_inv verify s" and "client_peer s = Some p"
  shows "announce_inv verify (call_peer p c s)"
  by (rule announce_frame [OF assms(1)]) (use assms(2) in \<open>auto simp: count_defs\<close>)

lemma announce_close_socket:
  assumes "announce_inv verify s"
  shows "announce_inv verify (close_socket_ref sk s)"
proof (rule announce_frame [OF assms])
  have "filter (connected_task p) (map (\<lambda>(_, t). Io_connect_done sk t ec cr) xs) = []" for p ec cr xs
    by (induction xs) auto
  then show "connected_count p (close_socket_ref sk s) \<le> connected_count p s" for p
    by (simp add: connected_count_def) (simp add: close_socket_ref_def)
qed (auto simp: closed_count_def close_socket_ref_def)

lemma announce_socket:
  assumes "announce_inv verify s"
  shows "announce_inv verify (s\<lparr>connecting_socket := x\<rparr>)"
  by (rule announce_frame [OF assms]) (simp_all add: count_defs)

lemma announce_close_connecting:
  "announce_inv verify s \<Longrightarrow> announce_inv verify (close_connecting_socket s)"
  by (simp add: close_connecting_socket_def announce_close_socket announce_socket split: option.split)

lemma announce_close_peer:
  assumes "announce_inv verify s"
  shows "announce_inv verify (snd (client_close_peer ec s))"
proof (rule announce_frame [OF assms])
  show "(q, call) \<in> set (peer_calls s) \<or> client_peer s = Some q"
    if "(q, call) \<in> set (peer_calls (snd (client_close_peer ec s)))" for q call
    using that by (auto simp: client_close_peer_def Let_def split: option.splits)
qed (simp_all add: count_defs)

text \<open>A connection that ends may be reported once.\<close>

lemma announce_closed:
  assumes inv: "announce_inv verify s" and p: "client_peer s = Some p" and n: "client_peer t = None"
    and t: "announced t = announced s" "io t = io s" "peer_session t = peer_session s"
      "next_ref t = next_ref s" "\<And>q call. (q, call) \<in> set (peer_calls t) \<Longrightarrow>
        (q, call) \<in> set (peer_calls s) \<or> client_peer s = Some q"
  shows "announce_inv verify (notify_only k (N_closed p) t)"
  by (rule announce_frame [OF inv]) (use p n t in \<open>auto simp: count_defs notify_only_own split: if_splits\<close>)

lemma announce_new_peer:
  assumes inv: "announce_inv verify s" and "verify c" and none: "client_peer s = None"
  shows "announce_inv verify
    (post_io (Io_notify_connected (next_ref s) c t)
      (call_peer (next_ref s) Peer_start
        (s\<lparr>next_ref := Suc (next_ref s), client_peer := Some (next_ref s),
           peer_session := (peer_session s)(next_ref s \<mapsto> (t, c)),
           live_peers := insert (next_ref s) (live_peers s)\<rparr>)))" (is "announce_inv verify ?t")
proof -
  have new: "peer_session s (next_ref s) = None"
    using inv unfolding announce_inv_def by blast
  have counts: "closed_count p ?t = closed_count p s + (if p = next_ref s then 1 else 0)"
    "connected_count p ?t = connected_count p s + (if p = next_ref s then 1 else 0)" for p
    using none by (simp_all add: count_defs)
  have old: "closed_count p s \<le> (if peer_session s p = None then 0 else 1)"
    "connected_count p s \<le> (if peer_session s p = None then 0 else 1)" for p
    using inv unfolding announce_inv_def by blast+
  have "closed_count p ?t \<le> (if peer_session ?t p = None then 0 else 1)"
    "connected_count p ?t \<le> (if peer_session ?t p = None then 0 else 1)" for p
    using old [of p] new unfolding counts by (cases "p = next_ref s"; simp)+
  then have "\<forall>p. closed_count p ?t \<le> (if peer_session ?t p = None then 0 else 1)"
    "\<forall>p. connected_count p ?t \<le> (if peer_session ?t p = None then 0 else 1)" by blast+
  moreover have "\<forall>p. peer_session ?t p \<noteq> None \<longrightarrow> p < next_ref ?t"
    using inv unfolding announce_inv_def by (auto intro: less_SucI)
  ultimately show ?thesis
    using inv assms(2) unfolding announce_inv_def by (auto split: if_splits)
qed

lemma announce_less:
  assumes inv: "announce_inv verify s" and less: "announced t \<subseteq># announced s"
    and "io t = io s" "peer_session t = peer_session s" "next_ref t = next_ref s"
      "peer_calls t = peer_calls s" "client_peer t = client_peer s"
  shows "announce_inv verify t"
proof (rule announce_frame [OF inv])
  show "closed_count p t \<le> closed_count p s" for p
    using mset_subset_eq_count [OF less] assms(7) by (simp add: closed_count_def)
  show "connected_count p t \<le> connected_count p s" for p
    using size_mset_mono [OF multiset_filter_mono [OF less]] assms(3) by (simp add: connected_count_def)
  show "S_connected p c \<in># announced s \<or> (\<exists>k. Io_notify_connected p c k \<in> set (io s))"
    if "S_connected p c \<in># announced t" for p c
    using mset_subset_eqD [OF less that] by blast
qed (use assms in auto)

lemma notification_actions_signals:
  "(\<Sum>a \<in># mset (notification_actions n). action_signals a) = notification_signals n"
  by (cases n) simp_all

lemma begin_debounced:
  "\<exists>dt h w as. set as \<subseteq> {D_connect} \<and>
     (begin_function (Fn_debounced g) v = v\<lparr>reconnect_task := dt, thread := as\<rparr> \<or>
      begin_function (Fn_debounced g) v =
        (enqueue_own (Fn_debounced h) w v)\<lparr>reconnect_task := dt, thread := as\<rparr>)"
proof (cases g)
  case (Debounce_in_dispatcher f w)
  let ?k = "dt_generation (reconnect_task v) + 1"
  obtain ok d where d:
    "enqueue_to_dispatcher (client_oid v) (Fn_debounced (Debounced_call ?k f)) w (disp v) = (ok, d)"
    by fastforce
  then have "begin_function (Fn_debounced g) v =
      (enqueue_own (Fn_debounced (Debounced_call ?k f)) w v)
        \<lparr>reconnect_task := (reconnect_task v)\<lparr>dt_generation := if ok then ?k else ?k + 1\<rparr>, thread := []\<rparr>"
    by (cases ok)
      (simp_all add: Debounce_in_dispatcher debounce_in_dispatcher_def Let_def enqueue_own_def)
  then show ?thesis by (metis empty_subsetI set_empty2)
next
  case (Debounced_call k f)
  let ?as = "if dt_generation (reconnect_task v) = k \<and> scope_running (scope v) then [D_connect] else []"
  have "begin_function (Fn_debounced g) v = v\<lparr>reconnect_task := reconnect_task v, thread := ?as\<rparr>"
    using Debounced_call by simp
  moreover have "set ?as \<subseteq> {D_connect}" by auto
  ultimately show ?thesis by blast
next
  case Cancel_debounced
  then have "begin_function (Fn_debounced g) v =
      v\<lparr>reconnect_task := (reconnect_task v)\<lparr>dt_generation := dt_generation (reconnect_task v) + 1\<rparr>,
        thread := []\<rparr>"
    by simp
  then show ?thesis by (metis empty_subsetI set_empty2)
qed

text \<open>A thread of connects only announces nothing and calls nothing.\<close>

lemma connect_thread:
  assumes "set as \<subseteq> {D_connect}"
  shows "(\<Sum>a \<in># mset as. action_signals a) = {#}" "(\<Sum>a \<in># mset as. action_callbacks a) = {#}"
  using assms by (induction as) auto

lemma announced_take:
  assumes "own s = f # own v" and "thread v = []" and "thread s = []" and "client_log v = client_log s"
  shows "announced (begin_function f v) \<subseteq># announced s"
proof (cases f)
  case (Fn_debounced g)
  obtain dt h w as where as: "set as \<subseteq> {D_connect}" and
    "begin_function f v = v\<lparr>reconnect_task := dt, thread := as\<rparr> \<or>
     begin_function f v = (enqueue_own (Fn_debounced h) w v)\<lparr>reconnect_task := dt, thread := as\<rparr>"
    using begin_debounced [of g v] Fn_debounced by blast
  then show ?thesis
    using assms Fn_debounced by (elim disjE) (simp_all add: announced_def connect_thread [OF as])
qed (use assms in \<open>auto simp: announced_def run_scoped_def notification_actions_signals split: option.split\<close>)

lemma begin_same [simp]:
  "io (begin_function f v) = io v" "peer_session (begin_function f v) = peer_session v"
  "next_ref (begin_function f v) = next_ref v" "peer_calls (begin_function f v) = peer_calls v"
  "client_peer (begin_function f v) = client_peer v" "client_log (begin_function f v) = client_log v"
  "delivered (begin_function f v) = delivered v" "requests (begin_function f v) = requests v"
  by (cases f; simp add: split_beta split: option.split)+

lemma announce_idle_notify:
  assumes "announce_inv verify s" and "\<And>p. S_closed p \<notin># notification_signals n"
    and "\<And>p c. S_connected p c \<notin># notification_signals n"
  shows "announce_inv verify (notify_only t n s)"
  unfolding notify_only_own by (rule announce_enqueue [OF assms(1)]) (use assms(2,3) in simp_all)

lemma announce_notify_connected:
  assumes inv: "announce_inv verify s" and io: "io s = Io_notify_connected p c t # ts"
  shows "announce_inv verify (notify_only t (N_connected p c) (s\<lparr>io := ts\<rparr>))"
  by (rule announce_frame [OF inv])
     (use io in \<open>auto simp: count_defs notify_only_own split: if_splits\<close>)

lemma announce_io_stop: "announce_inv verify s \<Longrightarrow> announce_inv verify (io_stop s)"
  by (simp add: io_stop_def announce_close_peer announce_close_connecting)

lemma announce_io_shutdown:
  assumes "announce_inv verify s"
  shows "announce_inv verify (io_shutdown s)"
proof -
  let ?c = "close_connecting_socket s"
  let ?v = "case client_peer ?c of None \<Rightarrow> ?c | Some p \<Rightarrow> ?c\<lparr>silenced_peers := insert p (silenced_peers ?c)\<rparr>"
  have "announce_inv verify ?v"
    by (rule announce_frame [OF announce_close_connecting [OF assms]])
       (auto simp: count_defs split: option.splits)
  then show ?thesis
    unfolding io_shutdown_def Let_def by (intro announce_post announce_close_peer) simp_all
qed

lemma announce_handle_connected:
  assumes inv: "announce_inv verify s"
    and io: "io s = Io_handle_connected sk c v t # ts" and none: "connecting_socket s = None \<or> client_peer s = None"
  shows "announce_inv verify (handle_connected_socket sk c v t (s\<lparr>io := ts\<rparr>))"
proof -
  have v: "v = verify c"
    using inv io unfolding announce_inv_def by (metis list.set_intros(1))
  have pop: "announce_inv verify (s\<lparr>io := ts\<rparr>)"
    by (rule announce_pop [OF inv io])
  then have cleared: "announce_inv verify (s\<lparr>io := ts, connecting_socket := None\<rparr>)"
    by (rule announce_socket)
  show ?thesis
  proof (cases "connecting_socket s = Some sk \<and> is_current t (scope s) \<and> v")
    case True
    then show ?thesis
      using announce_new_peer [OF cleared, of c t] v none by (simp add: handle_connected_socket_def Let_def)
  next
    case False
    then show ?thesis
      using announce_close_socket [OF pop] announce_close_socket [OF cleared]
      by (auto simp: handle_connected_socket_def Let_def intro: announce_idle_notify)
  qed
qed

lemma announce_timed_out:
  assumes "announce_inv verify s"
  shows "announce_inv verify (request_timed_out t s)"
proof (cases "client_peer s")
  case (Some p)
  have "announce_inv verify (notify_only t (N_closed p) (snd (client_close_peer Connection_reset s)))"
    by (rule announce_closed [OF assms Some])
       (auto simp: client_close_peer_def Let_def Some split: option.splits)
  then show ?thesis
    using assms Some by (simp add: request_timed_out_def split_beta)
qed (simp add: request_timed_out_def assms)

lemma announce_run_io:
  assumes inv: "announce_inv verify s" and io: "io s = u # ts"
    and none: "connecting_socket s = None \<or> client_peer s = None"
  shows "announce_inv verify (run_io ep u (s\<lparr>io := ts\<rparr>))"
proof -
  let ?s = "s\<lparr>io := ts\<rparr>"
  have pop: "announce_inv verify ?s"
    by (rule announce_pop [OF inv io])
  note simps = announce_idle_notify announce_close_socket announce_socket announce_with_requests
    announce_enqueue announce_call
  show ?thesis
  proof (cases u)
    case (Io_connect t)
    have "announce_inv verify (?s\<lparr>next_ref := Suc n, connecting_socket := x, connects := xs\<rparr>)"
      if "n = next_ref s" for n x xs
      by (rule announce_frame [OF pop]) (auto simp: count_defs that)
    then show ?thesis
      using Io_connect pop by (simp add: io_connect_def Let_def announce_idle_notify)
  next
    case (Io_connect_done sk t ec c)
    then show ?thesis
      using pop by (simp add: io_connect_done_def notify_own simps)
  next
    case (Io_handle_connected sk c v t)
    then show ?thesis using announce_handle_connected [OF inv _ none] io by simp
  next
    case (Io_notify_connected p c t)
    then show ?thesis
      using pop announce_notify_connected [OF inv] io by (simp add: if_peer_def)
  next
    case Io_stop
    then show ?thesis using pop by (simp add: announce_io_stop)
  next
    case (Io_invalidate t)
    then show ?thesis using pop by (simp add: io_invalidate_def announce_io_stop announce_idle_notify)
  next
    case Io_shutdown
    then show ?thesis using pop by (simp add: announce_io_shutdown)
  next
    case (Io_request data cb)
    have "announce_inv verify (call_peer p c (?s\<lparr>requests := rm\<rparr>))" if "client_peer s = Some p" for p c rm
      by (rule announce_call, rule announce_frame [OF pop]) (use that in \<open>auto simp: count_defs\<close>)
    then show ?thesis
      using Io_request pop
      by (simp add: send_request_def to_dispatcher_own announce_enqueue split: option.split prod.split)
  next
    case (Io_peer_error_occurred p t ec)
    then show ?thesis using pop by (simp add: io_peer_error_occurred_def simps)
  next
    case (Io_peer_closed p t)
    have "announce_inv verify (notify_only t (N_closed p) ((with_requests r ?s)\<lparr>client_peer := None\<rparr>))"
      if "client_peer s = Some p" for r
      by (rule announce_closed [OF pop]) (use that in simp_all)
    then show ?thesis using Io_peer_closed pop by (simp add: io_peer_closed_def)
  next
    case Io_nothing
    then show ?thesis using pop by simp
  qed (use pop in \<open>simp_all add: if_peer_def to_peer_def simps split: option.split\<close>)
qed

lemma announce_action:
  assumes inv: "announce_inv verify s" and th: "thread s = a # as"
  shows "announce_inv verify (run_action verify now a (s\<lparr>thread := as\<rparr>))"
proof -
  have pop: "announce_inv verify (s\<lparr>thread := as\<rparr>)"
    by (rule announce_less [OF inv]) (use th in \<open>auto simp: announced_def\<close>)
  show ?thesis
  proof (cases a)
    case (D_signal sig)
    have "announced ((s\<lparr>thread := as\<rparr>)\<lparr>client_log := client_log s @ [sig]\<rparr>) = announced s"
      using th D_signal by (simp add: announced_def)
    then have "announce_inv verify (s\<lparr>thread := as, client_log := client_log s @ [sig]\<rparr>)"
      by (intro announce_less [OF inv]) simp_all
    then show ?thesis using D_signal by simp
  next
    case (D_callback cb ec data)
    have "announce_inv verify ((s\<lparr>thread := as\<rparr>)\<lparr>delivered := delivered s @ [(cb, ec, data)]\<rparr>)"
      by (rule announce_less [OF pop]) simp_all
    then show ?thesis using D_callback by simp
  next
    case D_cancel_reconnect
    then show ?thesis
      using announce_enqueue [OF pop] cancel_own [of "s\<lparr>thread := as\<rparr>"] by simp
  qed (use pop in \<open>auto simp: schedule_own intro!: announce_post announce_enqueue\<close>)
qed

lemma announced_disp:
  assumes "mset (own (s\<lparr>disp := x\<rparr>)) \<subseteq># mset (own s)"
  shows "announced (s\<lparr>disp := x\<rparr>) \<subseteq># announced s"
proof -
  obtain M where "mset (own s) = mset (own (s\<lparr>disp := x\<rparr>)) + M"
    using assms by (metis subset_mset.le_iff_add)
  then show ?thesis by (simp add: announced_def)
qed

lemma announce_disp:
  assumes "announce_inv verify s" and "mset (own (s\<lparr>disp := x\<rparr>)) \<subseteq># mset (own s)"
  shows "announce_inv verify (s\<lparr>disp := x\<rparr>)"
  by (rule announce_less [OF assms(1) announced_disp [OF assms(2)]]) simp_all

lemma own_detached: "detach (client_oid s) d = (True, d') \<Longrightarrow> own (s\<lparr>disp := Some d'\<rparr>) = []"
  by (auto simp: own_unfold own_entries_def detach_def filter_empty_conv split: if_splits)

lemma announce_shutdown:
  assumes inv: "announce_inv verify s"
  shows "announce_inv verify (client_async_shutdown on_thread s)"
proof -
  let ?s = "s\<lparr>shutdown_started := True\<rparr>"
  have s: "announce_inv verify ?s"
    by (rule announce_less [OF inv]) simp_all
  have gone: "announce_inv verify (?s\<lparr>disp := Some d'\<rparr>)" "\<not> alive (?s\<lparr>disp := Some d'\<rparr>)"
    if "detach (client_oid s) d = (True, d')" for d d'
    using that own_detached [of ?s d d'] announce_disp [OF s, of "Some d'"]
    by (auto simp: alive_unfold detach_def split: if_splits)
  have cleanup: "announce_inv verify (client_cleanup v)" if "announce_inv verify v" "\<not> alive v" for v :: "'a client"
    unfolding cleanup_dead [OF that(2)] by (rule announce_less [OF that(1)]) simp_all
  have "announce_inv verify (client_detach on_thread ?s)"
    using s gone cleanup [OF gone]
    by (simp add: client_detach_def Let_def split: option.split prod.split bool.split)
  then show ?thesis
    using inv by (auto simp: client_async_shutdown_def intro!: announce_post)
qed

definition exclusive :: "'cb client \<Rightarrow> bool" where
  "exclusive s \<longleftrightarrow> connecting_socket s = None \<or> client_peer s = None"

lemma exclusive_run_io: "exclusive s \<Longrightarrow> exclusive (run_io ep u (s\<lparr>io := ts\<rparr>))"
  by (cases u)
    (auto simp: exclusive_def io_connect_def io_connect_done_def handle_connected_socket_def Let_def
      notify_own notify_only_own io_stop_def io_invalidate_def io_shutdown_def io_peer_closed_def
      io_peer_error_occurred_def if_peer_def to_peer_def send_request_def to_dispatcher_own
      split: option.split prod.split)

lemma begin_connection [simp]: "connecting_socket (begin_function f v) = connecting_socket v"
  by (cases f; simp add: split_beta split: option.split)

lemma action_connection [simp]:
  "connecting_socket (run_action verify now a v) = connecting_socket v"
  "client_peer (run_action verify now a v) = client_peer v"
  by (cases a; simp add: schedule_own)+

lemma slot_posts:
  "\<exists>us. peer_slot p sig s = s\<lparr>io := io s @ us\<rparr> \<and>
     (\<forall>u \<in> set us. task_callbacks u = {#} \<and> (\<forall>q. \<not> connected_task q u) \<and>
        (\<forall>sk c v t. u \<noteq> Io_handle_connected sk c v t))"
proof -
  define us where "us = io (peer_slot p sig (s\<lparr>io := []\<rparr>))"
  have "peer_slot p sig s = s\<lparr>io := io s @ us\<rparr>"
    by (cases sig) (simp_all add: us_def peer_slot_def post_io_def split: option.split)
  moreover have "task_callbacks u = {#} \<and> (\<forall>q. \<not> connected_task q u) \<and>
      (\<forall>sk c v t. u \<noteq> Io_handle_connected sk c v t)" if "u \<in> set us" for u
    using that by (cases sig) (auto simp: us_def peer_slot_def split: option.splits if_splits)
  ultimately show ?thesis by blast
qed

lemma slot_fields [simp]:
  "connecting_socket (peer_slot p sig v) = connecting_socket v"
  "client_peer (peer_slot p sig v) = client_peer v"
  "thread (peer_slot p sig v) = thread v" "own (peer_slot p sig v) = own v"
  "alive (peer_slot p sig v) = alive v" "requests (peer_slot p sig v) = requests v"
  "client_log (peer_slot p sig v) = client_log v" "delivered (peer_slot p sig v) = delivered v"
proof -
  obtain us where eq: "peer_slot p sig v = v\<lparr>io := io v @ us\<rparr>"
    using slot_posts [of p sig v] by (elim exE conjE)
  show "connecting_socket (peer_slot p sig v) = connecting_socket v"
    "client_peer (peer_slot p sig v) = client_peer v"
    "thread (peer_slot p sig v) = thread v" "own (peer_slot p sig v) = own v"
    "alive (peer_slot p sig v) = alive v" "requests (peer_slot p sig v) = requests v"
    "client_log (peer_slot p sig v) = client_log v" "delivered (peer_slot p sig v) = delivered v"
    unfolding eq by simp_all
qed

lemma announce_slot:
  assumes "announce_inv verify s"
  shows "announce_inv verify (peer_slot p sig s)"
proof -
  from slot_posts [of p sig s] obtain us where eq: "peer_slot p sig s = s\<lparr>io := io s @ us\<rparr>" and
    us: "\<forall>u \<in> set us. task_callbacks u = {#} \<and> (\<forall>q. \<not> connected_task q u) \<and>
      (\<forall>sk c v t. u \<noteq> Io_handle_connected sk c v t)"
    by (elim exE conjE)
  have handle: "Io_handle_connected sk c v t \<notin> set us" for sk c v t
    using bspec [OF us, of "Io_handle_connected sk c v t"] by blast
  have "filter (connected_task q) us = []" for q
    using us by (simp add: filter_empty_conv)
  then have "connected_count q (s\<lparr>io := io s @ us\<rparr>) = connected_count q s" for q
    by (simp add: connected_count_def)
  moreover have "Io_notify_connected q c t \<notin> set us" for q c t
    using bspec [OF us, of "Io_notify_connected q c t"] by auto
  ultimately show ?thesis
    unfolding eq by (intro announce_frame [OF assms]) (use handle in \<open>auto simp: closed_count_def\<close>)
qed

text \<open>The machine.\<close>

definition signals_inv :: "(peer_credentials \<Rightarrow> bool) \<Rightarrow> 'cb client \<Rightarrow> bool" where
  "signals_inv verify s \<longleftrightarrow> announce_inv verify s \<and> exclusive s"

lemma exclusive_shutdown: "exclusive s \<Longrightarrow> exclusive (client_async_shutdown b s)"
  by (auto simp: exclusive_def client_async_shutdown_def client_detach_def client_cleanup_def Let_def
      split: option.split prod.split bool.split)

lemma exclusive_step: "client_step verify ep s t \<Longrightarrow> exclusive s \<Longrightarrow> exclusive t"
proof (induction rule: client_step.induct)
  case (cl_io s t ts)
  then show ?case by (simp add: exclusive_run_io)
next
  case (cl_shutdown s on_thread)
  then show ?case by (simp add: exclusive_shutdown)
next
  case (cl_request_timer s)
  then show ?case
    by (auto simp: exclusive_def io_request_timer_def request_timed_out_def Let_def notify_only_own
        split_beta split: option.split)
qed (auto simp: exclusive_def client_async_start_def client_async_stop_def
    client_async_invalidate_connection_def client_async_send_def client_async_respond_def
    client_async_request_def to_dispatcher_own split: option.split)

lemma announce_step:
  assumes "client_step verify ep s t" and "announce_inv verify s" and "exclusive s"
  shows "announce_inv verify t"
  using assms
proof (induction rule: client_step.induct)
  case (cl_take s d now e d')
  let ?v = "s\<lparr>disp := Some d'\<rparr>"
  have own: "own s = entry_function e # own ?v"
    by (rule took_own(1) [OF cl_take(2,3,4)])
  have "announce_inv verify ?v"
    using own cl_take by (intro announce_disp) simp_all
  moreover have "announce_inv verify (begin_function (entry_function e) ?v)"
    using cl_take own by (intro announce_less [OF \<open>announce_inv verify s\<close> announced_take]) simp_all
  ultimately show ?case
    by (auto simp: call_function_def)
next
  case (cl_action s a as now)
  then show ?case by (intro announce_action)
next
  case (cl_io s t ts)
  then show ?case by (intro announce_run_io) (simp_all add: exclusive_def)
next
  case (cl_shutdown s on_thread)
  then show ?case by (intro announce_shutdown)
next
  case (cl_connect_done s xs sk t ys ec credentials)
  have "announce_inv verify (s\<lparr>connects := xs @ ys\<rparr>)"
    by (rule announce_less [OF \<open>announce_inv verify s\<close>]) simp_all
  then show ?case by (auto intro: announce_post)
next
  case (cl_request_timer s)
  then show ?case
    by (auto simp: io_request_timer_def Let_def intro!: announce_timed_out announce_with_requests
        split: option.split prod.split)
next
  case (cl_peer_slot s xs p sig ys)
  have "announce_inv verify (s\<lparr>peer_signals := xs @ ys\<rparr>)"
    by (rule announce_less [OF \<open>announce_inv verify s\<close>]) simp_all
  then show ?case by (rule announce_slot)
next
  case (cl_other s d d')
  have "own (s\<lparr>disp := Some d'\<rparr>) = own s"
    using cl_other(1,2) by (simp add: own_unfold own_entries_def other_objects_def)
  then show ?case using cl_other by (intro announce_disp) simp_all
next
  case (cl_dispatcher_gone s)
  then show ?case by (intro announce_disp) (simp_all add: own_unfold)
next
  case (cl_peer_announces s p sig)
  then show ?case by (auto intro!: announce_less [of verify s])
next
  case (cl_peer_gone s p)
  then show ?case by (auto intro!: announce_less [of verify s])
next
  case (cl_request_expires s rid)
  then show ?case by (auto intro!: announce_less [of verify s])
qed (auto simp: client_async_start_def client_async_stop_def
    client_async_invalidate_connection_def client_async_send_def client_async_respond_def
    client_async_request_def to_dispatcher_own intro!: announce_enqueue announce_post)

lemma initial_own: "client_initial s \<Longrightarrow> own s = []"
  by (auto simp: client_initial_def new_client_def own_unfold own_entries_def attach_def
      filter_empty_conv dispatcher_inv_def queue_owned_def)

interpretation client_signals: event_machine client_initial "client_step verify ep" "signals_inv verify"
proof
  show "signals_inv verify s" if "client_initial s" for s :: "'a client"
  proof -
    show ?thesis
      using that initial_own [OF that] by (auto simp: client_initial_def new_client_def signals_inv_def announce_inv_def
          exclusive_def count_defs announced_def)
  qed
  show "signals_inv verify t" if "signals_inv verify s" "client_step verify ep s t" for s t :: "'a client"
    using that announce_step exclusive_step by (auto simp: signals_inv_def)
qed

section \<open>Request callbacks\<close>

lemma callbacks_update [simp]:
  "callbacks (s\<lparr>scope := ns\<rparr>) = callbacks s"
  "callbacks (s\<lparr>connecting_socket := cs\<rparr>) = callbacks s"
  "callbacks (s\<lparr>client_peer := cp\<rparr>) = callbacks s"
  "callbacks (s\<lparr>shutdown_started := sd\<rparr>) = callbacks s"
  "callbacks (s\<lparr>reconnect_task := dt\<rparr>) = callbacks s"
  "callbacks (s\<lparr>connects := xs\<rparr>) = callbacks s"
  "callbacks (s\<lparr>next_ref := n\<rparr>) = callbacks s"
  "callbacks (s\<lparr>peer_session := ps\<rparr>) = callbacks s"
  "callbacks (s\<lparr>live_peers := lp\<rparr>) = callbacks s"
  "callbacks (s\<lparr>silenced_peers := sp\<rparr>) = callbacks s"
  "callbacks (s\<lparr>peer_signals := sg\<rparr>) = callbacks s"
  "callbacks (s\<lparr>peer_calls := pc\<rparr>) = callbacks s"
  "callbacks (s\<lparr>client_log := lg\<rparr>) = callbacks s"
  "callbacks (s\<lparr>sessions := k\<rparr>) = callbacks s"
  "callbacks (post_io t s) = callbacks s + task_callbacks t"
  "callbacks (call_peer p c s) = callbacks s"
  "callbacks (enqueue_own f w s) = callbacks s + (if alive s then function_callbacks f else {#})"
  by (simp_all add: callbacks_def)

lemma callbacks_close_socket [simp]: "callbacks (close_socket_ref sk s) = callbacks s"
proof -
  have "(\<Sum>t \<in># mset (map (\<lambda>(_, t). Io_connect_done sk t ec cr) xs). task_callbacks t) = {#}" for ec cr xs
    by (induction xs) auto
  then show ?thesis
    by (simp add: callbacks_def) (simp add: close_socket_ref_def)
qed

lemma callbacks_close_connecting [simp]: "callbacks (close_connecting_socket s) = callbacks s"
  by (simp add: close_connecting_socket_def split: option.split)

text \<open>While the dispatcher serves the client, a completed callback is in its queue.\<close>

lemma callbacks_completions:
  assumes "alive s"
  shows "callbacks (enqueue_completions out s) = callbacks s + completed_callbacks out"
  using assms by (induction out s rule: enqueue_completions.induct) (simp_all add: to_dispatcher_own)

lemma callbacks_with_requests:
  assumes "alive s" and "rm_step_ok (requests s) {#} (fst r) (snd r)"
  shows "callbacks (with_requests r s) = callbacks s"
proof -
  have "callbacks (s\<lparr>requests := fst r\<rparr>) + completed_callbacks (snd r) = callbacks s"
  proof -
    have "pending_callbacks (requests s) = completed_callbacks (snd r) + pending_callbacks (fst r)"
      using assms(2) by (simp add: rm_step_ok_def)
    then show ?thesis by (simp only: callbacks_def) (simp add: ac_simps)
  qed
  then show ?thesis
    using assms(1) by (simp add: with_requests_def callbacks_completions)
qed

lemma callbacks_complete_all:
  assumes "alive s" and "rm_inv (requests s)"
  shows "callbacks (with_requests (rm_complete_all ec (requests s)) s) = callbacks s"
  using assms rm_complete_all_ok [OF assms(2), of ec] by (intro callbacks_with_requests) simp_all

lemma callbacks_close_peer:
  assumes "alive s" and "rm_inv (requests s)"
  shows "callbacks (snd (client_close_peer ec s)) = callbacks s"
  using callbacks_complete_all [OF assms]
  by (simp add: client_close_peer_def Let_def split: option.split)

lemma callbacks_pop: "io s = u # ts \<Longrightarrow> callbacks s = callbacks (s\<lparr>io := ts\<rparr>) + task_callbacks u"
  by (simp add: callbacks_def)

lemma callbacks_run_io:
  assumes alive: "alive s" and rm: "rm_inv (requests s)" and io: "io s = u # ts"
    and next_id: "next_request_id (requests s) = of_nat (requests_made s)"
    and bound: "requests_made (run_io ep u (s\<lparr>io := ts\<rparr>)) < 2 ^ 64"
  shows "callbacks (run_io ep u (s\<lparr>io := ts\<rparr>)) = callbacks s"
proof -
  let ?s = "s\<lparr>io := ts\<rparr>"
  note pop = callbacks_pop [OF io]
  have closed: "callbacks (snd (client_close_peer ec v)) = callbacks v"
    if "requests v = requests s" "alive v = alive s" for ec v
    using callbacks_close_peer [of v ec] that alive rm by simp
  have completed: "callbacks (with_requests (rm_complete_all ec (requests s)) ?s) = callbacks ?s" for ec
    using callbacks_complete_all [of ?s ec] alive rm by simp
  show ?thesis
  proof (cases u)
    case (Io_request data cb)
    show ?thesis
    proof (cases "client_peer s")
      case None
      then show ?thesis
        using Io_request pop alive by (simp add: send_request_def to_dispatcher_own)
    next
      case (Some p)
      obtain rid rm' where add: "rm_add None cb (Some (capture (scope s))) (requests s) = (rid, rm')"
        by fastforce
      have small: "unat (next_request_id (requests s)) < 2 ^ 64 - 1"
        using bound Io_request Some add by (simp add: send_request_def next_id unat_of_nat)
      have "pending_callbacks rm' = {#cb#} + pending_callbacks (requests s)"
        by (rule rm_add_ok(2) [OF rm small add])
      then have "callbacks (?s\<lparr>requests := rm'\<rparr>) = callbacks ?s + {#cb#}"
        by (simp add: callbacks_def)
      then show ?thesis
        using Io_request Some add pop by (simp add: send_request_def)
    qed
  next
    case (Io_peer_response_received p rid data)
    have "rm_step_ok (requests s) {#} (fst (rm_complete rid No_error (Some data) (requests s)))
        (snd (rm_complete rid No_error (Some data) (requests s)))"
      using rm_complete_ok [OF rm] by (metis prod.collapse)
    then have "callbacks (with_requests (rm_complete rid No_error (Some data) (requests s)) ?s) = callbacks ?s"
      using alive by (intro callbacks_with_requests) simp_all
    then show ?thesis using Io_peer_response_received pop by (simp add: if_peer_def)
  qed (use pop alive in \<open>simp_all add: io_connect_def io_connect_done_def handle_connected_socket_def
      io_stop_def io_invalidate_def io_shutdown_def io_peer_closed_def io_peer_error_occurred_def
      if_peer_def to_peer_def Let_def notify_own notify_only_own closed completed split: option.split\<close>)
qed

text \<open>Once the dispatcher no longer serves the client, it never does again.\<close>

lemma alive_run_io [simp]: "alive (run_io ep u s) = alive s"
  by (cases u)
    (simp_all add: io_connect_def io_connect_done_def handle_connected_socket_def Let_def
      notify_own notify_only_own io_stop_def io_invalidate_def io_shutdown_def io_peer_closed_def
      io_peer_error_occurred_def if_peer_def to_peer_def send_request_def to_dispatcher_own
      split: option.split prod.split)

lemma alive_begin [simp]: "alive (begin_function f v) = alive v"
proof (cases f)
  case (Fn_debounced g)
  obtain dt h w as where
    "begin_function f v = v\<lparr>reconnect_task := dt, thread := as\<rparr> \<or>
     begin_function f v = (enqueue_own (Fn_debounced h) w v)\<lparr>reconnect_task := dt, thread := as\<rparr>"
    using begin_debounced [of g v] Fn_debounced by blast
  then show ?thesis by auto
qed (simp_all split: option.split)

lemma alive_action [simp]: "alive (run_action verify now a v) = alive v"
proof (cases a)
  case D_cancel_reconnect
  then show ?thesis using cancel_own [of v] by simp
qed (simp_all add: schedule_own)

lemma alive_timed_out [simp]: "alive (request_timed_out t s) = alive s"
  by (simp add: request_timed_out_def split_beta notify_only_own split: option.split)

lemma alive_cleanup: "\<not> alive s \<Longrightarrow> \<not> alive (client_cleanup s)"
  by (simp add: cleanup_dead)

lemma shutdown_dead: "\<not> shutdown_started s \<Longrightarrow> \<not> alive (client_async_shutdown b s)"
proof -
  assume new: "\<not> shutdown_started s"
  let ?s = "s\<lparr>shutdown_started := True\<rparr>"
  have "\<not> alive (client_detach b ?s)"
  proof (cases "disp s")
    case (Some d)
    then show ?thesis
      using alive_cleanup [of "?s\<lparr>disp := Some (snd (detach (client_oid s) d))\<rparr>"]
      by (auto simp: client_detach_def detach_def alive_unfold Let_def)
  qed (simp add: client_detach_def alive_unfold)
  then show ?thesis using new by (simp add: client_async_shutdown_def)
qed

lemma alive_step: "client_step verify ep s t \<Longrightarrow> alive t \<Longrightarrow> alive s"
proof (induction rule: client_step.induct)
  case (cl_take s d now e d')
  then show ?case
    using took_own(2) [OF cl_take(2,3,4)] by (simp split: option.splits)
next
  case (cl_shutdown s b)
  then show ?case
    using shutdown_dead [of s b] by (cases "shutdown_started s") (auto simp: client_async_shutdown_def)
next
  case (cl_request_timer s)
  then show ?case
    by (simp add: io_request_timer_def Let_def split: option.splits prod.splits)
next
  case (cl_other s d d')
  then show ?case by (auto simp: alive_unfold other_objects_def)
next
  case (cl_dispatcher_gone s)
  then show ?case by (simp add: alive_unfold)
next
  case (cl_action s a as now)
  then show ?case by simp
next
  case (cl_io s t ts)
  then show ?case by simp
qed (simp_all add: client_async_start_def client_async_stop_def
    client_async_invalidate_connection_def client_async_send_def client_async_respond_def
    client_async_request_def to_dispatcher_own)

lemma notification_actions_callbacks: "a \<in> set (notification_actions n) \<Longrightarrow> action_callbacks a = {#}"
  by (cases n) auto

lemma begin_callbacks:
  assumes "own s = f # own v" and "thread v = []" and "thread s = []" and "delivered v = delivered s"
    and "requests v = requests s" and "io v = io s"
  shows "callbacks (begin_function f v) = callbacks s"
proof (cases f)
  case (Fn_debounced g)
  obtain dt h w as where as: "set as \<subseteq> {D_connect}" and
    "begin_function f v = v\<lparr>reconnect_task := dt, thread := as\<rparr> \<or>
     begin_function f v = (enqueue_own (Fn_debounced h) w v)\<lparr>reconnect_task := dt, thread := as\<rparr>"
    using begin_debounced [of g v] Fn_debounced by blast
  then show ?thesis
    using assms Fn_debounced by (elim disjE) (simp_all add: callbacks_def connect_thread [OF as])
next
  case (Fn_scoped t n)
  then show ?thesis
    using assms by (simp add: callbacks_def run_scoped_def notification_actions_callbacks)
qed (use assms in \<open>simp_all add: callbacks_def\<close>)

lemma action_callbacks_kept:
  assumes th: "thread s = a # as"
  shows "callbacks (run_action verify now a (s\<lparr>thread := as\<rparr>)) = callbacks s"
proof -
  have pop: "callbacks s = callbacks (s\<lparr>thread := as\<rparr>) + action_callbacks a"
    using th by (simp add: callbacks_def)
  show ?thesis
  proof (cases a)
    case D_cancel_reconnect
    then show ?thesis using pop cancel_own [of "s\<lparr>thread := as\<rparr>"] by simp
  next
    case (D_callback cb ec data)
    then show ?thesis using th by (simp add: callbacks_def)
  qed (use pop in \<open>simp_all add: schedule_own\<close>)
qed

lemma callbacks_step:
  assumes "client_step verify ep s t" and "client_inv s" and "within_bounds t" and "alive t"
  shows "callbacks t = callbacks s \<or>
    (\<exists>data cb. t = client_async_request data cb s \<and> callbacks t = add_mset cb (callbacks s))"
proof -
  have alive: "alive s" by (rule alive_step [OF assms(1,4)])
  have rm: "rm_inv (requests s)" using rm_inv_of_inv [OF assms(2)] .
  show ?thesis
    using assms alive rm
  proof (induction rule: client_step.induct)
    case (cl_take s d now e d')
    have "call_function e d' = Some (entry_function e)"
      using took_own(3) [OF cl_take(2,3,4)] cl_take by (auto simp: call_function_def split: if_splits)
    then show ?case
      using took_own(1) [OF cl_take(2,3,4)] begin_callbacks [of s "entry_function e" "s\<lparr>disp := Some d'\<rparr>"]
        cl_take(1) by simp
  next
    case (cl_request s data cb)
    have "callbacks (client_async_request data cb s) = add_mset cb (callbacks s)"
      by (simp add: client_async_request_def)
    then show ?case by blast
  next
    case (cl_action s a as now)
    then show ?case by (simp add: action_callbacks_kept)
  next
    case (cl_io s t ts)
    have "next_request_id (requests s) = of_nat (requests_made s)"
      using cl_io.prems(1) by (simp add: client_inv_def base_inv_def requests_inv_def)
    then show ?case
      using callbacks_run_io [of s t ts ep] cl_io by (simp add: within_bounds_def)
  next
    case (cl_shutdown s b)
    then show ?case
      using shutdown_dead [of s b] by (cases "shutdown_started s") (auto simp: client_async_shutdown_def)
  next
    case (cl_request_expires s rid)
    then show ?case
      using timer_expires_ok [of "requests s" rid] by (simp add: rm_step_ok_def callbacks_def)
  next
    case (cl_request_timer s)
    obtain rm out tc where r: "run_expired (requests s) = (rm, out, tc)"
      using prod_cases3 by blast
    have ok: "rm_step_ok (requests s) {#} rm out"
      by (rule run_expired_ok [OF _ r]) (use cl_request_timer in simp)
    let ?s = "with_requests (rm, out) s"
    have same: "callbacks ?s = callbacks s"
      using ok cl_request_timer by (intro callbacks_with_requests) simp_all
    have "callbacks (snd (client_close_peer ec ?s)) = callbacks ?s" for ec
      using ok cl_request_timer by (intro callbacks_close_peer) (simp_all add: rm_step_ok_def)
    then have "callbacks (request_timed_out k ?s) = callbacks ?s" for k
      by (simp add: request_timed_out_def split_beta notify_only_own split: option.split)
    then have "callbacks (io_request_timer s) = callbacks s"
      using r same by (simp add: io_request_timer_def Let_def split: option.split)
    then show ?case by blast
  next
    case (cl_peer_slot s xs p sig ys)
    let ?s = "s\<lparr>peer_signals := xs @ ys\<rparr>"
    from slot_posts [of p sig ?s] obtain us where eq: "peer_slot p sig ?s = ?s\<lparr>io := io ?s @ us\<rparr>" and
      us: "\<forall>u \<in> set us. task_callbacks u = {#} \<and> (\<forall>q. \<not> connected_task q u) \<and>
        (\<forall>sk c v t. u \<noteq> Io_handle_connected sk c v t)"
      by (elim exE conjE)
    have "(\<Sum>u \<in># mset us. task_callbacks u) = {#}"
      using us by (induction us) auto
    then show ?case unfolding eq by (simp add: callbacks_def)
  next
    case (cl_other s d d')
    have "own (s\<lparr>disp := Some d'\<rparr>) = own s"
      using cl_other(1,2) by (simp add: own_unfold own_entries_def other_objects_def)
    then show ?case by (simp add: callbacks_def)
  next
    case (cl_dispatcher_gone s)
    then show ?case by (simp add: alive_unfold)
  qed (simp_all add: client_async_start_def client_async_stop_def
      client_async_invalidate_connection_def client_async_send_def client_async_respond_def
      to_dispatcher_own)
qed

end
