(* ===== verification/Client_Properties.thy ===== *)
theory Client_Properties
  imports Client_Signals
begin

text \<open>
  What the client promises: it never gets stuck, holds at most one connection and nothing once
  stopped, talks to verified servers only, announces each connection's end at most once, answers
  every request once, and is silent after its shutdown. The first two follow from the invariant of
  the machine; the others have small invariants of their own.
\<close>

section \<open>Examples\<close>

text \<open>A client on a fresh dispatcher, started, and with its function taken by the worker.\<close>

definition example_client :: "nat client" where
  "example_client = new_client ''/tmp/socket'' default_client_options 1 (new_dispatcher 0)"

definition started_client :: "nat client" where
  "started_client =
     begin_function Fn_start
       ((client_async_start example_client)\<lparr>disp := Some (snd (attach 1 (new_dispatcher 0)))\<rparr>)"

lemmas example_defs = example_client_def started_client_def new_client_def new_dispatcher_def attach_def
  client_async_start_def to_dispatcher_def enqueue_to_dispatcher_def enqueue_def insert_by_when_def
  when_immediately_def when_internal_detached_def

lemma example_client_initial: "client_initial example_client"
  unfolding client_initial_def example_client_def
  by (intro exI conjI, rule refl)
     (simp_all add: new_dispatcher_def attach_def dispatcher_inv_def queue_sorted_def queue_owned_def)

lemma started_client_step:
  "client_step verify ep (client_async_start example_client) started_client"
proof -
  let ?s = "client_async_start example_client"
  let ?e = "\<lparr>object_id_value = 1, entry_function = Fn_start, entry_when = 1\<rparr>"
  let ?d = "snd (attach 1 (new_dispatcher 0))"
  have "client_step verify ep ?s
      (case call_function ?e ?d of
         None \<Rightarrow> ?s\<lparr>disp := Some ?d\<rparr> | Some f \<Rightarrow> begin_function f (?s\<lparr>disp := Some ?d\<rparr>))"
    by (rule cl_take [where now = None and d = "the (disp ?s)"])
       (simp_all add: example_defs worker_iteration_def calculate_duration_def clock_ok_def)
  then show ?thesis
    by (simp add: started_client_def call_function_def attach_def new_dispatcher_def)
qed

lemma started_client_reachable: "reachable_from client_initial (client_step verify ep) started_client"
proof -
  have "reachable_from client_initial (client_step verify ep) example_client"
    by (rule reach_init) (rule example_client_initial)
  then have "reachable_from client_initial (client_step verify ep) (client_async_start example_client)"
    by (rule reach_step) (rule cl_start)
  then show ?thesis
    by (rule reach_step) (rule started_client_step)
qed

lemma started_client_bounds: "within_bounds started_client" "alive started_client"
  by (simp_all add: within_bounds_def requests_made_def alive_unfold example_defs)

section \<open>Progress\<close>

text \<open>The client never gets stuck. While it is started and its dispatcher serves it, one of the
  following holds: something is queued that will start a connection attempt of the current session
  (a connect, an invalidation about to reconnect, a notification that schedules the reconnect, or
  the reconnect timer with no cancellation behind it); or it holds a socket whose connect is
  outstanding, being verified or about to be handled; or it holds a connection whose end will be
  reported to it. No order of starts, stops, invalidations, failures and timeouts on the two
  threads loses the reconnect. (Fewer than \<open>2 ^ 64\<close> sessions and requests.)\<close>

theorem client_never_stuck:
  assumes "reachable_from client_initial (client_step verify ep) s" and "within_bounds s"
    and "alive s" and "scope_running (scope s)"
  shows "recovering s \<or>
    (\<exists>sk. connecting_socket s = Some sk \<and> attempt_live s sk) \<or>
    (\<exists>p. client_peer s = Some p \<and> peer_live s p)"
  using client_machine.reachable_inv [OF assms(1)] assms(2-4)
  by (auto simp: bounded_inv_def client_inv_def going_inv_def progressing_def)

lemma client_never_stuck_witness:
  "recovering started_client \<or>
    (\<exists>sk. connecting_socket started_client = Some sk \<and> attempt_live started_client sk) \<or>
    (\<exists>p. client_peer started_client = Some p \<and> peer_live started_client p)"
  using client_never_stuck [OF started_client_reachable started_client_bounds]
  by (simp add: started_client_def scope_start_def)

text \<open>C17: One connection, and none after a stop. The client never holds a connecting socket and a
  connection at once. When it is stopped, then as soon as no close is pending (neither posted nor
  about to be posted by the function that runs) it holds neither, and no request is waiting for a
  response. Without a connection no request is ever pending.\<close>

theorem client_holds_one_connection:
  assumes "reachable_from client_initial (client_step verify ep) s" and "within_bounds s"
  shows "(connecting_socket s = None \<or> client_peer s = None) \<and>
    (client_peer s = None \<longrightarrow> pending_requests (requests s) = []) \<and>
    (scope_running (scope s) \<or> client_closing s \<or>
       connecting_socket s = None \<and> client_peer s = None)"
  using client_machine.reachable_inv [OF assms(1)] assms(2)
  by (auto simp: bounded_inv_def client_inv_def base_inv_def holding_inv_def requests_inv_def
      progressing_def)

lemma client_holds_one_connection_witness:
  "connecting_socket started_client = None \<or> client_peer started_client = None"
  using client_holds_one_connection [OF started_client_reachable started_client_bounds(1)] by simp

section \<open>Notifications\<close>

text \<open>C18: Only verified servers. Every call the client makes on a connection, its start and every
  message and request included, is on a connection whose credentials the user's verifier
  accepted; and \<open>connected\<close> is announced for accepted credentials only.\<close>

theorem client_talks_to_verified_servers:
  assumes "reachable_from client_initial (client_step verify ep) s"
  shows "((p, call) \<in> set (peer_calls s) \<longrightarrow>
      (\<exists>t credentials. peer_session s p = Some (t, credentials) \<and> verify credentials)) \<and>
    (S_connected p credentials \<in> set (client_log s) \<longrightarrow> verify credentials)"
proof -
  have inv: "announce_inv verify s"
    using client_signals.reachable_inv [OF assms] by (simp add: signals_inv_def)
  have "S_connected p credentials \<in># announced s" if "S_connected p credentials \<in> set (client_log s)"
    using that by (simp add: announced_def)
  then show ?thesis
    using inv unfolding announce_inv_def by (metis option.exhaust prod.exhaust)
qed

lemma client_talks_to_verified_servers_witness:
  "S_connected 0 no_credentials \<notin> set (client_log started_client)"
  using client_talks_to_verified_servers
    [of "\<lambda>_. False" "\<lambda>_. No_error" started_client 0 Peer_start no_credentials]
    started_client_reachable by blast

text \<open>C19: Each connection is reported once. For every connection, \<open>connected\<close> and \<open>closed\<close> are
  announced at most once each, and \<open>closed\<close> is not announced while the client still holds the
  connection, whichever of the three ways it ends (closed by the peer, a request that timed out,
  or a stop or invalidation on the way).\<close>

theorem client_reports_each_connection_once:
  assumes "reachable_from client_initial (client_step verify ep) s"
  shows "count_list (client_log s) (S_closed p) \<le> 1 \<and>
    length (filter (connected_of p) (client_log s)) \<le> 1 \<and>
    (client_peer s = Some p \<longrightarrow> S_closed p \<notin> set (client_log s))"
proof -
  have inv: "announce_inv verify s"
    using client_signals.reachable_inv [OF assms] by (simp add: signals_inv_def)
  have "closed_count p s \<le> (if peer_session s p = None then 0 else 1)"
    "connected_count p s \<le> (if peer_session s p = None then 0 else 1)"
    using inv unfolding announce_inv_def by blast+
  then have "closed_count p s \<le> 1" "connected_count p s \<le> 1"
    by (simp_all split: if_splits)
  moreover have "count_list (client_log s) (S_closed p) + (if client_peer s = Some p then 1 else 0)
      \<le> closed_count p s"
    by (simp add: closed_count_def announced_def count_mset)
  moreover have "length (filter (connected_of p) (client_log s)) \<le> connected_count p s"
    by (simp add: connected_count_def announced_def flip: mset_filter)
  ultimately have "count_list (client_log s) (S_closed p) \<le> 1"
    "length (filter (connected_of p) (client_log s)) \<le> 1"
    "client_peer s = Some p \<Longrightarrow> count_list (client_log s) (S_closed p) = 0"
    by simp_all
  then show ?thesis by (simp add: count_list_0_iff)
qed

lemma client_reports_each_connection_once_witness:
  "count_list (client_log started_client) (S_closed 3) \<le> 1"
  using client_reports_each_connection_once [OF started_client_reachable, of 3] by blast

text \<open>A run that counts the requests made.\<close>

inductive client_requests ::
    "(peer_credentials \<Rightarrow> bool) \<Rightarrow> (path \<Rightarrow> error_code) \<Rightarrow> 'cb multiset \<Rightarrow> 'cb client \<Rightarrow> bool"
  for verify :: "peer_credentials \<Rightarrow> bool" and ep :: "path \<Rightarrow> error_code" where
  requests_init: "client_initial s \<Longrightarrow> client_requests verify ep {#} s"
| requests_ask: "client_requests verify ep M s \<Longrightarrow>
    client_requests verify ep (add_mset cb M) (client_async_request data cb s)"
| requests_other: "client_requests verify ep M s \<Longrightarrow> client_step verify ep s t \<Longrightarrow>
    \<forall>data cb. t \<noteq> client_async_request data cb s \<Longrightarrow> client_requests verify ep M t"

lemma client_requests_reachable:
  "client_requests verify ep M s \<Longrightarrow> reachable_from client_initial (client_step verify ep) s"
  by (induction rule: client_requests.induct) (auto intro: reachable_from.intros cl_request)

lemma callbacks_initial: "client_initial s \<Longrightarrow> callbacks s = {#}"
  using initial_own [of s]
  by (auto simp: client_initial_def new_client_def callbacks_def new_request_manager_def)

text \<open>C2: Every request is answered exactly once. While its dispatcher serves the client, the
  callbacks that were called, those queued on the dispatcher, those of requests waiting for a
  response and those of requests not yet sent are exactly the callbacks of the requests made, with
  multiplicity: responses, timeouts, errors, closes, invalidations, stops and requests without a
  connection lose no callback and call none twice. (Fewer than \<open>2 ^ 64\<close> sessions and requests.)\<close>

theorem client_answers_every_request_once:
  assumes "client_requests verify ep M s" and "within_bounds s" and "alive s"
  shows "image_mset fst (mset (delivered s)) + (\<Sum>a \<in># mset (thread s). action_callbacks a) +
     (\<Sum>f \<in># mset (own s). function_callbacks f) + pending_callbacks (requests s) +
     (\<Sum>t \<in># mset (io s). task_callbacks t) = M"
proof -
  have "callbacks s = M"
    using assms
  proof (induction rule: client_requests.induct)
    case (requests_init s)
    then show ?case by (simp add: callbacks_initial)
  next
    case (requests_ask M s cb data)
    have "within_bounds s"
      using step_counters [OF cl_request [of verify ep s data cb]] requests_ask.prems(1)
      by (simp add: counters_def within_bounds_def)
    then show ?case
      using requests_ask by (simp add: client_async_request_def)
  next
    case (requests_other M s t)
    have bounds: "within_bounds s"
      using step_counters [OF requests_other.hyps(2)] requests_other.prems(1)
      by (simp add: counters_def within_bounds_def)
    have inv: "client_inv s"
      using client_machine.reachable_inv [OF client_requests_reachable [OF requests_other.hyps(1)]] bounds
      by (simp add: bounded_inv_def)
    show ?case
      using callbacks_step [OF requests_other.hyps(2) inv requests_other.prems] requests_other.hyps(3)
        requests_other.IH [OF bounds alive_step [OF requests_other.hyps(2) requests_other.prems(2)]]
      by blast
  qed
  then show ?thesis by (simp add: callbacks_def)
qed

lemma client_answers_every_request_once_witness:
  "(\<Sum>t \<in># mset (io (client_async_request [1] 7 example_client)). task_callbacks t) = {#7#}"
proof -
  let ?s = "client_async_request [1] (7 :: nat) example_client"
  have "client_requests (\<lambda>_. True) (\<lambda>_. No_error) {#7#} ?s"
    by (rule requests_ask [OF requests_init [OF example_client_initial]])
  moreover have "within_bounds ?s" "alive ?s"
    by (simp_all add: within_bounds_def requests_made_def alive_unfold client_async_request_def post_io_def
        example_defs)
  ultimately show ?thesis
    using client_answers_every_request_once [of "\<lambda>_. True" "\<lambda>_. No_error" "{#7#}" ?s]
    by (simp add: client_async_request_def example_client_def new_client_def own_unfold own_entries_def
        new_dispatcher_def attach_def new_request_manager_def)
qed

section \<open>Shutdown\<close>

fun quiet_action :: "'cb client_action \<Rightarrow> bool" where
  "quiet_action (D_signal _) = False"
| "quiet_action (D_callback _ _ _) = False"
| "quiet_action _ = True"

text \<open>What shutdown leaves: the dispatcher serves the client no more, and what runs is quiet.\<close>

definition quiet_from :: "client_signal list \<Rightarrow> ('cb \<times> error_code \<times> bytes option) list \<Rightarrow> 'cb client \<Rightarrow> bool" where
  "quiet_from log out s \<longleftrightarrow> \<not> alive s \<and> list_all quiet_action (thread s) \<and> client_log s = log \<and> delivered s = out"

lemma run_io_quiet [simp]:
  "thread (run_io ep u s) = thread s" "client_log (run_io ep u s) = client_log s"
  "delivered (run_io ep u s) = delivered s"
  by (cases u;
      simp add: io_connect_def io_connect_done_def handle_connected_socket_def Let_def
        notify_own notify_only_own io_stop_def io_invalidate_def io_shutdown_def io_peer_closed_def
        io_peer_error_occurred_def if_peer_def to_peer_def send_request_def to_dispatcher_own
        split: option.split prod.split)+

lemma shutdown_same [simp]:
  "thread (client_async_shutdown b s) = thread s" "client_log (client_async_shutdown b s) = client_log s"
  "delivered (client_async_shutdown b s) = delivered s"
  by (simp_all add: client_async_shutdown_def client_detach_def client_cleanup_def Let_def
      split: option.split prod.split bool.split)

lemma quiet_step:
  assumes "client_step verify ep s t" and "quiet_from log out s"
  shows "quiet_from log out t"
proof -
  have dead: "\<not> alive t"
    using alive_step [OF assms(1)] assms(2) by (auto simp: quiet_from_def)
  show ?thesis
    using assms dead
  proof (induction rule: client_step.induct)
    case (cl_take s d now e d')
    have "\<not> alive s" using cl_take by (simp add: quiet_from_def)
    then have "call_function e d' = None"
      using took_own(3) [OF cl_take(2,3,4)] by simp
    then show ?case using cl_take by (simp add: quiet_from_def)
  next
    case (cl_action s a as now)
    then show ?case
      by (cases a) (simp_all add: quiet_from_def schedule_own)
  next
    case (cl_request_timer s)
    then show ?case
      by (simp add: quiet_from_def io_request_timer_def request_timed_out_def split_beta Let_def
          notify_only_own split: option.splits)
  qed (simp_all add: quiet_from_def client_async_start_def client_async_stop_def
      client_async_invalidate_connection_def client_async_send_def client_async_respond_def
      client_async_request_def to_dispatcher_own)
qed

text \<open>C20: Shutdown is final. After \<open>async_shutdown\<close> (called while no signal or callback is
  about to be called, which detaching from the dispatcher waits for) no signal is given and no
  request callback is called any more, whatever the connection, the timers, the dispatcher and the
  user's further calls do; a second shutdown changes nothing.\<close>

theorem client_silent_after_shutdown:
  assumes "\<not> shutdown_started s" and "list_all quiet_action (thread s)"
    and "(client_step verify ep)\<^sup>*\<^sup>* (client_async_shutdown on_thread s) t"
  shows "client_log t = client_log s \<and> delivered t = delivered s"
proof -
  have "quiet_from (client_log s) (delivered s) (client_async_shutdown on_thread s)"
    using shutdown_dead [OF assms(1)] assms(2) by (simp add: quiet_from_def)
  from assms(3) this have "quiet_from (client_log s) (delivered s) t"
    by (induction rule: rtranclp_induct) (blast intro: quiet_step)+
  then show ?thesis by (simp add: quiet_from_def)
qed

lemma client_silent_after_shutdown_witness:
  "client_log (client_async_start (client_async_shutdown False example_client)) = []"
proof -
  have "\<not> shutdown_started example_client" "list_all quiet_action (thread example_client)"
    "client_log example_client = []"
    by (simp_all add: example_client_def new_client_def)
  then show ?thesis
    using client_silent_after_shutdown [of example_client "\<lambda>_. True" "\<lambda>_. No_error" False
        "client_async_start (client_async_shutdown False example_client)"]
    by (metis cl_start r_into_rtranclp)
qed

end
