(* ===== verification/Client_Composition.thy ===== *)
theory Client_Composition
  imports Composition Client_Properties
begin

text \<open>
  The client with its connections: its calls are performed on modelled peers, and the signals that its
  slots receive are theirs. The client satisfies the laws of an owner, so its machine and the peers'
  machines run in the composition, and what was proved of each holds together.
\<close>

section \<open>The client as an owner\<close>

fun client_perform :: "peer_call \<Rightarrow> peer \<Rightarrow> peer" where
  "client_perform Peer_start p = async_start p"
| "client_perform (Peer_send data) p = async_send data p"
| "client_perform (Peer_send_request rid data) p = async_send_request rid data p"
| "client_perform (Peer_send_response rid data) p = async_send_response rid data p"
| "client_perform Peer_close p = async_close None p"

fun client_call_frames :: "peer_call \<Rightarrow> bytes list" where
  "client_call_frames (Peer_send data) = [make_user_data_frame data]"
| "client_call_frames (Peer_send_request rid data) = [make_request_frame rid data]"
| "client_call_frames (Peer_send_response rid data) = [make_response_frame rid data]"
| "client_call_frames _ = []"

definition client_ops :: "('cb client, peer_call) connection_owner" where
  "client_ops =
     \<lparr>announce = (\<lambda>p sig s.
        s\<lparr>peer_signals := peer_signals s @ [(p, sig)],
          live_peers := (if sig = Sig_closed then live_peers s - {p} else live_peers s)\<rparr>),
      destroy = (\<lambda>p s.
        s\<lparr>peer_signals := filter (\<lambda>(q, _). q \<noteq> p) (peer_signals s), live_peers := live_peers s - {p}\<rparr>),
      knows = (\<lambda>s p. peer_session s p \<noteq> None), may_close = live_peers, may_ready = (\<lambda>_. UNIV),
      holds_ref = (\<lambda>s p. client_peer s = Some p), calls_made = peer_calls,
      starts = (\<lambda>c. c = Peer_start), perform = client_perform, call_frames = client_call_frames,
      connection_options = (\<lambda>s. common_params (client_opts s))\<rparr>"

lemma client_ops_fields [simp]:
  "knows client_ops = (\<lambda>s p. peer_session s p \<noteq> None)" "may_close client_ops = live_peers"
  "may_ready client_ops s = UNIV" "holds_ref client_ops s p = (client_peer s = Some p)"
  "calls_made client_ops = peer_calls" "starts client_ops c = (c = Peer_start)"
  "perform client_ops = client_perform" "call_frames client_ops = client_call_frames"
  "connection_options client_ops s = common_params (client_opts s)"
  by (simp_all add: client_ops_def)

lemma client_perform_steps: "c \<noteq> Peer_start \<Longrightarrow> peer_step p (client_perform c p)"
  by (cases c) (simp_all add: async_send_def async_send_request_def async_send_response_def ps_push ps_close)

lemma client_perform_signals: "signals (client_perform c p) = signals p"
  by (cases c) (simp_all add: async_send_def async_send_request_def async_send_response_def
      async_push_frame_def async_close_def async_start_def post_def)

lemma client_perform_order:
  "c \<noteq> Peer_start \<Longrightarrow> accepts_in_order r p \<Longrightarrow> accepts_in_order (r @ client_call_frames c) (client_perform c p)"
  by (cases c) (simp_all add: async_send_def async_send_request_def async_send_response_def accepts_asked
      accepts_close)

lemma client_frames_owned: "f \<in> set (client_call_frames c) \<Longrightarrow> \<not> automatic_frame f"
  by (cases c) (simp_all add: message_frames_owned)

section \<open>The calls of a step\<close>

text \<open>The calls from \<open>s\<close> to \<open>t\<close> start nothing, and the references stay as they are.\<close>

abbreviation client_calm :: "'cb client \<Rightarrow> 'cb client \<Rightarrow> bool" where
  "client_calm s t \<equiv> calls_known client_ops s t"

lemma client_calmI:
  assumes "peer_session t = peer_session s" and "live_peers t \<subseteq> live_peers s"
    and "client_peer t = client_peer s \<or> client_peer t = None" and "peer_calls t = peer_calls s @ cs" and "\<forall>p. (p, Peer_start) \<notin> set cs"
    and "\<forall>x \<in> set cs. client_peer s = Some (fst x)"
  shows "client_calm s t"
  using assms by (auto simp: calls_known_def starts_none_def fun_eq_iff)

lemma client_calm_silent:
  "peer_session t = peer_session s \<Longrightarrow> live_peers t \<subseteq> live_peers s \<Longrightarrow> peer_calls t = peer_calls s \<Longrightarrow>
     client_peer t = client_peer s \<or> client_peer t = None \<Longrightarrow> client_calm s t"
  by (rule client_calmI [where cs = "[]"]) simp_all

lemma client_calm_close: "client_calm s (snd (client_close_peer ec s))"
proof (cases "client_peer s")
  case (Some p)
  then show ?thesis
    by (intro client_calmI [where cs = "[(p, Peer_close)]"]) (simp_all add: client_close_peer_def Let_def)
qed (simp add: client_close_peer_def client_calm_silent)

text \<open>Silent steps before and after.\<close>

lemma client_calm_after:
  assumes "client_calm v t" and "peer_session v = peer_session s" and "live_peers v = live_peers s"
    and "peer_calls v = peer_calls s" and "client_peer v = client_peer s"
  shows "client_calm s t"
  by (rule calls_known_trans [OF client_calm_silent assms(1)]) (simp_all add: assms)

lemma client_calm_before:
  assumes "client_calm s v" and "peer_session t = peer_session v" and "live_peers t = live_peers v"
    and "peer_calls t = peer_calls v" and "client_peer t = client_peer v"
  shows "client_calm s t"
  by (rule calls_known_trans [OF assms(1) client_calm_silent]) (simp_all add: assms)

lemma client_calm_stop: "client_calm s (io_stop s)"
  unfolding io_stop_def by (rule client_calm_after [OF client_calm_close]) simp_all

lemma client_calm_timed_out: "client_calm s (request_timed_out t s)"
proof (cases "invalidate_connection_on_request_error (common_params (client_opts s)) \<and> client_peer s \<noteq> None")
  case True
  then have "request_timed_out t s =
      notify_only t (N_closed (the (client_peer s))) (snd (client_close_peer Connection_reset s))"
    by (auto simp: request_timed_out_def case_prod_beta)
  then show ?thesis
    by (simp add: client_calm_before [OF client_calm_close])
qed (auto simp: request_timed_out_def client_calm_silent split: option.split)

text \<open>Only a connected socket makes a connection, and its first call starts it.\<close>

lemma client_connects:
  assumes "peer_session s (next_ref s) = None"
  shows "client_calm s (handle_connected_socket sk c v t s) \<or>
    calls_created client_ops s (handle_connected_socket sk c v t s)"
proof (cases "connecting_socket s = Some sk \<and> is_current t (scope s) \<and> v")
  case True
  with assms have "calls_created client_ops s (handle_connected_socket sk c v t s)"
    unfolding calls_created_def
    by (intro exI [where x = "next_ref s"] exI [where x = Peer_start] exI [where x = "[]"])
       (simp add: handle_connected_socket_def Let_def starts_none_def fun_eq_iff)
  then show ?thesis ..
next
  case False
  have "client_calm s (handle_connected_socket sk c v t s)"
    using False by (intro client_calm_silent) (auto simp: handle_connected_socket_def Let_def)
  then show ?thesis ..
qed

lemma client_calm_io:
  assumes "\<forall>sk c v k. u \<noteq> Io_handle_connected sk c v k"
  shows "client_calm s (run_io ep u s)"
proof (cases u)
  case (Io_connect t)
  then show ?thesis by (intro client_calm_silent) (simp_all add: io_connect_def Let_def)
next
  case (Io_connect_done sk t ec credentials)
  then show ?thesis
    by (intro client_calm_silent) (auto simp: io_connect_done_def notify_def split: prod.splits if_splits)
next
  case Io_stop
  then show ?thesis by (simp add: client_calm_stop)
next
  case (Io_invalidate t)
  then show ?thesis by (simp add: io_invalidate_def client_calm_before [OF client_calm_stop])
next
  case Io_shutdown
  have "client_calm s (post_io Io_nothing (snd (client_close_peer ec v)))"
    if "peer_session v = peer_session s" "live_peers v = live_peers s" "peer_calls v = peer_calls s"
      "client_peer v = client_peer s" for ec v
    by (rule client_calm_after [OF client_calm_before [OF client_calm_close [of v ec]]]) (simp_all add: that)
  with Io_shutdown show ?thesis
    by (simp add: io_shutdown_def Let_def split: option.split)
next
  case (Io_request data cb)
  show ?thesis
  proof (cases "client_peer s")
    case (Some p)
    then show ?thesis using Io_request
      by (auto simp: send_request_def split: prod.split
          intro!: client_calmI [where cs = "[(p, Peer_send_request rid data)]" for rid])
  qed (simp add: Io_request send_request_def client_calm_silent)
next
  case (Io_send data)
  then show ?thesis
    by (cases "client_peer s")
       (simp_all add: to_peer_def client_calm_silent client_calmI [where cs = "[(p, Peer_send data)]" for p])
next
  case (Io_respond rid data)
  then show ?thesis
    by (cases "client_peer s")
       (simp_all add: to_peer_def client_calm_silent
          client_calmI [where cs = "[(p, Peer_send_response rid data)]" for p])
qed (use assms in \<open>simp_all add: if_peer_def io_peer_error_occurred_def io_peer_closed_def Let_def
  client_calm_silent\<close>)

lemma client_calm_detach: "client_calm s (client_async_shutdown on_thread s)"
  by (rule client_calm_silent)
     (simp_all add: client_async_shutdown_def client_detach_def client_cleanup_def Let_def
        split: option.split prod.split bool.split)

lemma client_step_calls:
  assumes "client_step verify ep s t" and "announce_inv verify s"
    and "\<forall>p sig. t \<noteq> announce client_ops p sig s"
  shows "client_calm s t \<or> calls_created client_ops s t"
  using assms
proof (induction rule: client_step.induct)
  case (cl_take s d now e d')
  have "client_calm s (begin_function f (s\<lparr>disp := Some d'\<rparr>))" for f
    by (intro client_calm_silent)
       (cases f; auto split: option.split prod.split)+
  then show ?case by (auto simp: client_calm_silent split: option.split)
next
  case (cl_action s a as now)
  have "client_calm s (run_action verify now a (s\<lparr>thread := as\<rparr>))"
    by (intro client_calm_silent) (cases a; simp add: schedule_reconnect_def)+
  then show ?case ..
next
  case (cl_io s u ts)
  let ?v = "s\<lparr>io := ts\<rparr>"
  have "client_calm ?v (run_io ep u ?v) \<or> calls_created client_ops ?v (run_io ep u ?v)"
  proof (cases "\<exists>sk c v k. u = Io_handle_connected sk c v k")
    case True
    then obtain sk c v k where u: "u = Io_handle_connected sk c v k" by blast
    have "peer_session ?v (next_ref ?v) = None"
      using \<open>announce_inv verify s\<close> unfolding announce_inv_def by (simp, metis less_irrefl)
    from client_connects [OF this, of sk c v k] show ?thesis by (simp only: u run_io.simps)
  qed (auto intro: client_calm_io)
  then show ?case by (simp add: calls_known_def calls_created_def)
next
  case (cl_request_timer s)
  show ?case
    by (auto simp: io_request_timer_def Let_def split: prod.split option.split
        intro!: client_calm_silent client_calm_after [OF client_calm_timed_out])
next
  case (cl_peer_slot s xs p sig ys)
  have "client_calm s (peer_slot p sig (s\<lparr>peer_signals := xs @ ys\<rparr>))"
    by (intro client_calm_silent) (cases sig; auto simp: peer_slot_def split: option.split)+
  then show ?case ..
next
  case (cl_peer_announces s p sig)
  then show ?case by (auto simp: client_ops_def)
next
  case (cl_shutdown s on_thread)
  show ?case by (simp add: client_calm_detach)
qed (auto simp: client_async_start_def client_async_stop_def client_async_invalidate_connection_def
    client_async_send_def client_async_respond_def client_async_request_def intro!: client_calm_silent)

interpretation client_system:
  connection_system client_initial "client_step verify ep" "signals_inv verify" client_ops
proof (intro connection_system.intro connection_system_axioms.intro)
  show "event_machine client_initial (client_step verify ep) (signals_inv verify)"
    by (rule client_signals.event_machine_axioms)
  fix s t :: "'a client" and p sig c pr
  show "client_step verify ep s (announce client_ops p sig s)"
    if "knows client_ops s p" "sig = Sig_closed \<Longrightarrow> p \<in> may_close client_ops s"
    using that cl_peer_announces [of s p sig verify ep] by (simp add: client_ops_def)
  show "client_step verify ep s (destroy client_ops p s)" if "\<not> holds_ref client_ops s p"
    using that cl_peer_gone [of s p verify ep] by (simp add: client_ops_def)
  show "calls_known client_ops s t \<or> calls_created client_ops s t"
    if "signals_inv verify s" "client_step verify ep s t" "\<forall>p sig. t \<noteq> announce client_ops p sig s"
    using client_step_calls [OF that(2) _ that(3)] that(1) by (simp add: signals_inv_def)
  show "\<not> knows client_ops s p" "may_close client_ops s = {}" "\<not> holds_ref client_ops s p"
      "calls_made client_ops s = []"
    if "client_initial s"
    using that by (auto simp: client_initial_def new_client_def)
  show "peer_step pr (perform client_ops c pr)" if "\<not> starts client_ops c"
    using that by (simp add: client_perform_steps)
  show "accepts_in_order (r @ call_frames client_ops c) (perform client_ops c pr)"
    if "\<not> starts client_ops c" "accepts_in_order r pr" for r
    using that by (simp add: client_perform_order)
  show "\<not> automatic_frame f" if "f \<in> set (call_frames client_ops c)" for f
    using that by (simp add: client_frames_owned)
  show "signals (perform client_ops c pr) = signals pr"
    by (simp add: client_perform_signals)
qed (auto simp: client_ops_def)

abbreviation composed_client ::
    "(peer_credentials \<Rightarrow> bool) \<Rightarrow> (path \<Rightarrow> error_code) \<Rightarrow> 'cb client composed \<Rightarrow> bool" where
  "composed_client verify ep \<equiv>
     reachable_from (composed_initial client_initial) (composed_step client_ops (client_step verify ep))"

section \<open>A client with a connection\<close>

text \<open>\<open>started_client\<close> in the middle of connecting: its thread, executor, connecting socket and queue.\<close>

definition client_at ::
    "nat client_action list \<Rightarrow> nat io_task list \<Rightarrow> socket_ref option \<Rightarrow> (socket_ref \<times> token) list \<Rightarrow> nat \<Rightarrow>
     nat client_function entry list \<Rightarrow> nat client" where
  "client_at as us sk cs n q =
     started_client\<lparr>thread := as, io := us, connecting_socket := sk, connects := cs, next_ref := n,
       disp := Some ((snd (attach 1 (new_dispatcher 0)))\<lparr>queue := q\<rparr>)\<rparr>"

definition connected_client :: "nat client" where
  "connected_client =
     (client_at [] [Io_notify_connected 1 no_credentials 0] None [] 2 [])
       \<lparr>client_peer := Some 1, peer_session := [1 \<mapsto> (0, no_credentials)], live_peers := {1},
        peer_calls := [(1, Peer_start)]\<rparr>"

definition connected_composed :: "nat client composed" where
  "connected_composed = \<lparr>owner = connected_client, connections = [1 \<mapsto> fresh_peer]\<rparr>"

lemma composed_quiet:
  assumes "composed_client verify ep \<lparr>owner = s, connections = (\<lambda>_. None)\<rparr>" and "client_step verify ep s t"
    and "peer_signals t = peer_signals s" and "live_peers s = live_peers t"
    and "peer_session t = peer_session s"
  shows "composed_client verify ep \<lparr>owner = t, connections = (\<lambda>_. None)\<rparr>"
proof -
  have "\<forall>p sig. t \<noteq> announce client_ops p sig s"
  proof (intro allI notI)
    fix p sig
    assume "t = announce client_ops p sig s"
    then have "peer_signals t = peer_signals s @ [(p, sig)]" by (simp add: client_ops_def)
    then show False using assms(3) by simp
  qed
  then show ?thesis
    using client_system.unconnected_step [OF assms(1,2)] assms(4,5) by simp
qed

lemma client_at_quiet:
  assumes "composed_client verify ep \<lparr>owner = client_at as us sk cs n q, connections = (\<lambda>_. None)\<rparr>"
    and "client_step verify ep (client_at as us sk cs n q) (client_at as' us' sk' cs' n' q')"
  shows "composed_client verify ep \<lparr>owner = client_at as' us' sk' cs' n' q', connections = (\<lambda>_. None)\<rparr>"
  by (rule composed_quiet [OF assms]) (simp_all add: client_at_def)

lemmas client_at_defs = client_at_def example_defs scope_defs new_notification_scope_def

lemma composed_started:
  "composed_client verify ep \<lparr>owner = client_at [D_connect] [] None [] 0 [], connections = (\<lambda>_. None)\<rparr>"
proof -
  have "composed_client verify ep \<lparr>owner = example_client, connections = (\<lambda>_. None)\<rparr>"
    by (rule reach_init) (simp add: composed_initial_def example_client_initial)
  then have "composed_client verify ep \<lparr>owner = client_async_start example_client, connections = (\<lambda>_. None)\<rparr>"
    by (rule composed_quiet [OF _ cl_start]) (simp_all add: client_async_start_def)
  then have "composed_client verify ep \<lparr>owner = started_client, connections = (\<lambda>_. None)\<rparr>"
    by (rule composed_quiet [OF _ started_client_step]) (simp_all add: example_defs)
  moreover have "started_client = client_at [D_connect] [] None [] 0 []"
    by (simp add: client_at_defs)
  ultimately show ?thesis by simp
qed

lemma composed_connecting:
  "composed_client verify (\<lambda>_. No_error)
     \<lparr>owner = client_at [] [] (Some 0) [(0, 0)] 1 [], connections = (\<lambda>_. None)\<rparr>"
proof -
  have "client_step verify (\<lambda>_. No_error) (client_at [D_connect] [] None [] 0 [])
      (client_at [] [Io_connect 0] None [] 0 [])"
    using cl_action [of "client_at [D_connect] [] None [] 0 []" D_connect "[]" None verify "\<lambda>_. No_error"]
    by (simp add: client_at_defs post_io_def clock_ok_def)
  moreover have "client_step verify (\<lambda>_. No_error) (client_at [] [Io_connect 0] None [] 0 [])
      (client_at [] [] (Some 0) [(0, 0)] 1 [])"
    using cl_io [of "client_at [] [Io_connect 0] None [] 0 []" "Io_connect 0" "[]" verify "\<lambda>_. No_error"]
    by (simp add: client_at_defs io_connect_def is_error_def)
  ultimately show ?thesis
    by (rule client_at_quiet [OF client_at_quiet [OF composed_started]])
qed

lemma composed_verifying:
  "composed_client (\<lambda>_. True) (\<lambda>_. No_error)
     \<lparr>owner = client_at [] [Io_handle_connected 0 no_credentials True 0] (Some 0) [] 1 [],
      connections = (\<lambda>_. None)\<rparr>"
proof -
  let ?e = "\<lparr>object_id_value = 1, entry_function = Fn_scoped 0 (N_verify 0 no_credentials 0), entry_when = 1\<rparr>"
  let ?step = "client_step (\<lambda>_. True) (\<lambda>_. No_error)"
  have "?step (client_at [] [] (Some 0) [(0, 0)] 1 [])
      (client_at [] [Io_connect_done 0 0 No_error no_credentials] (Some 0) [] 1 [])"
    using cl_connect_done [of "client_at [] [] (Some 0) [(0, 0)] 1 []" "[]" 0 0 "[]" No_error
        "\<lambda>_. True" "\<lambda>_. No_error" no_credentials]
    by (simp add: client_at_defs post_io_def)
  moreover have "?step (client_at [] [Io_connect_done 0 0 No_error no_credentials] (Some 0) [] 1 [])
      (client_at [] [] (Some 0) [] 1 [?e])"
    using cl_io [of "client_at [] [Io_connect_done 0 0 No_error no_credentials] (Some 0) [] 1 []"
        "Io_connect_done 0 0 No_error no_credentials" "[]" "\<lambda>_. True" "\<lambda>_. No_error"]
    by (simp add: client_at_defs io_connect_done_def is_error_def notify_def scope_enqueue_def)
  moreover have "?step (client_at [] [] (Some 0) [] 1 [?e])
      (client_at [D_verify 0 no_credentials 0] [] (Some 0) [] 1 [])"
    using cl_take [of "client_at [] [] (Some 0) [] 1 [?e]" "(snd (attach 1 (new_dispatcher 0)))\<lparr>queue := [?e]\<rparr>"
        None ?e "(snd (attach 1 (new_dispatcher 0)))\<lparr>queue := []\<rparr>" "\<lambda>_. True" "\<lambda>_. No_error"]
    by (simp add: client_at_defs worker_iteration_def calculate_duration_def clock_ok_def call_function_def
        run_scoped_def)
  moreover have "?step (client_at [D_verify 0 no_credentials 0] [] (Some 0) [] 1 [])
      (client_at [] [Io_handle_connected 0 no_credentials True 0] (Some 0) [] 1 [])"
    using cl_action [of "client_at [D_verify 0 no_credentials 0] [] (Some 0) [] 1 []" "D_verify 0 no_credentials 0"
        "[]" None "\<lambda>_. True" "\<lambda>_. No_error"]
    by (simp add: client_at_defs post_io_def clock_ok_def)
  ultimately show ?thesis
    by (rule client_at_quiet [OF client_at_quiet [OF client_at_quiet [OF client_at_quiet [OF composed_connecting]]]])
qed

lemma connected_composed_reachable: "composed_client (\<lambda>_. True) (\<lambda>_. No_error) connected_composed"
proof -
  let ?u = "Io_handle_connected 0 no_credentials True 0"
  let ?s = "client_at [] [?u] (Some 0) [] 1 []"
  let ?step = "client_step (\<lambda>_. True) (\<lambda>_. No_error)"
  have step: "?step ?s connected_client"
    using cl_io [of ?s ?u "[]" "\<lambda>_. True" "\<lambda>_. No_error"]
    by (simp add: connected_client_def client_at_defs handle_connected_socket_def call_peer_def post_io_def
        numeral_2_eq_2 Let_def)
  have made: "peer_calls connected_client = [(1, Peer_start)]" "live_peers connected_client = {1}"
      "peer_session connected_client = [1 \<mapsto> (0, no_credentials)]" "peer_signals connected_client = []"
      "common_params (client_opts connected_client) = default_common_parameters"
    by (simp_all add: connected_client_def client_at_defs default_client_options_def)
  have before: "peer_calls ?s = []" "live_peers ?s = {}" "peer_session ?s = (\<lambda>_. None)" "peer_signals ?s = []"
    by (simp_all add: client_at_defs)
  have "connected_client \<noteq> announce client_ops p sig ?s" for p sig
  proof
    assume "connected_client = announce client_ops p sig ?s"
    from arg_cong [OF this, of peer_signals] show False using made before by (simp add: client_ops_def)
  qed
  then have "composed_step client_ops ?step \<lparr>owner = ?s, connections = (\<lambda>_. None)\<rparr>
      \<lparr>owner = connected_client, connections = owner_effect client_ops ?s connected_client (\<lambda>_. None)\<rparr>"
    using co_owner [of ?step "\<lparr>owner = ?s, connections = (\<lambda>_. None)\<rparr>" connected_client client_ops] step made before
    by simp
  moreover have "owner_effect client_ops ?s connected_client (\<lambda>_. None) = [1 \<mapsto> fresh_peer]"
    using made before by (auto simp: owner_effect_def new_calls_def calls_on_def fresh_peer_def fun_eq_iff)
  ultimately show ?thesis
    using composed_verifying unfolding connected_composed_def by (auto intro: reach_step)
qed

lemma connected_composed_facts:
  "client_peer (owner connected_composed) = Some 1" "connections connected_composed 1 = Some fresh_peer"
  "within_bounds (owner connected_composed)" "alive (owner connected_composed)"
  "scope_running (scope (owner connected_composed))" "live_peers (owner connected_composed) = {1}"
  "peer_signals (owner connected_composed) = []"
  by (simp_all add: connected_composed_def connected_client_def client_at_defs within_bounds_def
      requests_made_def alive_unfold)

section \<open>The client on real connections\<close>

text \<open>C3: The client runs on real connections. Let the client run together with the connections it
  creates, its calls performed on them and their signals delivered to its slots, in any interleaving
  of its threads, its executor and theirs. Then the client and every connection are, at any time, in
  states their own machines reach, so every property of the client and every property of a connection
  holds of the two together. The connection the client holds exists, every existing one has
  credentials that the verifier accepted, and a connection is open exactly as long as the client may
  still hear that it closed.\<close>

theorem client_runs_on_real_connections:
  assumes "reachable_from (composed_initial client_initial) (composed_step client_ops (client_step verify ep)) c"
  shows "reachable_from client_initial (client_step verify ep) (owner c) \<and>
    (client_peer (owner c) = Some p \<longrightarrow> connections c p \<noteq> None) \<and>
    (\<forall>pr. connections c p = Some pr \<longrightarrow>
       reachable_from peer_started peer_step pr \<and>
       (\<exists>t credentials. peer_session (owner c) p = Some (t, credentials) \<and> verify credentials) \<and>
       (socket_open pr \<longleftrightarrow> p \<in> live_peers (owner c)))"
proof -
  have reach: "reachable_from client_initial (client_step verify ep) (owner c)"
    using assms by (rule client_system.runs_on_real_connections(1))
  from client_signals.reachable_inv [OF this] have "announce_inv verify (owner c)"
    by (simp add: signals_inv_def)
  then have "verify credentials" if "peer_session (owner c) p = Some (t, credentials)" for t credentials
    using that unfolding announce_inv_def by blast
  then show ?thesis
    using reach client_system.runs_on_real_connections(2,3) [OF assms, of p] by auto
qed

lemma client_runs_on_real_connections_witness:
  "client_peer (owner connected_composed) = Some 1 \<and>
   socket_open fresh_peer = (1 \<in> live_peers (owner connected_composed))"
  using client_runs_on_real_connections [OF connected_composed_reachable, of 1] connected_composed_facts
  by simp

text \<open>C1: The client never gets stuck, down to its connection. While it is started and its dispatcher
  serves it, something will start a connection attempt of the current session; or it holds a socket
  whose connect is outstanding, being verified or about to be handled; or it holds a connection whose
  \<open>closed\<close> is on its way to the client, or which is open with every timer pending that it needs, and
  then any deadline that expires leads to \<open>closed\<close> within the handlers queued so far. No silence of
  the other side can leave the client waiting without a timer. (Fewer than \<open>2 ^ 64\<close> sessions and
  requests.)\<close>

theorem client_never_stuck_on_real_connections:
  assumes "reachable_from (composed_initial client_initial) (composed_step client_ops (client_step verify ep)) c"
    and "within_bounds (owner c)" and "alive (owner c)" and "scope_running (scope (owner c))"
  shows "recovering (owner c) \<or>
    (\<exists>sk. connecting_socket (owner c) = Some sk \<and> attempt_live (owner c) sk) \<or>
    (\<exists>p pr. client_peer (owner c) = Some p \<and> connections c p = Some pr \<and>
       ((p, Sig_closed) \<in> set (peer_signals (owner c)) \<or>
        Io_peer_closed p (now_token (owner c)) \<in> set (io (owner c)) \<or>
        connection_watched pr))"
proof -
  have real: "client_peer (owner c) = Some p \<Longrightarrow> \<exists>pr. connections c p = Some pr" for p
    using client_system.runs_on_real_connections(3) [OF assms(1), of p] by simp
  have watched: "connection_watched pr" if "connections c p = Some pr" "p \<in> live_peers (owner c)" for p pr
    using client_system.runs_on_real_connections(2) [OF assms(1) that(1)] that(2) open_watched by simp
  have "recovering (owner c) \<or>
      (\<exists>sk. connecting_socket (owner c) = Some sk \<and> attempt_live (owner c) sk) \<or>
      (\<exists>p. client_peer (owner c) = Some p \<and> peer_live (owner c) p)"
    using client_machine.reachable_inv [OF client_system.runs_on_real_connections(1) [OF assms(1)]] assms(2-4)
    by (auto simp: bounded_inv_def client_inv_def going_inv_def progressing_def)
  then show ?thesis
    using real watched unfolding peer_live_def by blast
qed

lemma client_never_stuck_on_real_connections_witness:
  "recovering (owner connected_composed) \<or>
    (\<exists>sk. connecting_socket (owner connected_composed) = Some sk \<and> attempt_live (owner connected_composed) sk) \<or>
    (\<exists>p pr. client_peer (owner connected_composed) = Some p \<and> connections connected_composed p = Some pr \<and>
       ((p, Sig_closed) \<in> set (peer_signals (owner connected_composed)) \<or>
        Io_peer_closed p (now_token (owner connected_composed)) \<in> set (io (owner connected_composed)) \<or>
        connection_watched pr))"
  using client_never_stuck_on_real_connections [OF connected_composed_reachable] connected_composed_facts
  by blast

text \<open>C4: Messages leave in the order of the client's calls. Take the frames of all the messages, requests
  and responses that the client has sent on a connection, in the order of its calls. Those the
  connection accepted, apart from its own heartbeats and health check answers, are an initial part of
  them: none is reordered, repeated or left out before a later one, and those written to the socket
  are an initial part of the accepted ones. While the connection is open, the rest is queued on its
  executor, so nothing is lost as long as the connection lives.\<close>

theorem client_messages_leave_in_order:
  assumes "reachable_from (composed_initial client_initial) (composed_step client_ops (client_step verify ep)) c"
    and "connections c p = Some pr"
  defines "frames \<equiv> concat (map client_call_frames (map snd (filter (\<lambda>x. fst x = p) (peer_calls (owner c)))))"
  shows "prefix (owner_frames (accepted_frames pr)) frames \<and> prefix (sent_frames pr) (accepted_frames pr) \<and>
    (socket_open pr \<longrightarrow> frames = owner_frames (accepted_frames pr) @ concat (map pushed (handlers pr)))"
proof -
  have frames: "frames = frames_asked client_ops (owner c) p"
    by (simp add: frames_def frames_asked_def calls_on_def)
  have "reachable_peer pr"
    using client_system.runs_on_real_connections(2) [OF assms(1,2)] by simp
  then have "accepted_frames pr = sent_frames pr @ write_queue pr"
    using reachable_peer_facts(2) by (simp add: data_inv_def)
  then show ?thesis
    using client_system.accepted_in_order [OF assms(1,2)] by (simp add: frames)
qed

text \<open>The client of the example sends a message: its connection has not handled it yet.\<close>

definition sending_client :: "nat client" where
  "sending_client =
     run_io (\<lambda>_. No_error) (Io_send [65])
       ((run_io (\<lambda>_. No_error) (Io_notify_connected 1 no_credentials 0)
          ((client_async_send [65] connected_client)\<lparr>io := [Io_send [65]]\<rparr>))\<lparr>io := []\<rparr>)"

definition sending_composed :: "nat client composed" where
  "sending_composed = \<lparr>owner = sending_client, connections = [1 \<mapsto> async_send [65] fresh_peer]\<rparr>"

lemma composed_owner_step:
  assumes "composed_client verify ep \<lparr>owner = s, connections = conns\<rparr>" and "client_step verify ep s t"
    and "peer_signals t = peer_signals s" and "live_peers t = live_peers s" and "peer_session t = peer_session s"
    and "peer_calls t = peer_calls s @ cs" and "conns' = (\<lambda>p. map_option (fold client_perform (calls_on p cs)) (conns p))"
  shows "composed_client verify ep \<lparr>owner = t, connections = conns'\<rparr>"
proof -
  have "t \<noteq> announce client_ops p sig s" for p sig
  proof
    assume "t = announce client_ops p sig s"
    then have "peer_signals t = peer_signals s @ [(p, sig)]" by (simp add: client_ops_def)
    then show False using assms(3) by simp
  qed
  then have "composed_step client_ops (client_step verify ep) \<lparr>owner = s, connections = conns\<rparr>
      \<lparr>owner = t, connections = owner_effect client_ops s t conns\<rparr>"
    using co_owner [of "client_step verify ep" "\<lparr>owner = s, connections = conns\<rparr>" t client_ops] assms(2,4)
    by simp
  moreover have "owner_effect client_ops s t conns = conns'"
    using assms(5-7) by (auto simp: owner_effect_def new_calls_def fun_eq_iff)
  ultimately show ?thesis using assms(1) by (auto intro: reach_step)
qed

lemma sending_composed_reachable: "composed_client (\<lambda>_. True) (\<lambda>_. No_error) sending_composed"
proof -
  let ?step = "client_step (\<lambda>_. True) (\<lambda>_. No_error)"
  let ?n = "Io_notify_connected 1 no_credentials 0"
  let ?a = "client_async_send [65] connected_client"
  let ?b = "run_io (\<lambda>_. No_error) ?n (?a\<lparr>io := [Io_send [65]]\<rparr>)"
  have io: "io ?a = [?n, Io_send [65]]" "io ?b = [Io_send [65]]"
    by (simp_all add: client_async_send_def post_io_def connected_client_def client_at_def if_peer_def)
  have "composed_client (\<lambda>_. True) (\<lambda>_. No_error) \<lparr>owner = connected_client, connections = [1 \<mapsto> fresh_peer]\<rparr>"
    using connected_composed_reachable by (simp add: connected_composed_def)
  then have "composed_client (\<lambda>_. True) (\<lambda>_. No_error) \<lparr>owner = ?a, connections = [1 \<mapsto> fresh_peer]\<rparr>"
    by (rule composed_owner_step [OF _ cl_send, where cs = "[]"])
       (simp_all add: client_async_send_def calls_on_def option.map_id fun_eq_iff)
  then have "composed_client (\<lambda>_. True) (\<lambda>_. No_error) \<lparr>owner = ?b, connections = [1 \<mapsto> fresh_peer]\<rparr>"
    by (rule composed_owner_step [OF _ cl_io [OF io(1)], where cs = "[]"])
       (simp_all add: if_peer_def calls_on_def option.map_id fun_eq_iff)
  then have "composed_client (\<lambda>_. True) (\<lambda>_. No_error)
      \<lparr>owner = sending_client, connections = [1 \<mapsto> async_send [65] fresh_peer]\<rparr>"
    unfolding sending_client_def
    by (rule composed_owner_step [OF _ cl_io [OF io(2)], where cs = "[(1, Peer_send [65])]"])
       (simp_all add: to_peer_def if_peer_def client_async_send_def connected_client_def client_at_def calls_on_def
          fun_eq_iff)
  then show ?thesis by (simp add: sending_composed_def)
qed

lemma client_messages_leave_in_order_witness:
  "[make_user_data_frame [65]] =
     owner_frames (accepted_frames (async_send [65] fresh_peer)) @
       concat (map pushed (handlers (async_send [65] fresh_peer)))"
proof -
  have "connections sending_composed 1 = Some (async_send [65] fresh_peer)"
      "socket_open (async_send [65] fresh_peer)"
      "peer_calls (owner sending_composed) = [(1, Peer_start), (1, Peer_send [65])]"
    by (simp_all add: sending_composed_def sending_client_def to_peer_def if_peer_def client_async_send_def
        connected_client_def async_send_def async_push_frame_def post_def fresh_peer_def async_start_def
        new_peer_def client_at_def)
  then show ?thesis
    using client_messages_leave_in_order [OF sending_composed_reachable, of 1] by simp
qed

end
