(* ===== verification/Server.thy ===== *)
theory Server
  imports Notification_Scope Owner_Queue Request_Manager Peer_Contract Runtime
begin

text \<open>
  The server (\<^verbatim>\<open>server.hpp\<close>): bind, accept, verify and expose peers, requests, the health check of
  its socket path, rebinding, stop and shutdown. As with the client, the functions it puts on the
  dispatcher are constructors (\<open>server_function\<close>), the one that runs is a list of atomic
  \<open>server_action\<close>s, and the functions posted to the I/O executor are \<open>server_task\<close>s.

  A function of the I/O thread that reads the session token more than once is split at the reads:
  its rest is a task put at the front of the executor's queue (\<open>sv_continue\<close>), so that nothing else
  runs on the I/O thread in between, but the dispatcher thread may.

  A peer is its contract (theory \<open>Peer_Contract\<close>): it announces \<open>ready\<close> and \<open>closed\<close> at most once,
  and its signals are delivered in order under its own object id. Accepted peers and the peers of
  the health check's probes are both identities; the slots the code connects to them differ.
\<close>

section \<open>Functions, actions and tasks\<close>

type_synonym conn_ref = nat
type_synonym acceptor_ref = nat
type_synonym probe_ref = nat

text \<open>What is enqueued through the notification scope.\<close>

datatype server_notification =
    Sn_bound
  | Sn_bind_failed error_code
  | Sn_closed
  | Sn_ready peer_id peer_credentials

text \<open>\<open>'cb\<close> is the type of request callbacks; the closures of the debounced task and the timer are \<open>()\<close>.\<close>

datatype 'cb server_function =
    Sf_start
  | Sf_stop
  | Sf_scoped token server_notification
  | Sf_received peer_id bytes
  | Sf_request_received peer_id request_id bytes
  | Sf_error_occurred peer_id error_code
  | Sf_peer_closed peer_id
  | Sf_retry "unit debounce_function"
  | Sf_timer "unit timer_function"
  | Sf_callback 'cb error_code "bytes option"

datatype server_signal =
    Ss_bound
  | Ss_bind_failed error_code
  | Ss_closed
  | Ss_peer_connected peer_id peer_credentials
  | Ss_peer_closed peer_id
  | Ss_peer_error_occurred peer_id error_code
  | Ss_received peer_id bytes
  | Ss_request_received peer_id request_id bytes

datatype 'cb server_action =
    Sa_bind
  | Sa_cancel_retry
  | Sa_stop_timer
  | Sa_clear_exposed
  | Sa_post_stop
  | Sa_schedule_retry
  | Sa_start_timer
  | Sa_health_check
  | Sa_verify peer_id peer_credentials
  | Sa_signal server_signal
  | Sa_enqueue "'cb server_function"
  | Sa_callback 'cb error_code "bytes option"

text \<open>
  \<open>St_accept\<close>, \<open>St_accepted\<close> and \<open>St_probe_failing\<close> are the continuations; \<open>St_accept_done\<close>,
  \<open>St_probe_timer\<close> and \<open>St_probe_connected\<close> the handlers of \<^verbatim>\<open>async_accept\<close>, \<^verbatim>\<open>async_wait\<close> and
  \<^verbatim>\<open>async_connect\<close>; the credentials are those of the accepted socket.
\<close>

datatype 'cb server_task =
    St_bind token
  | St_accept token
  | St_accept_done token error_code peer_credentials
  | St_accepted peer_credentials token
  | St_stop
  | St_shutdown
  | St_nothing
  | St_send peer_id bytes
  | St_respond peer_id request_id bytes
  | St_request peer_id bytes 'cb
  | St_close_peer peer_id
  | St_peer_close_done peer_id
  | St_response_received peer_id conn_ref request_id bytes
  | St_error_occurred peer_id error_code
  | St_peer_closed peer_id
  | St_health_check token
  | St_probe_timer probe_ref token error_code
  | St_probe_connected probe_ref token error_code
  | St_probe_response probe_ref token
  | St_probe_failed probe_ref token error_code
  | St_probe_failing probe_ref token error_code

fun continuation :: "'cb server_task \<Rightarrow> bool" where
  "continuation (St_accept _) = True"
| "continuation (St_accepted _ _) = True"
| "continuation (St_probe_failing _ _ _) = True"
| "continuation _ = False"

datatype server_call =
    Call_start
  | Call_send bytes
  | Call_send_request request_id bytes
  | Call_send_response request_id bytes
  | Call_send_health_check
  | Call_close

text \<open>
  The members of \<^verbatim>\<open>server_state\<close>; whether the slots of its signals are connected (they are until
  \<^verbatim>\<open>async_shutdown\<close> disconnects them); the dispatcher and the rest of the function that runs
  there; the executor with the outstanding accepts, waits and connects (an operation names its
  acceptor or probe and carries its token); the peers: what the slots of accepted peers and of
  probes captured, who may still announce \<open>closed\<close> and \<open>ready\<close>, whose slots were disconnected, the
  signals waiting for their slots, and the calls made; the signals and callbacks delivered; the
  process-wide runtime; and three counts of what has happened.
\<close>

record 'cb server =
  sv_path :: path
  sv_opts :: server_options
  sv_scope :: notification_scope
  sv_requests :: "('cb, peer_id) request_manager"
  acceptor :: "acceptor_ref option"
  bound_path :: "path option"
  peers :: "(peer_id \<times> conn_ref) list"
  exposed :: "peer_id set"
  health_peer :: "conn_ref option"
  health_timeout :: "probe_ref option"
  next_peer_id :: peer_id
  sv_shutdown_started :: bool
  bind_retry_task :: debounced_task
  health_timer :: "unit dispatcher_timer"
  sv_slots :: bool
  sv_self :: server_ref
  sv_oid :: u64
  sv_disp :: "'cb server_function dispatcher option"
  sv_thread :: "'cb server_action list"
  sv_io :: "'cb server_task list"
  accepts :: "(acceptor_ref \<times> token) list"
  probe_waits :: "(probe_ref \<times> token) list"
  probe_connects :: "(probe_ref \<times> token) list"
  sv_next_ref :: nat
  peer_info :: "conn_ref \<Rightarrow> (peer_id \<times> token \<times> peer_credentials) option"
  probe_info :: "conn_ref \<Rightarrow> (probe_ref \<times> token) option"
  sv_live :: "conn_ref set"
  sv_unready :: "conn_ref set"
  sv_silenced :: "conn_ref set"
  sv_signals :: "(conn_ref \<times> peer_signal) list"
  sv_calls :: "(conn_ref \<times> server_call) list"
  sv_log :: "server_signal list"
  sv_delivered :: "('cb \<times> error_code \<times> bytes option) list"
  sv_runtime :: runtime
  sv_sessions :: nat
  sv_accepted :: nat
  sv_requested :: nat

definition new_server ::
    "path \<Rightarrow> server_options \<Rightarrow> server_ref \<Rightarrow> u64 \<Rightarrow> 'cb server_function dispatcher \<Rightarrow> runtime \<Rightarrow> 'cb server" where
  "new_server p options self oid d rt =
     \<lparr>sv_path = p, sv_opts = options, sv_scope = new_notification_scope,
      sv_requests = new_request_manager, acceptor = None, bound_path = None, peers = [],
      exposed = {}, health_peer = None, health_timeout = None, next_peer_id = 0,
      sv_shutdown_started = False, bind_retry_task = new_debounced_task, health_timer = new_timer,
      sv_slots = True, sv_self = self, sv_oid = oid, sv_disp = Some (snd (attach oid d)),
      sv_thread = [], sv_io = [], accepts = [], probe_waits = [], probe_connects = [],
      sv_next_ref = 0, peer_info = (\<lambda>_. None), probe_info = (\<lambda>_. None), sv_live = {},
      sv_unready = {}, sv_silenced = {}, sv_signals = [], sv_calls = [], sv_log = [],
      sv_delivered = [], sv_runtime = rt, sv_sessions = 0, sv_accepted = 0, sv_requested = 0\<rparr>"

section \<open>Enqueuing and posting\<close>

definition sv_enqueue :: "'cb server_function \<Rightarrow> 'cb server \<Rightarrow> 'cb server" where
  "sv_enqueue f s =
     s\<lparr>sv_disp := snd (enqueue_to_dispatcher (sv_oid s) f when_immediately (sv_disp s))\<rparr>"

definition sv_notify :: "token \<Rightarrow> server_notification \<Rightarrow> 'cb server \<Rightarrow> 'cb server" where
  "sv_notify t n s = s\<lparr>sv_disp := snd (scope_enqueue Sf_scoped (sv_oid s) t n (sv_disp s))\<rparr>"

definition sv_post :: "'cb server_task \<Rightarrow> 'cb server \<Rightarrow> 'cb server" where
  "sv_post u s = s\<lparr>sv_io := sv_io s @ [u]\<rparr>"

definition sv_continue :: "'cb server_task \<Rightarrow> 'cb server \<Rightarrow> 'cb server" where
  "sv_continue u s = s\<lparr>sv_io := u # sv_io s\<rparr>"

definition sv_call :: "conn_ref \<Rightarrow> server_call \<Rightarrow> 'cb server \<Rightarrow> 'cb server" where
  "sv_call p c s = s\<lparr>sv_calls := sv_calls s @ [(p, c)]\<rparr>"

text \<open>The request manager puts each completed callback on the server's dispatcher.\<close>

fun enqueue_callbacks ::
    "u64 \<Rightarrow> 'cb completion list \<Rightarrow> 'cb server_function dispatcher option \<Rightarrow>
     'cb server_function dispatcher option" where
  "enqueue_callbacks oid [] weak = weak"
| "enqueue_callbacks oid ((cb, ec, data) # out) weak =
     enqueue_callbacks oid out
       (snd (enqueue_to_dispatcher oid (Sf_callback cb ec data) when_immediately weak))"

definition sv_with_requests ::
    "('cb, peer_id) request_manager \<times> 'cb completion list \<Rightarrow> 'cb server \<Rightarrow> 'cb server" where
  "sv_with_requests r s =
     s\<lparr>sv_requests := fst r, sv_disp := enqueue_callbacks (sv_oid s) (snd r) (sv_disp s)\<rparr>"

section \<open>On the I/O thread: the acceptor\<close>

text \<open>
  Closing an acceptor, cancelling a timer and closing a socket end their outstanding operations
  with \<open>Operation_aborted\<close>. \<open>rem\<close> is \<^verbatim>\<open>filesystem::remove\<close> (theory \<open>Runtime\<close>).
\<close>

definition close_acceptor :: "(path \<Rightarrow> filesystem \<Rightarrow> filesystem) \<Rightarrow> 'cb server \<Rightarrow> 'cb server" where
  "close_acceptor rem s =
     (let s = (case acceptor s of
                 None \<Rightarrow> s
               | Some a \<Rightarrow>
                   s\<lparr>accepts := filter (\<lambda>(a', _). a' \<noteq> a) (accepts s),
                     sv_io := sv_io s @ map (\<lambda>(_, t). St_accept_done t Operation_aborted no_credentials)
                                          (filter (\<lambda>(a', _). a' = a) (accepts s)),
                     acceptor := None\<rparr>)
      in case bound_path s of
           None \<Rightarrow> s
         | Some k \<Rightarrow>
             s\<lparr>sv_runtime := remove_socket_file_path_if_owned rem k (sv_self s) (sv_runtime s),
               bound_path := None\<rparr>)"

definition handle_bind_failed ::
    "(path \<Rightarrow> filesystem \<Rightarrow> filesystem) \<Rightarrow> error_code \<Rightarrow> token \<Rightarrow> 'cb server \<Rightarrow> 'cb server" where
  "handle_bind_failed rem ec t s = sv_notify t (Sn_bind_failed ec) (close_acceptor rem s)"

text \<open>
  What the operating system answers to \<^verbatim>\<open>open\<close>, \<^verbatim>\<open>bind\<close> and \<^verbatim>\<open>listen\<close>. Binding fails in any case when
  the file exists (\<open>Os_error 98\<close> stands for \<^verbatim>\<open>address_in_use\<close>).
\<close>

record bind_outcome =
  open_error :: error_code
  bind_error :: error_code
  listen_error :: error_code

definition server_bind ::
    "(path \<Rightarrow> error_code) \<Rightarrow> (path \<Rightarrow> filesystem \<Rightarrow> filesystem) \<Rightarrow> bind_outcome \<Rightarrow> token \<Rightarrow>
     'cb server \<Rightarrow> 'cb server" where
  "server_bind endpoint_error rem os t s =
     (if \<not> is_current t (sv_scope s) \<or> acceptor s \<noteq> None then s
      else
        let ec = endpoint_error (sv_path s)
        in if is_error ec then handle_bind_failed rem ec t s
           else
             let rt = remove_socket_file_path rem (sv_path s) (sv_runtime s);
                 resolved = make_socket_file_path_key (sv_path s) (runtime_fs rt);
                 a = sv_next_ref s;
                 s = s\<lparr>sv_runtime := rt, sv_next_ref := Suc a, acceptor := Some a\<rparr>
             in if is_error (open_error os) then handle_bind_failed rem (open_error os) t s
                else if is_error (bind_error os) then handle_bind_failed rem (bind_error os) t s
                else (case fs_bind (sv_self s) (sv_path s) (runtime_fs rt) of
                        None \<Rightarrow> handle_bind_failed rem (Os_error 98) t s
                      | Some fs \<Rightarrow>
                          let s = s\<lparr>bound_path := Some resolved,
                                    sv_runtime := set_socket_file_path_owner resolved (sv_self s)
                                                    (rt\<lparr>runtime_fs := fs\<rparr>)\<rparr>
                          in if is_error (listen_error os)
                             then handle_bind_failed rem (listen_error os) t s
                             else sv_continue (St_accept t) (sv_notify t Sn_bound s)))"

definition server_accept :: "token \<Rightarrow> 'cb server \<Rightarrow> 'cb server" where
  "server_accept t s =
     (if \<not> is_current t (sv_scope s) then s
      else (case acceptor s of
              None \<Rightarrow> s
            | Some a \<Rightarrow> s\<lparr>accepts := accepts s @ [(a, t)]\<rparr>))"

definition accept_handler ::
    "(path \<Rightarrow> filesystem \<Rightarrow> filesystem) \<Rightarrow> token \<Rightarrow> error_code \<Rightarrow> peer_credentials \<Rightarrow>
     'cb server \<Rightarrow> 'cb server" where
  "accept_handler rem t ec credentials s =
     (if \<not> is_current t (sv_scope s) then s
      else if is_error ec
      then (if ec \<noteq> Operation_aborted then sv_notify t Sn_closed (close_acceptor rem s) else s)
      else sv_continue (St_accepted credentials t) s)"

text \<open>\<^verbatim>\<open>peers_.emplace\<close> does nothing when the id is taken.\<close>

definition emplace_peer :: "peer_id \<Rightarrow> conn_ref \<Rightarrow> (peer_id \<times> conn_ref) list \<Rightarrow> (peer_id \<times> conn_ref) list" where
  "emplace_peer pid p ps = (if pid \<in> map_keys ps then ps else ps @ [(pid, p)])"

definition handle_accepted_socket :: "peer_credentials \<Rightarrow> token \<Rightarrow> 'cb server \<Rightarrow> 'cb server" where
  "handle_accepted_socket credentials t s =
     (if \<not> is_current t (sv_scope s) then s
      else
        let pid = next_peer_id s + 1;
            p = sv_next_ref s;
            s = s\<lparr>next_peer_id := pid, sv_next_ref := Suc p, peers := emplace_peer pid p (peers s),
                  peer_info := (peer_info s)(p \<mapsto> (pid, t, credentials)),
                  sv_live := insert p (sv_live s), sv_unready := insert p (sv_unready s),
                  sv_accepted := Suc (sv_accepted s)\<rparr>
        in sv_continue (St_accept t) (sv_call p Call_start s))"

section \<open>On the I/O thread: peers and requests\<close>

definition close_peer :: "peer_id \<Rightarrow> 'cb server \<Rightarrow> 'cb server" where
  "close_peer pid s =
     (case map_of (peers s) pid of
        None \<Rightarrow> s
      | Some p \<Rightarrow>
          let s = sv_with_requests (rm_complete_peer pid Operation_aborted (sv_requests s)) s;
              s = sv_post (St_peer_close_done pid) (sv_call p Call_close s)
          in s\<lparr>peers := remove_key pid (peers s)\<rparr>)"

definition close_all_peers :: "'cb server \<Rightarrow> 'cb server" where
  "close_all_peers s =
     (let s = sv_with_requests (rm_complete_all Operation_aborted (sv_requests s)) s
      in s\<lparr>sv_calls := sv_calls s @ map (\<lambda>(_, p). (p, Call_close)) (peers s), peers := []\<rparr>)"

definition server_send_request :: "peer_id \<Rightarrow> conn_ref \<Rightarrow> bytes \<Rightarrow> 'cb \<Rightarrow> 'cb server \<Rightarrow> 'cb server" where
  "server_send_request pid p data callback s =
     (case rm_add (Some pid) callback (Some pid) (sv_requests s) of
        (rid, rm) \<Rightarrow>
          sv_call p (Call_send_request rid data)
            (s\<lparr>sv_requests := rm, sv_requested := Suc (sv_requested s)\<rparr>))"

definition request_task :: "peer_id \<Rightarrow> bytes \<Rightarrow> 'cb \<Rightarrow> 'cb server \<Rightarrow> 'cb server" where
  "request_task pid data callback s =
     (case map_of (peers s) pid of
        Some p \<Rightarrow> server_send_request pid p data callback s
      | None \<Rightarrow> sv_enqueue (Sf_callback callback Not_connected None) s)"

text \<open>The timeout callback that \<open>send_request\<close> gives the request manager.\<close>

definition server_request_timed_out :: "peer_id \<Rightarrow> 'cb server \<Rightarrow> 'cb server" where
  "server_request_timed_out pid s =
     (if invalidate_connection_on_request_error (common_params (sv_opts s)) then close_peer pid s else s)"

definition server_request_timer :: "'cb server \<Rightarrow> 'cb server" where
  "server_request_timer s =
     (case run_expired (sv_requests s) of
        (rm, out, tc) \<Rightarrow>
          let s = sv_with_requests (rm, out) s
          in case tc of None \<Rightarrow> s | Some pid \<Rightarrow> server_request_timed_out pid s)"

definition to_server_peer :: "peer_id \<Rightarrow> server_call \<Rightarrow> 'cb server \<Rightarrow> 'cb server" where
  "to_server_peer pid c s = (case map_of (peers s) pid of None \<Rightarrow> s | Some p \<Rightarrow> sv_call p c s)"

text \<open>The functions that the slots of an accepted peer post.\<close>

definition response_received_task :: "peer_id \<Rightarrow> conn_ref \<Rightarrow> request_id \<Rightarrow> bytes \<Rightarrow> 'cb server \<Rightarrow> 'cb server" where
  "response_received_task pid p rid data s =
     (if map_of (peers s) pid = Some p
      then sv_with_requests (rm_complete_of_peer pid rid No_error (Some data) (sv_requests s)) s
      else s)"

definition error_occurred_task :: "peer_id \<Rightarrow> error_code \<Rightarrow> 'cb server \<Rightarrow> 'cb server" where
  "error_occurred_task pid ec s = sv_with_requests (rm_complete_peer pid ec (sv_requests s)) s"

definition peer_closed_task :: "peer_id \<Rightarrow> 'cb server \<Rightarrow> 'cb server" where
  "peer_closed_task pid s =
     (let s = sv_with_requests (rm_complete_peer pid Connection_reset (sv_requests s)) s
      in s\<lparr>peers := remove_key pid (peers s)\<rparr>)"

section \<open>On the I/O thread: the health check\<close>

definition cancel_probe_timer :: "probe_ref \<Rightarrow> 'cb server \<Rightarrow> 'cb server" where
  "cancel_probe_timer tm s =
     s\<lparr>probe_waits := filter (\<lambda>(tm', _). tm' \<noteq> tm) (probe_waits s),
       sv_io := sv_io s @ map (\<lambda>(_, t). St_probe_timer tm t Operation_aborted)
                            (filter (\<lambda>(tm', _). tm' = tm) (probe_waits s))\<rparr>"

definition close_probe_socket :: "probe_ref \<Rightarrow> 'cb server \<Rightarrow> 'cb server" where
  "close_probe_socket tm s =
     s\<lparr>probe_connects := filter (\<lambda>(tm', _). tm' \<noteq> tm) (probe_connects s),
       sv_io := sv_io s @ map (\<lambda>(_, t). St_probe_connected tm t Operation_aborted)
                            (filter (\<lambda>(tm', _). tm' = tm) (probe_connects s))\<rparr>"

definition close_health_check_peer :: "'cb server \<Rightarrow> 'cb server" where
  "close_health_check_peer s =
     (let s = (case health_timeout s of
                 None \<Rightarrow> s
               | Some tm \<Rightarrow> (cancel_probe_timer tm s)\<lparr>health_timeout := None\<rparr>)
      in case health_peer s of
           None \<Rightarrow> s
         | Some p \<Rightarrow> (sv_call p Call_close s)\<lparr>health_peer := None\<rparr>)"

definition is_current_health_check :: "token \<Rightarrow> probe_ref \<Rightarrow> 'cb server \<Rightarrow> bool" where
  "is_current_health_check t tm s \<longleftrightarrow> is_current t (sv_scope s) \<and> health_timeout s = Some tm"

definition handle_health_check_failed ::
    "(path \<Rightarrow> filesystem \<Rightarrow> filesystem) \<Rightarrow> error_code \<Rightarrow> token \<Rightarrow> probe_ref \<Rightarrow> 'cb server \<Rightarrow> 'cb server" where
  "handle_health_check_failed rem ec t tm s =
     (if \<not> is_current_health_check t tm s then s
      else sv_notify t Sn_closed (close_acceptor rem (close_health_check_peer s)))"

definition health_check_task :: "(path \<Rightarrow> error_code) \<Rightarrow> token \<Rightarrow> 'cb server \<Rightarrow> 'cb server" where
  "health_check_task endpoint_error t s =
     (if \<not> is_current t (sv_scope s) \<or> acceptor s = None \<or> health_timeout s \<noteq> None then s
      else
        let tm = sv_next_ref s;
            s = s\<lparr>sv_next_ref := Suc tm, health_timeout := Some tm\<rparr>;
            ec = endpoint_error (sv_path s)
        in if is_error ec then sv_continue (St_probe_failing tm t ec) s
           else s\<lparr>probe_waits := probe_waits s @ [(tm, t)],
                  probe_connects := probe_connects s @ [(tm, t)]\<rparr>)"

definition probe_timer_handler :: "probe_ref \<Rightarrow> token \<Rightarrow> error_code \<Rightarrow> 'cb server \<Rightarrow> 'cb server" where
  "probe_timer_handler tm t ec s =
     (let s = close_probe_socket tm s
      in if \<not> is_error ec then sv_continue (St_probe_failing tm t Timed_out) s else s)"

definition probe_connect_handler :: "probe_ref \<Rightarrow> token \<Rightarrow> error_code \<Rightarrow> 'cb server \<Rightarrow> 'cb server" where
  "probe_connect_handler tm t ec s =
     (if \<not> is_current_health_check t tm s then close_probe_socket tm (cancel_probe_timer tm s)
      else if is_error ec then sv_continue (St_probe_failing tm t ec) (cancel_probe_timer tm s)
      else
        let p = sv_next_ref s;
            s = s\<lparr>sv_next_ref := Suc p, health_peer := Some p,
                  probe_info := (probe_info s)(p \<mapsto> (tm, t)),
                  sv_live := insert p (sv_live s), sv_unready := insert p (sv_unready s)\<rparr>
        in sv_call p Call_send_health_check (sv_call p Call_start s))"

definition probe_response_task :: "probe_ref \<Rightarrow> token \<Rightarrow> 'cb server \<Rightarrow> 'cb server" where
  "probe_response_task tm t s =
     (if is_current_health_check t tm s then close_health_check_peer s else s)"

section \<open>On the I/O thread: stop, shutdown, and all tasks\<close>

definition stop_task :: "(path \<Rightarrow> filesystem \<Rightarrow> filesystem) \<Rightarrow> 'cb server \<Rightarrow> 'cb server" where
  "stop_task rem s = close_health_check_peer (close_all_peers (close_acceptor rem s))"

definition shutdown_task :: "(path \<Rightarrow> filesystem \<Rightarrow> filesystem) \<Rightarrow> 'cb server \<Rightarrow> 'cb server" where
  "shutdown_task rem s =
     (let s = close_acceptor rem s;
          s = s\<lparr>sv_silenced := sv_silenced s \<union> snd ` set (peers s)\<rparr>;
          s = close_all_peers s;
          s = (case health_peer s of
                 None \<Rightarrow> s | Some p \<Rightarrow> s\<lparr>sv_silenced := insert p (sv_silenced s)\<rparr>)
      in sv_post St_nothing (close_health_check_peer s))"

fun run_task ::
    "(path \<Rightarrow> error_code) \<Rightarrow> (path \<Rightarrow> filesystem \<Rightarrow> filesystem) \<Rightarrow> bind_outcome \<Rightarrow> 'cb server_task \<Rightarrow>
     'cb server \<Rightarrow> 'cb server" where
  "run_task ep rem os (St_bind t) s = server_bind ep rem os t s"
| "run_task ep rem os (St_accept t) s = server_accept t s"
| "run_task ep rem os (St_accept_done t ec credentials) s = accept_handler rem t ec credentials s"
| "run_task ep rem os (St_accepted credentials t) s = handle_accepted_socket credentials t s"
| "run_task ep rem os St_stop s = stop_task rem s"
| "run_task ep rem os St_shutdown s = shutdown_task rem s"
| "run_task ep rem os St_nothing s = s"
| "run_task ep rem os (St_send pid data) s = to_server_peer pid (Call_send data) s"
| "run_task ep rem os (St_respond pid rid data) s = to_server_peer pid (Call_send_response rid data) s"
| "run_task ep rem os (St_request pid data cb) s = request_task pid data cb s"
| "run_task ep rem os (St_close_peer pid) s = close_peer pid s"
| "run_task ep rem os (St_peer_close_done pid) s = sv_enqueue (Sf_peer_closed pid) s"
| "run_task ep rem os (St_response_received pid p rid data) s = response_received_task pid p rid data s"
| "run_task ep rem os (St_error_occurred pid ec) s = error_occurred_task pid ec s"
| "run_task ep rem os (St_peer_closed pid) s = peer_closed_task pid s"
| "run_task ep rem os (St_health_check t) s = health_check_task ep t s"
| "run_task ep rem os (St_probe_timer tm t ec) s = probe_timer_handler tm t ec s"
| "run_task ep rem os (St_probe_connected tm t ec) s = probe_connect_handler tm t ec s"
| "run_task ep rem os (St_probe_response tm t) s = probe_response_task tm t s"
| "run_task ep rem os (St_probe_failed tm t ec) s = handle_health_check_failed rem ec t tm s"
| "run_task ep rem os (St_probe_failing tm t ec) s = handle_health_check_failed rem ec t tm s"

section \<open>On the dispatcher thread\<close>

text \<open>
  The last part of \<^verbatim>\<open>schedule_bind_retry\<close>, after it has stopped the timer (its own action).
\<close>

definition schedule_bind_retry :: "int option \<Rightarrow> 'cb server \<Rightarrow> 'cb server" where
  "schedule_bind_retry time_source s =
     (if \<not> scope_running (sv_scope s) then s
      else s\<lparr>sv_disp := snd (debounce_after Sf_retry (sv_oid s) ()
               (normalize_scheduling_interval (bind_retry_interval (server_params (sv_opts s))))
               time_source (sv_disp s))\<rparr>)"

definition stop_health_check_timer :: "'cb server \<Rightarrow> 'cb server" where
  "stop_health_check_timer s =
     (case timer_stop Sf_timer (sv_oid s) (health_timer s, sv_disp s) of
        (tm, d) \<Rightarrow> s\<lparr>health_timer := tm, sv_disp := d\<rparr>)"

definition start_health_check_timer :: "'cb server \<Rightarrow> 'cb server" where
  "start_health_check_timer s =
     (if \<not> scope_running (sv_scope s) then s
      else (case timer_start Sf_timer (sv_oid s) ()
                   (normalize_scheduling_interval
                      (socket_path_health_check_interval (server_params (sv_opts s))))
                   (health_timer s, sv_disp s) of
              (tm, d) \<Rightarrow> s\<lparr>health_timer := tm, sv_disp := d\<rparr>))"

fun server_notification_actions :: "server_notification \<Rightarrow> 'cb server_action list" where
  "server_notification_actions Sn_bound = [Sa_signal Ss_bound, Sa_start_timer]"
| "server_notification_actions (Sn_bind_failed ec) =
     [Sa_signal (Ss_bind_failed ec), Sa_stop_timer, Sa_schedule_retry]"
| "server_notification_actions Sn_closed = [Sa_signal Ss_closed, Sa_stop_timer, Sa_schedule_retry]"
| "server_notification_actions (Sn_ready pid credentials) = [Sa_verify pid credentials]"

text \<open>
  The first part of a function (up to and including its reads of the exposed ids and its change
  of the scope, which only this thread changes) and the actions that remain.
\<close>

definition if_exposed :: "peer_id \<Rightarrow> server_signal \<Rightarrow> 'cb server \<Rightarrow> 'cb server" where
  "if_exposed pid sig s = (if pid \<in> exposed s then s\<lparr>sv_thread := [Sa_signal sig]\<rparr> else s)"

definition report_peer_closed :: "peer_id \<Rightarrow> 'cb server \<Rightarrow> 'cb server" where
  [simp]: "report_peer_closed pid s =
     (if pid \<in> exposed s
      then s\<lparr>exposed := exposed s - {pid}, sv_thread := [Sa_signal (Ss_peer_closed pid)]\<rparr> else s)"

fun begin_server_function :: "int option \<Rightarrow> 'cb server_function \<Rightarrow> 'cb server \<Rightarrow> 'cb server" where
  "begin_server_function now Sf_start s =
     s\<lparr>sv_scope := scope_start (sv_scope s), sv_thread := [Sa_bind]\<rparr>"
| "begin_server_function now Sf_stop s =
     s\<lparr>sv_scope := scope_stop (sv_scope s), sv_sessions := Suc (sv_sessions s),
       sv_thread := [Sa_cancel_retry, Sa_stop_timer, Sa_clear_exposed, Sa_post_stop]\<rparr>"
| "begin_server_function now (Sf_scoped t n) s =
     (case run_scoped t n (sv_scope s) of
        None \<Rightarrow> s | Some n \<Rightarrow> s\<lparr>sv_thread := server_notification_actions n\<rparr>)"
| "begin_server_function now (Sf_received pid data) s = if_exposed pid (Ss_received pid data) s"
| "begin_server_function now (Sf_request_received pid rid data) s =
     if_exposed pid (Ss_request_received pid rid data) s"
| "begin_server_function now (Sf_error_occurred pid ec) s =
     if_exposed pid (Ss_peer_error_occurred pid ec) s"
| "begin_server_function now (Sf_peer_closed pid) s =
     report_peer_closed pid s"
| "begin_server_function now (Sf_retry f) s =
     (case run_debounced Sf_retry (sv_oid s) f (bind_retry_task s, sv_disp s) of
        ((dt, d), call) \<Rightarrow>
          s\<lparr>bind_retry_task := dt, sv_disp := d,
            sv_thread := (if call \<noteq> None \<and> scope_running (sv_scope s) then [Sa_bind] else [])\<rparr>)"
| "begin_server_function now (Sf_timer f) s =
     (case run_timer Sf_timer (sv_oid s) now f (health_timer s, sv_disp s) of
        ((tm, d), call) \<Rightarrow>
          s\<lparr>health_timer := tm, sv_disp := d,
            sv_thread := (if call \<noteq> None then [Sa_health_check] else [])\<rparr>)"
| "begin_server_function now (Sf_callback cb ec data) s = s\<lparr>sv_thread := [Sa_callback cb ec data]\<rparr>"

text \<open>What a ready peer's notification does: expose it, or close it.\<close>

definition verify_ready_peer ::
    "(peer_credentials \<Rightarrow> bool) \<Rightarrow> peer_id \<Rightarrow> peer_credentials \<Rightarrow> 'cb server \<Rightarrow> 'cb server" where
  [simp]: "verify_ready_peer verify pid credentials s =
     (if verify credentials
      then s\<lparr>exposed := insert pid (exposed s),
             sv_thread := Sa_signal (Ss_peer_connected pid credentials) # sv_thread s\<rparr>
      else sv_post (St_close_peer pid) s)"

fun run_server_action ::
    "(peer_credentials \<Rightarrow> bool) \<Rightarrow> int option \<Rightarrow> 'cb server_action \<Rightarrow> 'cb server \<Rightarrow> 'cb server" where
  "run_server_action verify now Sa_bind s = sv_post (St_bind (capture (sv_scope s))) s"
| "run_server_action verify now Sa_cancel_retry s =
     s\<lparr>sv_disp := debounce_cancel Sf_retry (sv_oid s) (sv_disp s)\<rparr>"
| "run_server_action verify now Sa_stop_timer s = stop_health_check_timer s"
| "run_server_action verify now Sa_clear_exposed s = s\<lparr>exposed := {}\<rparr>"
| "run_server_action verify now Sa_post_stop s = sv_post St_stop s"
| "run_server_action verify now Sa_schedule_retry s = schedule_bind_retry now s"
| "run_server_action verify now Sa_start_timer s = start_health_check_timer s"
| "run_server_action verify now Sa_health_check s =
     sv_post (St_health_check (capture (sv_scope s))) s"
| "run_server_action verify now (Sa_verify pid credentials) s =
     verify_ready_peer verify pid credentials s"
| "run_server_action verify now (Sa_signal sig) s =
     (if sv_slots s then s\<lparr>sv_log := sv_log s @ [sig]\<rparr> else s)"
| "run_server_action verify now (Sa_enqueue f) s = sv_enqueue f s"
| "run_server_action verify now (Sa_callback cb ec data) s =
     s\<lparr>sv_delivered := sv_delivered s @ [(cb, ec, data)]\<rparr>"

text \<open>The slots the server connected to the signals of an accepted peer, and of a probe.\<close>

fun accepted_peer_slot ::
    "conn_ref \<Rightarrow> peer_id \<Rightarrow> token \<Rightarrow> peer_credentials \<Rightarrow> peer_signal \<Rightarrow> 'cb server \<Rightarrow> 'cb server" where
  "accepted_peer_slot p pid t credentials Sig_ready s = sv_notify t (Sn_ready pid credentials) s"
| "accepted_peer_slot p pid t credentials (Sig_received data) s = sv_enqueue (Sf_received pid data) s"
| "accepted_peer_slot p pid t credentials (Sig_request_received rid data) s =
     sv_enqueue (Sf_request_received pid rid data) s"
| "accepted_peer_slot p pid t credentials (Sig_response_received rid data) s =
     sv_post (St_response_received pid p rid data) s"
| "accepted_peer_slot p pid t credentials (Sig_error_occurred ec) s =
     (sv_post (St_error_occurred pid ec) s)\<lparr>sv_thread := [Sa_enqueue (Sf_error_occurred pid ec)]\<rparr>"
| "accepted_peer_slot p pid t credentials Sig_closed s =
     (sv_post (St_peer_closed pid) s)\<lparr>sv_thread := [Sa_enqueue (Sf_peer_closed pid)]\<rparr>"
| "accepted_peer_slot p pid t credentials Sig_health_check_response_received s = s"

fun probe_slot :: "probe_ref \<Rightarrow> token \<Rightarrow> peer_signal \<Rightarrow> 'cb server \<Rightarrow> 'cb server" where
  "probe_slot tm t Sig_health_check_response_received s =
     (if is_current t (sv_scope s) then sv_post (St_probe_response tm t) s else s)"
| "probe_slot tm t (Sig_error_occurred ec) s =
     (if is_current t (sv_scope s) then sv_post (St_probe_failed tm t ec) s else s)"
| "probe_slot tm t Sig_closed s =
     (if is_current t (sv_scope s) then sv_post (St_probe_failed tm t Eof) s else s)"
| "probe_slot tm t _ s = s"

definition server_peer_slot :: "conn_ref \<Rightarrow> peer_signal \<Rightarrow> 'cb server \<Rightarrow> 'cb server" where
  "server_peer_slot p sig s =
     (if p \<in> sv_silenced s then s
      else (case peer_info s p of
              Some (pid, t, credentials) \<Rightarrow> accepted_peer_slot p pid t credentials sig s
            | None \<Rightarrow>
                (case probe_info s p of Some (tm, t) \<Rightarrow> probe_slot tm t sig s | None \<Rightarrow> s)))"

section \<open>Public operations\<close>

definition server_async_start :: "'cb server \<Rightarrow> 'cb server" where
  "server_async_start s = sv_enqueue Sf_start s"

definition server_async_stop :: "'cb server \<Rightarrow> 'cb server" where
  "server_async_stop s = sv_enqueue Sf_stop s"

definition server_async_send :: "peer_id \<Rightarrow> bytes \<Rightarrow> 'cb server \<Rightarrow> 'cb server" where
  "server_async_send pid data s = sv_post (St_send pid data) s"

definition server_async_respond :: "peer_id \<Rightarrow> request_id \<Rightarrow> bytes \<Rightarrow> 'cb server \<Rightarrow> 'cb server" where
  "server_async_respond pid rid data s = sv_post (St_respond pid rid data) s"

definition server_async_request :: "peer_id \<Rightarrow> bytes \<Rightarrow> 'cb \<Rightarrow> 'cb server \<Rightarrow> 'cb server" where
  "server_async_request pid data cb s = sv_post (St_request pid data cb) s"

definition server_async_close_peer :: "peer_id \<Rightarrow> 'cb server \<Rightarrow> 'cb server" where
  "server_async_close_peer pid s = sv_post (St_close_peer pid) s"

text \<open>
  \<^verbatim>\<open>async_shutdown\<close>: detach, which drops the queued functions, and clean up on the dispatcher
  thread; then close everything on the I/O thread. As for the client, the cleanup is lost when
  the dispatcher is gone or terminated, unless the caller runs on its thread. What the cleanup
  enqueues is refused, since the server is detached.
\<close>

definition server_cleanup :: "'cb server \<Rightarrow> 'cb server" where
  "server_cleanup s =
     (let s = s\<lparr>sv_scope := scope_stop (sv_scope s), sv_sessions := Suc (sv_sessions s)\<rparr>;
          s = s\<lparr>sv_disp := debounce_cancel Sf_retry (sv_oid s) (sv_disp s)\<rparr>;
          s = stop_health_check_timer s
      in s\<lparr>exposed := {}, sv_slots := False\<rparr>)"

definition server_detach :: "bool \<Rightarrow> 'cb server \<Rightarrow> 'cb server" where
  "server_detach on_dispatcher_thread s =
     (case sv_disp s of
        None \<Rightarrow> s
      | Some d \<Rightarrow>
          (case detach (sv_oid s) d of
             (False, _) \<Rightarrow> s
           | (True, d) \<Rightarrow>
               let s = s\<lparr>sv_disp := Some d\<rparr>
               in if on_dispatcher_thread \<or> \<not> exit_flag d then server_cleanup s else s))"

definition server_async_shutdown :: "bool \<Rightarrow> 'cb server \<Rightarrow> 'cb server" where
  "server_async_shutdown on_dispatcher_thread s =
     (if sv_shutdown_started s then s
      else sv_post St_shutdown (server_detach on_dispatcher_thread (s\<lparr>sv_shutdown_started := True\<rparr>)))"

section \<open>The server in its environment\<close>

text \<open>
  The running function is in the user's code, or no function runs. A shutdown comes from that code,
  on the dispatcher thread, or from another thread, where it waits for the running function to
  end; the model detaches when that wait is over. So do the dispatcher's \<^verbatim>\<open>terminate\<close> and destructor
  wait for its worker. \<open>user_code\<close> names the rests after a signal, and the call of the verifier.
\<close>

fun user_code :: "'cb server_action list \<Rightarrow> bool" where
  "user_code [] = True"
| "user_code [Sa_start_timer] = True"
| "user_code [Sa_stop_timer, Sa_schedule_retry] = True"
| "user_code [Sa_verify _ _] = True"
| "user_code _ = False"

definition in_task :: "'cb server \<Rightarrow> bool" where
  "in_task s \<longleftrightarrow> (\<exists>u us. sv_io s = u # us \<and> continuation u)"

text \<open>
  Any thread calls the public operations. The worker takes functions and runs their actions; the
  executor runs its tasks; accepts, connects, probe timers and request timers end; peers announce
  and their slots run; a peer that the server holds no more may be destroyed, and its queued
  signals with it; other programs and servers change the file system and the runtime.
\<close>

inductive server_step ::
    "(peer_credentials \<Rightarrow> bool) \<Rightarrow> (path \<Rightarrow> error_code) \<Rightarrow> (path \<Rightarrow> filesystem \<Rightarrow> filesystem) \<Rightarrow>
     'cb server \<Rightarrow> 'cb server \<Rightarrow> bool"
  for verify :: "peer_credentials \<Rightarrow> bool" and ep :: "path \<Rightarrow> error_code"
    and rem :: "path \<Rightarrow> filesystem \<Rightarrow> filesystem" where
  sv_start: "server_step verify ep rem s (server_async_start s)"
| sv_stop: "server_step verify ep rem s (server_async_stop s)"
| sv_send: "server_step verify ep rem s (server_async_send pid data s)"
| sv_respond: "server_step verify ep rem s (server_async_respond pid rid data s)"
| sv_request: "server_step verify ep rem s (server_async_request pid data cb s)"
| sv_close_peer: "server_step verify ep rem s (server_async_close_peer pid s)"
| sv_shutdown: "user_code (sv_thread s) \<Longrightarrow> (sv_thread s \<noteq> [] \<Longrightarrow> on_thread) \<Longrightarrow> server_step verify ep rem s (server_async_shutdown on_thread s)"
| sv_take: "sv_thread s = [] \<Longrightarrow> sv_disp s = Some d \<Longrightarrow> worker_iteration now d = (Run e, d') \<Longrightarrow>
    object_id_value e = sv_oid s \<Longrightarrow> clock_ok now \<Longrightarrow> clock_ok clock \<Longrightarrow>
    server_step verify ep rem s
      (case call_function e d' of
         None \<Rightarrow> s\<lparr>sv_disp := Some d'\<rparr>
       | Some f \<Rightarrow> begin_server_function clock f (s\<lparr>sv_disp := Some d'\<rparr>))"
| sv_action: "sv_thread s = a # as \<Longrightarrow> clock_ok clock \<Longrightarrow>
    server_step verify ep rem s (run_server_action verify clock a (s\<lparr>sv_thread := as\<rparr>))"
| sv_run: "sv_io s = u # us \<Longrightarrow> server_step verify ep rem s (run_task ep rem os u (s\<lparr>sv_io := us\<rparr>))"
| sv_accept_done: "accepts s = xs @ (a, t) # ys \<Longrightarrow> ec \<noteq> Operation_aborted \<Longrightarrow>
    server_step verify ep rem s
      (sv_post (St_accept_done t ec credentials) (s\<lparr>accepts := xs @ ys\<rparr>))"
| sv_probe_expires: "probe_waits s = xs @ (tm, t) # ys \<Longrightarrow>
    server_step verify ep rem s
      (sv_post (St_probe_timer tm t No_error) (s\<lparr>probe_waits := xs @ ys\<rparr>))"
| sv_probe_connect_done: "probe_connects s = xs @ (tm, t) # ys \<Longrightarrow> ec \<noteq> Operation_aborted \<Longrightarrow>
    server_step verify ep rem s
      (sv_post (St_probe_connected tm t ec) (s\<lparr>probe_connects := xs @ ys\<rparr>))"
| sv_request_expires:
    "server_step verify ep rem s (s\<lparr>sv_requests := timer_expires rid (sv_requests s)\<rparr>)"
| sv_request_timer: "\<not> in_task s \<Longrightarrow> server_step verify ep rem s (server_request_timer s)"
| sv_peer_announces: "peer_info s p \<noteq> None \<or> probe_info s p \<noteq> None \<Longrightarrow>
    (sig = Sig_closed \<Longrightarrow> p \<in> sv_live s) \<Longrightarrow> (sig = Sig_ready \<Longrightarrow> p \<in> sv_unready s) \<Longrightarrow>
    server_step verify ep rem s
      (s\<lparr>sv_signals := sv_signals s @ [(p, sig)],
         sv_live := (if sig = Sig_closed then sv_live s - {p} else sv_live s),
         sv_unready := (if sig = Sig_ready then sv_unready s - {p} else sv_unready s)\<rparr>)"
| sv_peer_slot: "sv_thread s = [] \<Longrightarrow> sv_signals s = xs @ (p, sig) # ys \<Longrightarrow> p \<notin> fst ` set xs \<Longrightarrow>
    server_step verify ep rem s (server_peer_slot p sig (s\<lparr>sv_signals := xs @ ys\<rparr>))"
| sv_peer_gone: "p \<notin> snd ` set (peers s) \<Longrightarrow> health_peer s \<noteq> Some p \<Longrightarrow>
    server_step verify ep rem s
      (s\<lparr>sv_signals := filter (\<lambda>(q, _). q \<noteq> p) (sv_signals s), sv_live := sv_live s - {p},
         sv_unready := sv_unready s - {p}\<rparr>)"
| sv_runtime_changes: "server_step verify ep rem s (s\<lparr>sv_runtime := rt\<rparr>)"
| sv_other: "sv_disp s = Some d \<Longrightarrow> other_objects (sv_oid s) d d' \<Longrightarrow>
    server_step verify ep rem s (s\<lparr>sv_disp := Some d'\<rparr>)"
| sv_dispatcher_gone: "sv_thread s = [] \<Longrightarrow> server_step verify ep rem s (s\<lparr>sv_disp := None\<rparr>)"

definition server_initial :: "'cb server \<Rightarrow> bool" where
  "server_initial s \<longleftrightarrow>
     (\<exists>p options self oid d rt. s = new_server p options self oid d rt \<and> dispatcher_inv d \<and>
        oid \<notin> object_ids d)"

end
