(* ===== verification/Server_Steps.thy ===== *)
theory Server_Steps
  imports Server
begin

text \<open>
  The operations of the server as updates of its state, and what they enqueue: the facts that the
  server's invariants share.
\<close>

section \<open>Normal forms\<close>

text \<open>
  With these equations an operation is one record update, and the simplifier reads every
  member of its result.
\<close>

definition aborted_accepts :: "'cb server \<Rightarrow> 'cb server_task list" where
  "aborted_accepts s =
     (case acceptor s of
        None \<Rightarrow> []
      | Some a \<Rightarrow> map (\<lambda>(_, t). St_accept_done t Operation_aborted no_credentials)
                   (filter (\<lambda>(a', _). a' = a) (accepts s)))"

definition aborted_waits :: "'cb server \<Rightarrow> 'cb server_task list" where
  "aborted_waits s =
     (case health_timeout s of
        None \<Rightarrow> []
      | Some tm \<Rightarrow> map (\<lambda>(_, t). St_probe_timer tm t Operation_aborted)
                    (filter (\<lambda>(tm', _). tm' = tm) (probe_waits s)))"

lemma server_update_same [simp]:
  "s\<lparr>acceptor := acceptor s\<rparr> = s" "s\<lparr>bound_path := bound_path s\<rparr> = s"
  "s\<lparr>health_timeout := health_timeout s\<rparr> = s" "s\<lparr>health_peer := health_peer s\<rparr> = s"
  "s\<lparr>sv_io := sv_io s\<rparr> = s" "s\<lparr>sv_thread := sv_thread s\<rparr> = s" "s\<lparr>sv_disp := sv_disp s\<rparr> = s"
  by (cases s; simp)+

lemma close_acceptor_eq:
  "close_acceptor rem s =
     s\<lparr>acceptor := None, bound_path := None,
       accepts := (case acceptor s of None \<Rightarrow> accepts s | Some a \<Rightarrow> filter (\<lambda>(a', _). a' \<noteq> a) (accepts s)),
       sv_io := sv_io s @ aborted_accepts s,
       sv_runtime := (case bound_path s of
          None \<Rightarrow> sv_runtime s
        | Some k \<Rightarrow> remove_socket_file_path_if_owned rem k (sv_self s) (sv_runtime s))\<rparr>"
  by (cases s) (simp add: close_acceptor_def aborted_accepts_def Let_def split: option.split)

lemma close_health_check_peer_eq:
  "close_health_check_peer s =
     s\<lparr>health_timeout := None, health_peer := None,
       probe_waits := (case health_timeout s of
          None \<Rightarrow> probe_waits s | Some tm \<Rightarrow> filter (\<lambda>(tm', _). tm' \<noteq> tm) (probe_waits s)),
       sv_io := sv_io s @ aborted_waits s,
       sv_calls := sv_calls s @ (case health_peer s of None \<Rightarrow> [] | Some p \<Rightarrow> [(p, Call_close)])\<rparr>"
  by (cases s)
     (simp add: close_health_check_peer_def cancel_probe_timer_def sv_call_def aborted_waits_def Let_def
       split: option.split)

lemmas sv_ops = sv_enqueue_def sv_notify_def scope_enqueue_def sv_post_def sv_continue_def sv_call_def
  sv_with_requests_def Let_def

lemma close_peer_eq:
  "close_peer pid s =
     (if pid \<in> map_keys (peers s)
      then s\<lparr>sv_requests := fst (rm_complete_peer pid Operation_aborted (sv_requests s)),
             sv_disp := enqueue_callbacks (sv_oid s)
               (snd (rm_complete_peer pid Operation_aborted (sv_requests s))) (sv_disp s),
             sv_calls := sv_calls s @ [(the (map_of (peers s) pid), Call_close)],
             sv_io := sv_io s @ [St_peer_close_done pid],
             peers := remove_key pid (peers s)\<rparr>
      else s)"
proof (cases "map_of (peers s) pid")
  case None
  then have "pid \<notin> map_keys (peers s)" by (simp add: map_of_None_keys)
  with None show ?thesis by (simp add: close_peer_def)
next
  case (Some p)
  then show ?thesis by (simp add: close_peer_def sv_ops map_of_Some_keys)
qed

lemma server_send_request_eq:
  "server_send_request pid p data cb s =
     (let r = rm_add (Some pid) cb (Some pid) (sv_requests s)
      in s\<lparr>sv_requests := snd r, sv_requested := Suc (sv_requested s),
           sv_calls := sv_calls s @ [(p, Call_send_request (fst r) data)]\<rparr>)"
  by (simp add: server_send_request_def split_beta sv_call_def Let_def)

lemmas sv_closings = close_acceptor_eq close_health_check_peer_eq close_peer_eq close_all_peers_def

lemmas sv_bodies = sv_ops sv_closings handle_bind_failed_def server_accept_def accept_handler_def
  server_send_request_eq request_task_def to_server_peer_def response_received_task_def
  error_occurred_task_def peer_closed_task_def cancel_probe_timer_def close_probe_socket_def
  handle_health_check_failed_def health_check_task_def probe_timer_handler_def
  probe_connect_handler_def probe_response_task_def stop_task_def shutdown_task_def

text \<open>The cases of a bind: nothing to do, a failure, and success.\<close>

lemma server_bind_cases:
  obtains "server_bind ep rem os t s = s" "\<not> is_current t (sv_scope s) \<or> acceptor s \<noteq> None"
  | v ec where "server_bind ep rem os t s = handle_bind_failed rem ec t v" "is_current t (sv_scope s)"
      "acceptor s = None"
      "\<exists>n a b rt. v = s\<lparr>sv_next_ref := sv_next_ref s + n, acceptor := a, bound_path := b, sv_runtime := rt\<rparr> \<and>
         (b = bound_path s \<or> a \<noteq> None) \<and> (\<forall>r. a = Some r \<longrightarrow> r = sv_next_ref s)"
  | k rt where "server_bind ep rem os t s =
        sv_continue (St_accept t) (sv_notify t Sn_bound
          (s\<lparr>sv_next_ref := Suc (sv_next_ref s), acceptor := Some (sv_next_ref s), bound_path := Some k,
             sv_runtime := rt\<rparr>))"
      "is_current t (sv_scope s)" "acceptor s = None"
proof (cases "is_current t (sv_scope s) \<and> acceptor s = None")
  case False
  then have "server_bind ep rem os t s = s" by (simp add: server_bind_def)
  with False show ?thesis using that(1) by blast
next
  case current: True
  let ?rt = "remove_socket_file_path rem (sv_path s) (sv_runtime s)"
  let ?k = "make_socket_file_path_key (sv_path s) (runtime_fs ?rt)"
  let ?v = "s\<lparr>sv_runtime := ?rt, sv_next_ref := Suc (sv_next_ref s), acceptor := Some (sv_next_ref s)\<rparr>"
  let ?w = "\<lambda>fs. ?v\<lparr>bound_path := Some ?k,
    sv_runtime := set_socket_file_path_owner ?k (sv_self s) (?rt\<lparr>runtime_fs := fs\<rparr>)\<rparr>"
  have s: "\<exists>n a b rt. s = s\<lparr>sv_next_ref := sv_next_ref s + n, acceptor := a, bound_path := b, sv_runtime := rt\<rparr> \<and>
      (b = bound_path s \<or> a \<noteq> None) \<and> (\<forall>r. a = Some r \<longrightarrow> r = sv_next_ref s)"
    using current by (intro exI [of _ 0] exI [of _ None] exI [of _ "bound_path s"] exI [of _ "sv_runtime s"])
      (cases s; simp)
  have v: "\<exists>n a b rt. ?v = s\<lparr>sv_next_ref := sv_next_ref s + n, acceptor := a, bound_path := b, sv_runtime := rt\<rparr> \<and>
      (b = bound_path s \<or> a \<noteq> None) \<and> (\<forall>r. a = Some r \<longrightarrow> r = sv_next_ref s)"
    by (intro exI [of _ 1] exI [of _ "Some (sv_next_ref s)"] exI [of _ "bound_path s"] exI [of _ ?rt]) simp
  have w: "\<exists>n a b rt. ?w fs = s\<lparr>sv_next_ref := sv_next_ref s + n, acceptor := a, bound_path := b, sv_runtime := rt\<rparr> \<and>
      (b = bound_path s \<or> a \<noteq> None) \<and> (\<forall>r. a = Some r \<longrightarrow> r = sv_next_ref s)" for fs
    by (intro exI [of _ 1] exI [of _ "Some (sv_next_ref s)"] exI [of _ "Some ?k"]
        exI [of _ "set_socket_file_path_owner ?k (sv_self s) (?rt\<lparr>runtime_fs := fs\<rparr>)"]) simp
  note fails = that(2) [OF _ conjunct1 [OF current] conjunct2 [OF current]]
  consider (ep) "is_error (ep (sv_path s))"
    | (op) "\<not> is_error (ep (sv_path s))" "is_error (open_error os)"
    | (bind) "\<not> is_error (ep (sv_path s))" "\<not> is_error (open_error os)" "is_error (bind_error os)"
    | (used) "\<not> is_error (ep (sv_path s))" "\<not> is_error (open_error os)" "\<not> is_error (bind_error os)"
        "fs_bind (sv_self s) (sv_path s) (runtime_fs ?rt) = None"
    | (listen) fs where "\<not> is_error (ep (sv_path s))" "\<not> is_error (open_error os)"
        "\<not> is_error (bind_error os)" "fs_bind (sv_self s) (sv_path s) (runtime_fs ?rt) = Some fs"
    by fastforce
  then show ?thesis
  proof cases
    case ep
    then show ?thesis using fails [OF _ s] current by (simp add: server_bind_def Let_def)
  next
    case op
    then show ?thesis using fails [OF _ v] current by (simp add: server_bind_def Let_def)
  next
    case bind
    then show ?thesis using fails [OF _ v] current by (simp add: server_bind_def Let_def)
  next
    case used
    then show ?thesis using fails [OF _ v] current by (simp add: server_bind_def Let_def)
  next
    case (listen fs)
    show ?thesis
    proof (cases "is_error (listen_error os)")
      case True
      then show ?thesis using fails [OF _ w] listen current by (simp add: server_bind_def Let_def)
    next
      case False
      have "?w fs = s\<lparr>sv_next_ref := Suc (sv_next_ref s), acceptor := Some (sv_next_ref s),
          bound_path := Some ?k,
          sv_runtime := set_socket_file_path_owner ?k (sv_self s) (?rt\<lparr>runtime_fs := fs\<rparr>)\<rparr>"
        by simp
      then have "server_bind ep rem os t s =
          sv_continue (St_accept t) (sv_notify t Sn_bound
            (s\<lparr>sv_next_ref := Suc (sv_next_ref s), acceptor := Some (sv_next_ref s),
               bound_path := Some ?k,
               sv_runtime := set_socket_file_path_owner ?k (sv_self s) (?rt\<lparr>runtime_fs := fs\<rparr>)\<rparr>))"
        using False listen current by (simp add: server_bind_def Let_def)
      then show ?thesis using current by (intro that(3)) simp_all
    qed
  qed
qed

section \<open>The server's queue\<close>

abbreviation sv_own :: "'cb server \<Rightarrow> 'cb server_function list" where
  "sv_own s \<equiv> owned (sv_oid s) (sv_disp s)"

abbreviation sv_serves :: "'cb server \<Rightarrow> bool" where
  "sv_serves s \<equiv> serves (sv_oid s) (sv_disp s)"

lemma serves_callbacks [simp]: "serves oid (enqueue_callbacks oid' out weak) = serves oid weak"
  by (induction oid' out weak rule: enqueue_callbacks.induct) simp_all

lemma not_served_callbacks [simp]: "\<not> serves oid weak \<Longrightarrow> enqueue_callbacks oid out weak = weak"
  by (induction oid out weak rule: enqueue_callbacks.induct) simp_all

lemma mset_owned_callbacks [simp]:
  "mset (owned oid (enqueue_callbacks oid out weak)) =
     mset (owned oid weak) +
     (if serves oid weak then image_mset (\<lambda>(cb, ec, data). Sf_callback cb ec data) (mset out) else {#})"
  by (induction oid out weak rule: enqueue_callbacks.induct) simp_all

lemma set_owned_callbacks [simp]:
  "set (owned oid (enqueue_callbacks oid out weak)) =
     set (owned oid weak) \<union>
     (if serves oid weak then (\<lambda>(cb, ec, data). Sf_callback cb ec data) ` set out else {})"
  using arg_cong [OF mset_owned_callbacks [of oid out weak], of set_mset]
  by (simp del: mset_owned_callbacks)

section \<open>Shutdown\<close>

text \<open>A server that is not attached any more: what its cleanup enqueues is refused.\<close>

lemma server_cleanup_eq:
  "\<not> sv_serves s \<Longrightarrow>
     server_cleanup s =
       s\<lparr>sv_scope := scope_stop (sv_scope s), sv_sessions := Suc (sv_sessions s),
         health_timer := (health_timer s)\<lparr>timer_enabled := False\<rparr>, exposed := {}, sv_slots := False\<rparr>"
  by (cases s) (simp add: server_cleanup_def Let_def debounce_cancel_def stop_health_check_timer_def timer_stop_def)

lemma shutdown_cases:
  obtains "sv_shutdown_started s" "server_async_shutdown b s = s"
  | "server_async_shutdown b s = sv_post St_shutdown (s\<lparr>sv_shutdown_started := True\<rparr>)"
      "\<not> sv_shutdown_started s" "\<not> sv_serves s"
  | d where "server_async_shutdown b s =
        sv_post St_shutdown (s\<lparr>sv_shutdown_started := True, sv_disp := Some d\<rparr>)"
      "\<not> sv_shutdown_started s" "owned (sv_oid s) (Some d) = []" "\<not> serves (sv_oid s) (Some d)"
      "\<And>C T. immediate_class C T (sv_oid s) (sv_disp s) \<Longrightarrow> immediate_class C T (sv_oid s) (Some d)"
  | d where "server_async_shutdown b s =
        sv_post St_shutdown (s\<lparr>sv_shutdown_started := True, sv_disp := Some d,
          sv_scope := scope_stop (sv_scope s), sv_sessions := Suc (sv_sessions s),
          health_timer := (health_timer s)\<lparr>timer_enabled := False\<rparr>, exposed := {}, sv_slots := False\<rparr>)"
      "\<not> sv_shutdown_started s" "owned (sv_oid s) (Some d) = []" "\<not> serves (sv_oid s) (Some d)"
      "\<And>C T. immediate_class C T (sv_oid s) (sv_disp s) \<Longrightarrow> immediate_class C T (sv_oid s) (Some d)"
proof (cases "sv_shutdown_started s")
  case True
  then show ?thesis using that(1) by (simp add: server_async_shutdown_def)
next
  case new: False
  show ?thesis
  proof (cases "sv_disp s")
    case None
    then show ?thesis using that(2) new by (simp add: server_async_shutdown_def server_detach_def)
  next
    case (Some d)
    obtain ok d' where detach: "detach (sv_oid s) d = (ok, d')" by fastforce
    show ?thesis
    proof (cases ok)
      case False
      then show ?thesis
        using that(2) new Some detach detach_fails [of "sv_oid s" d d']
        by (simp add: server_async_shutdown_def server_detach_def)
    next
      case True
      then have "detach (sv_oid s) d = (True, d')" using detach by simp
      note detached = detach_owned [OF this]
      show ?thesis
      proof (cases "b \<or> \<not> exit_flag d'")
        case True
        let ?v = "s\<lparr>sv_shutdown_started := True, sv_disp := Some d'\<rparr>"
        have "server_async_shutdown b s = sv_post St_shutdown (server_cleanup ?v)"
          using True \<open>ok\<close> new Some detach by (simp add: server_async_shutdown_def server_detach_def Let_def)
        then show ?thesis
          using that(4) [of d'] new detached server_cleanup_eq [of ?v] Some by simp
      next
        case False
        then show ?thesis
          using that(3) [of d'] new detached Some detach \<open>ok\<close>
          by (simp add: server_async_shutdown_def server_detach_def Let_def)
      qed
    qed
  qed
qed

end
