(* ===== verification/Server_Log.thy ===== *)
theory Server_Log
  imports Server_Steps
begin

text \<open>
  What the server reports about each peer: the signals about one peer id follow the automaton
  \<open>next_phase\<close> (connected, then messages and errors, then closed), and only peers that the user's
  verifier accepted are reported.
\<close>

section \<open>The reports about a peer\<close>

datatype peer_phase = Unseen | Connected | Disconnected | Misreported

fun next_phase :: "peer_id \<Rightarrow> peer_phase \<Rightarrow> server_signal \<Rightarrow> peer_phase" where
  "next_phase pid ph (Ss_peer_connected q _) =
     (if q \<noteq> pid then ph else if ph = Unseen then Connected else Misreported)"
| "next_phase pid ph (Ss_received q _) =
     (if q \<noteq> pid then ph else if ph = Connected then Connected else Misreported)"
| "next_phase pid ph (Ss_request_received q _ _) =
     (if q \<noteq> pid then ph else if ph = Connected then Connected else Misreported)"
| "next_phase pid ph (Ss_peer_error_occurred q _) =
     (if q \<noteq> pid then ph else if ph = Connected then Connected else Misreported)"
| "next_phase pid ph (Ss_peer_closed q) =
     (if q \<noteq> pid then ph else if ph = Connected then Disconnected else Misreported)"
| "next_phase pid ph _ = ph"

definition reported :: "peer_id \<Rightarrow> server_signal list \<Rightarrow> peer_phase" where
  "reported pid log = foldl (next_phase pid) Unseen log"

fun connected_signal :: "server_signal \<Rightarrow> (peer_id \<times> peer_credentials) multiset" where
  "connected_signal (Ss_peer_connected pid c) = {#(pid, c)#}"
| "connected_signal _ = {#}"

abbreviation connected_in :: "server_signal list \<Rightarrow> (peer_id \<times> peer_credentials) multiset" where
  "connected_in log \<equiv> \<Sum>sig \<in># mset log. connected_signal sig"

lemma reported_snoc [simp]: "reported pid (log @ [sig]) = next_phase pid (reported pid log) sig"
  by (simp add: reported_def)

lemma reported_Nil [simp]: "reported pid [] = Unseen"
  by (simp add: reported_def)

lemma misreported_stays: "foldl (next_phase pid) Misreported log = Misreported"
proof (induction log)
  case (Cons sig log)
  then show ?case by (cases sig) simp_all
qed simp

lemma reported_prefix: "reported pid (log @ log') \<noteq> Misreported \<Longrightarrow> reported pid log \<noteq> Misreported"
  by (auto simp: reported_def misreported_stays)

text \<open>A peer that was not reported as connected is unseen.\<close>

lemma unseen:
  "reported pid log \<noteq> Misreported \<Longrightarrow> pid \<notin># image_mset fst (connected_in log) \<Longrightarrow> reported pid log = Unseen"
proof (induction log rule: rev_induct)
  case (snoc sig log)
  have "reported pid log \<noteq> Misreported"
    using reported_prefix [OF snoc.prems(1)] by simp
  then have "reported pid log = Unseen"
    using snoc.IH snoc.prems(2) by simp
  then show ?case
    using snoc.prems by (cases sig) (auto split: if_splits)
qed simp

section \<open>Reports on the way\<close>

fun sa_signals :: "'cb server_action \<Rightarrow> server_signal list" where
  "sa_signals (Sa_signal sig) = [sig]"
| "sa_signals _ = []"

definition history :: "'cb server \<Rightarrow> server_signal list" where
  "history s = sv_log s @ concat (map sa_signals (sv_thread s))"

fun ready_function :: "'cb server_function \<Rightarrow> (peer_id \<times> peer_credentials) multiset" where
  "ready_function (Sf_scoped _ (Sn_ready pid c)) = {#(pid, c)#}"
| "ready_function _ = {#}"

fun ready_action :: "'cb server_action \<Rightarrow> (peer_id \<times> peer_credentials) multiset" where
  "ready_action (Sa_verify pid c) = {#(pid, c)#}"
| "ready_action (Sa_enqueue f) = ready_function f"
| "ready_action _ = {#}"

definition peer_named :: "(conn_ref \<Rightarrow> (peer_id \<times> token \<times> peer_credentials) option) \<Rightarrow> conn_ref \<Rightarrow>
    (peer_id \<times> peer_credentials) multiset" where
  "peer_named info p = (case info p of None \<Rightarrow> {#} | Some (pid, _, c) \<Rightarrow> {#(pid, c)#})"

definition ready_signal :: "(conn_ref \<Rightarrow> (peer_id \<times> token \<times> peer_credentials) option) \<Rightarrow>
    conn_ref \<times> peer_signal \<Rightarrow> (peer_id \<times> peer_credentials) multiset" where
  "ready_signal info x = (if snd x = Sig_ready then peer_named info (fst x) else {#})"

text \<open>The peers that are ready, wherever this news is, up to the report that they are connected.\<close>

definition readies :: "'cb server \<Rightarrow> (peer_id \<times> peer_credentials) multiset" where
  "readies s =
     (\<Sum>x \<in># mset (sv_signals s). ready_signal (peer_info s) x) +
     (\<Sum>f \<in># mset (sv_own s). ready_function f) + (\<Sum>a \<in># mset (sv_thread s). ready_action a) +
     connected_in (history s)"

text \<open>Identities: each accepted peer has its own id, and ids and references are not used again.\<close>

definition names_inv :: "'cb server \<Rightarrow> bool" where
  "names_inv s \<longleftrightarrow>
     next_peer_id s = of_nat (sv_accepted s) \<and>
     (\<forall>p pid t c. peer_info s p = Some (pid, t, c) \<longrightarrow>
        p < sv_next_ref s \<and> unat pid \<le> sv_accepted s) \<and>
     (\<forall>p q pid t c t' c'. peer_info s p = Some (pid, t, c) \<longrightarrow> peer_info s q = Some (pid, t', c') \<longrightarrow> p = q) \<and>
     (\<forall>p. probe_info s p \<noteq> None \<longrightarrow> p < sv_next_ref s) \<and>
     (\<forall>x \<in> set (sv_signals s). fst x < sv_next_ref s)"

definition reports_inv :: "(peer_credentials \<Rightarrow> bool) \<Rightarrow> 'cb server \<Rightarrow> bool" where
  "reports_inv verify s \<longleftrightarrow>
     (\<forall>pid. reported pid (sv_log s) \<noteq> Misreported) \<and>
     (\<forall>x. x \<in># connected_in (history s) \<longrightarrow> verify (snd x)) \<and>
     (\<forall>pid. count (image_mset fst (readies s)) pid \<le> 1) \<and>
     (\<forall>x. x \<in># readies s \<longrightarrow>
        (\<exists>p. x \<in># peer_named (peer_info s) p \<and> p \<notin> sv_unready s)) \<and>
     concat (map sa_signals (tl (sv_thread s))) = [] \<and>
     (sv_slots s \<longrightarrow>
        (\<forall>pid. reported pid (history s) \<noteq> Misreported) \<and>
        (\<forall>pid \<in> exposed s. reported pid (history s) = Connected))"

definition log_inv :: "(peer_credentials \<Rightarrow> bool) \<Rightarrow> 'cb server \<Rightarrow> bool" where
  "log_inv verify s \<longleftrightarrow> (sv_accepted s < 2 ^ 64 \<longrightarrow> names_inv s \<and> reports_inv verify s)"

section \<open>Steps that report nothing\<close>

definition log_view :: "'cb server \<Rightarrow> 'cb server \<Rightarrow> bool" where
  "log_view s t \<longleftrightarrow>
     sv_log t = sv_log s \<and> sv_slots t = sv_slots s \<and> sv_thread t = sv_thread s \<and>
     exposed t = exposed s \<and> sv_signals t = sv_signals s \<and> peer_info t = peer_info s \<and>
     next_peer_id t = next_peer_id s \<and> sv_accepted t = sv_accepted s \<and>
     sv_next_ref s \<le> sv_next_ref t \<and> sv_unready t \<inter> dom (peer_info s) \<subseteq> sv_unready s \<and>
     (\<forall>p. probe_info t p \<noteq> None \<longrightarrow> probe_info s p \<noteq> None \<or> p < sv_next_ref t) \<and>
     (\<Sum>f \<in># mset (sv_own t). ready_function f) \<subseteq># (\<Sum>f \<in># mset (sv_own s). ready_function f)"

lemma readies_sub_inv:
  assumes "reports_inv verify s" and "readies t \<subseteq># readies s"
    and "peer_info t = peer_info s" and "sv_unready t \<inter> dom (peer_info s) \<subseteq> sv_unready s"
  shows "count (image_mset fst (readies t)) pid \<le> 1"
    and "x \<in># readies t \<Longrightarrow> \<exists>p. x \<in># peer_named (peer_info t) p \<and> p \<notin> sv_unready t"
proof -
  have "count (image_mset fst (readies t)) pid \<le> count (image_mset fst (readies s)) pid"
    using image_mset_subseteq_mono [OF assms(2), of fst] by (simp add: subseteq_mset_def)
  moreover have "count (image_mset fst (readies s)) pid \<le> 1"
    using assms(1) by (simp add: reports_inv_def)
  ultimately show "count (image_mset fst (readies t)) pid \<le> 1" by linarith
  show "\<exists>p. x \<in># peer_named (peer_info t) p \<and> p \<notin> sv_unready t" if "x \<in># readies t"
  proof -
    have "x \<in># readies s" using that assms(2) by (rule mset_subset_eqD [rotated])
    then obtain p where p: "x \<in># peer_named (peer_info s) p" "p \<notin> sv_unready s"
      using assms(1) unfolding reports_inv_def by blast
    then have "p \<in> dom (peer_info s)" by (auto simp: peer_named_def split: option.splits)
    then show ?thesis using p assms(3,4) by auto
  qed
qed

lemma namesD:
  assumes "names_inv s"
  shows "next_peer_id s = of_nat (sv_accepted s)"
    and "peer_info s p = Some (pid, t, c) \<Longrightarrow> p < sv_next_ref s"
    and "peer_info s p = Some (pid, t, c) \<Longrightarrow> unat pid \<le> sv_accepted s"
    and "probe_info s p \<noteq> None \<Longrightarrow> p < sv_next_ref s"
    and "x \<in> set (sv_signals s) \<Longrightarrow> fst x < sv_next_ref s"
  using assms unfolding names_inv_def by blast+

lemma names_fresh:
  assumes "names_inv s"
  shows "peer_info s (sv_next_ref s) = None" and "probe_info s (sv_next_ref s) = None"
    and "(sv_next_ref s, sig) \<notin> set (sv_signals s)"
proof -
  show "peer_info s (sv_next_ref s) = None"
    using namesD(2) [OF assms, of "sv_next_ref s"] by (cases "peer_info s (sv_next_ref s)") auto
  show "probe_info s (sv_next_ref s) = None"
    using namesD(4) [OF assms, of "sv_next_ref s"] by (cases "probe_info s (sv_next_ref s)") auto
  show "(sv_next_ref s, sig) \<notin> set (sv_signals s)"
    using namesD(5) [OF assms, of "(sv_next_ref s, sig)"] by auto
qed

lemma names_keep:
  assumes names: "names_inv s" and "next_peer_id t = next_peer_id s" "sv_accepted t = sv_accepted s"
    "peer_info t = peer_info s" and le: "sv_next_ref s \<le> sv_next_ref t"
    and probes: "\<And>p. probe_info t p \<noteq> None \<Longrightarrow> probe_info s p \<noteq> None \<or> p < sv_next_ref t"
    and signals: "fst ` set (sv_signals t) \<subseteq> fst ` set (sv_signals s) \<union> {..< sv_next_ref t}"
  shows "names_inv t"
proof -
  have "p < sv_next_ref t" if "probe_info t p \<noteq> None" for p
    using probes [OF that] names le unfolding names_inv_def by fastforce
  moreover have "fst x < sv_next_ref t" if "x \<in> set (sv_signals t)" for x
  proof -
    have "fst x \<in> fst ` set (sv_signals s) \<union> {..< sv_next_ref t}" using signals that by blast
    then show ?thesis using names le unfolding names_inv_def by fastforce
  qed
  moreover have "p < sv_next_ref t \<and> unat pid \<le> sv_accepted s" if "peer_info s p = Some (pid, tok, c)" for p pid tok c
    using names le that unfolding names_inv_def by fastforce
  ultimately show ?thesis
    using names assms(2-4) unfolding names_inv_def by simp
qed

lemma log_view_inv:
  assumes "log_view s t" and "log_inv verify s"
  shows "log_inv verify t"
proof -
  have "names_inv t" if "names_inv s"
    by (rule names_keep [OF that]) (use assms(1) in \<open>simp_all add: log_view_def\<close>)
  moreover have "reports_inv verify t" if inv: "reports_inv verify s"
  proof -
    have same: "history t = history s" "readies t \<subseteq># readies s"
      using assms(1) by (simp_all add: history_def readies_def log_view_def)
    note sub = readies_sub_inv [OF inv same(2)]
    show ?thesis
      using inv assms(1) sub same(1) by (simp add: reports_inv_def log_view_def)
  qed
  ultimately show ?thesis
    using assms by (auto simp: log_inv_def log_view_def)
qed

lemma ready_callback [simp]: "ready_function (case x of (cb, ec, data) \<Rightarrow> Sf_callback cb ec data) = {#}"
  by (cases x) simp

lemma log_view_refl [simp]: "log_view s s"
  by (simp add: log_view_def)

lemma log_view_trans:
  assumes st: "log_view s t" and tu: "log_view t u"
  shows "log_view s u"
proof -
  have "probe_info s p \<noteq> None \<or> p < sv_next_ref u" if "probe_info u p \<noteq> None" for p
    using st tu that less_le_trans unfolding log_view_def by blast
  moreover have "sv_unready u \<inter> dom (peer_info s) \<subseteq> sv_unready s"
    using st tu unfolding log_view_def by fastforce
  moreover have "(\<Sum>f \<in># mset (sv_own u). ready_function f) \<subseteq># (\<Sum>f \<in># mset (sv_own s). ready_function f)"
    using st tu unfolding log_view_def by (elim conjE) (rule subset_mset.order_trans)
  ultimately show ?thesis
    using st tu by (simp add: log_view_def)
qed

lemma bind_view: "log_view s (server_bind ep rem os t s)"
proof (cases rule: server_bind_cases [of ep rem os t s])
  case 1
  then show ?thesis by simp
next
  case (2 v ec)
  then obtain n a b rt where "v = s\<lparr>sv_next_ref := sv_next_ref s + n, acceptor := a, bound_path := b, sv_runtime := rt\<rparr>"
    by blast
  then show ?thesis unfolding 2(1) by (simp add: log_view_def sv_bodies)
next
  case (3 k rt)
  then show ?thesis unfolding 3(1) by (simp add: log_view_def sv_bodies)
qed

lemma close_peer_log_view: "log_view s (close_peer pid s)"
  by (simp add: log_view_def sv_bodies)

lemma close_acceptor_view: "log_view s (close_acceptor rem s)"
  by (simp add: log_view_def sv_bodies)

lemma close_probe_view: "log_view s (close_health_check_peer s)"
  by (simp add: log_view_def sv_bodies)

lemma request_timer_view: "log_view s (server_request_timer s)"
proof -
  obtain rm out tc where r: "run_expired (sv_requests s) = (rm, out, tc)"
    by (rule prod_cases3)
  have v: "log_view s (sv_with_requests (rm, out) s)"
    by (simp add: log_view_def sv_bodies)
  then show ?thesis
    using close_peer_log_view
    by (auto simp: server_request_timer_def r server_request_timed_out_def Let_def split: option.split
        intro: log_view_trans)
qed

lemma task_view:
  assumes "\<And>c t. u \<noteq> St_accepted c t" and names: "names_inv s"
  shows "log_view s (run_task ep rem os u s)"
proof (cases u)
  case (St_bind t)
  then show ?thesis using bind_view by simp
next
  case (St_accepted c t)
  then show ?thesis using assms by blast
next
  case (St_probe_connected tm t ec)
  have "sv_next_ref s \<notin> dom (peer_info s)"
    using names_fresh(1) [OF names] by auto
  then show ?thesis
    using St_probe_connected by (simp add: log_view_def sv_bodies domIff)
qed (simp_all add: log_view_def sv_bodies split: option.split)

section \<open>Steps that report\<close>

lemma accepted_inv:
  assumes inv: "log_inv verify s"
  shows "log_inv verify (handle_accepted_socket c t s)"
proof (cases "is_current t (sv_scope s) \<and> sv_accepted s < 2 ^ 64 - 1")
  case False
  then show ?thesis
    using inv by (auto simp: handle_accepted_socket_def log_inv_def sv_ops)
next
  case True
  let ?p = "sv_next_ref s" and ?pid = "next_peer_id s + 1"
  let ?t = "handle_accepted_socket c t s"
  have names: "names_inv s" and reports: "reports_inv verify s"
    using inv True by (auto simp: log_inv_def)
  have pid: "unat ?pid = Suc (sv_accepted s)"
    using names True unat_plus_one [of "next_peer_id s"] by (simp add: names_inv_def unat_of_nat)
  have fresh: "peer_info s ?p = None" "probe_info s ?p = None" "(?p, sig) \<notin> set (sv_signals s)" for sig
    using names_fresh [OF names] by auto
  have t: "?t = s\<lparr>next_peer_id := ?pid, sv_next_ref := Suc ?p, peers := emplace_peer ?pid ?p (peers s),
      peer_info := (peer_info s)(?p \<mapsto> (?pid, t, c)), sv_live := insert ?p (sv_live s),
      sv_unready := insert ?p (sv_unready s), sv_accepted := Suc (sv_accepted s),
      sv_calls := sv_calls s @ [(?p, Call_start)], sv_io := St_accept t # sv_io s\<rparr>"
    using True by (simp add: handle_accepted_socket_def sv_ops)
  have older: "unat pid' \<le> Suc (sv_accepted s)" if "peer_info s q = Some (pid', t', c')" for q pid' t' c'
    using namesD(3) [OF names that] by simp
  have other: "pid' \<noteq> ?pid" if "peer_info s q = Some (pid', t', c')" for q pid' t' c'
    using namesD(3) [OF names that] pid by auto
  have "ready_signal (peer_info ?t) x = ready_signal (peer_info s) x" if "x \<in> set (sv_signals s)" for x
    using namesD(5) [OF names that] by (simp add: t ready_signal_def peer_named_def)
  then have "(\<Sum>x \<in># mset (sv_signals s). ready_signal (peer_info ?t) x) =
      (\<Sum>x \<in># mset (sv_signals s). ready_signal (peer_info s) x)"
    by (intro arg_cong [where f = sum_mset] image_mset_cong) simp
  moreover have "sv_signals ?t = sv_signals s" "sv_own ?t = sv_own s" "sv_thread ?t = sv_thread s"
    "sv_log ?t = sv_log s"
    by (simp_all add: t)
  ultimately have same: "readies ?t = readies s" "history ?t = history s"
    by (simp_all only: readies_def history_def)
  have "names_inv ?t"
    using names other older pid fresh unfolding names_inv_def
    by (auto simp: t less_Suc_eq split: if_splits)
  moreover have "\<exists>q. x \<in># peer_named (peer_info ?t) q \<and> q \<notin> sv_unready ?t" if x: "x \<in># readies s" for x
  proof -
    obtain q where q: "x \<in># peer_named (peer_info s) q" "q \<notin> sv_unready s"
      using reports x unfolding reports_inv_def by blast
    moreover have "q \<noteq> ?p" using q(1) fresh(1) by (auto simp: peer_named_def)
    ultimately show ?thesis by (intro exI [of _ q]) (simp add: t peer_named_def)
  qed
  then have "reports_inv verify ?t"
    using reports unfolding reports_inv_def same by (simp add: t)
  ultimately show ?thesis by (simp add: log_inv_def)
qed

text \<open>A ready peer moves on, or a report is added.\<close>

definition same_names :: "'cb server \<Rightarrow> 'cb server \<Rightarrow> bool" where
  "same_names s t \<longleftrightarrow>
     next_peer_id t = next_peer_id s \<and> sv_accepted t = sv_accepted s \<and> peer_info t = peer_info s \<and>
     probe_info t = probe_info s \<and> sv_next_ref t = sv_next_ref s \<and> sv_unready t \<subseteq> sv_unready s \<and>
     fst ` set (sv_signals t) \<subseteq> fst ` set (sv_signals s)"

lemma moves_inv:
  assumes inv: "log_inv verify s" and same: "same_names s t" "sv_log t = sv_log s" "sv_slots t = sv_slots s"
    and sub: "readies t \<subseteq># readies s" and tl: "concat (map sa_signals (tl (sv_thread t))) = []"
    and verified: "\<And>x. reports_inv verify s \<Longrightarrow> x \<in># connected_in (history t) \<Longrightarrow> verify (snd x)"
    and phases: "reports_inv verify s \<Longrightarrow> sv_slots s \<Longrightarrow>
      (\<forall>pid. reported pid (history t) \<noteq> Misreported) \<and>
      (\<forall>pid \<in> exposed t. reported pid (history t) = Connected)"
  shows "log_inv verify t"
proof -
  have "names_inv t" if "names_inv s"
    by (rule names_keep [OF that]) (use same(1) in \<open>auto simp: same_names_def\<close>)
  moreover have "reports_inv verify t" if reports: "reports_inv verify s"
  proof -
    have "sv_unready t \<inter> dom (peer_info s) \<subseteq> sv_unready s" "peer_info t = peer_info s"
      using same(1) by (auto simp: same_names_def)
    note kept = readies_sub_inv [OF reports sub this(2,1)]
    have "reported pid (sv_log t) \<noteq> Misreported" for pid
      using reports unfolding reports_inv_def same(2) by blast
    then show ?thesis
      using kept tl verified [OF reports] phases [OF reports]
      unfolding reports_inv_def same(3) by blast
  qed
  ultimately show ?thesis
    using inv same(1) by (auto simp: log_inv_def same_names_def)
qed

text \<open>Nothing is reported.\<close>

lemma silent_inv:
  assumes inv: "log_inv verify s" and "same_names s t" "sv_log t = sv_log s" "sv_slots t = sv_slots s"
    and "readies t \<subseteq># readies s" and "concat (map sa_signals (tl (sv_thread t))) = []"
    and "history t = history s" "exposed t \<subseteq> exposed s"
  shows "log_inv verify t"
proof (rule moves_inv [OF assms(1-6)])
  show "verify (snd x)" if "reports_inv verify s" "x \<in># connected_in (history t)" for x
    using that unfolding assms(7) reports_inv_def by blast
  show "(\<forall>pid. reported pid (history t) \<noteq> Misreported) \<and>
      (\<forall>pid \<in> exposed t. reported pid (history t) = Connected)" if "reports_inv verify s" "sv_slots s"
    using that assms(8) unfolding assms(7) reports_inv_def by blast
qed

lemma taken_inv:
  assumes inv: "log_inv verify s" and idle: "sv_thread s = []" and take: "sv_own s = f # sv_own v"
    and v: "v = s\<lparr>sv_disp := x\<rparr>"
  shows "log_inv verify v" "log_inv verify (begin_server_function now f v)"
proof -
  have readies: "readies s = readies v + ready_function f" and history: "history v = sv_log s"
    "history s = sv_log s"
    using take idle by (simp_all add: readies_def history_def v)
  show "log_inv verify v"
    by (rule silent_inv [OF inv]) (simp_all add: same_names_def readies history idle, simp_all add: v idle)
  have phase: "reported pid (sv_log s) = Connected" if "reports_inv verify s" "sv_slots s" "pid \<in> exposed s" for pid
    using that history by (auto simp: reports_inv_def)
  let ?t = "begin_server_function now f v"
  have same: "same_names s ?t" "sv_log ?t = sv_log s" "sv_slots ?t = sv_slots s"
    by (cases f; simp add: same_names_def v if_exposed_def split: option.split prod.split)+
  have tl: "concat (map sa_signals (tl (sv_thread ?t))) = []"
  proof (cases f)
    case (Sf_scoped t n)
    then show ?thesis by (cases n) (auto simp: v idle run_scoped_def)
  qed (auto simp: v idle if_exposed_def split: prod.split)
  have hist: "history ?t = sv_log s @ concat (map sa_signals (sv_thread ?t))"
    by (simp add: history_def same)
  show "log_inv verify ?t"
  proof (rule moves_inv [OF inv same _ tl])
    have own: "(\<Sum>g \<in># mset (sv_own ?t). ready_function g) = (\<Sum>g \<in># mset (sv_own v). ready_function g)"
    proof (cases f)
      case (Sf_retry g)
      obtain dt d call where r: "run_debounced Sf_retry (sv_oid v) g (bind_retry_task v, sv_disp v) = ((dt, d), call)"
        by (metis prod.exhaust)
      have "(\<Sum>g \<in># mset (owned (sv_oid v) d). ready_function g) = (\<Sum>g \<in># mset (sv_own v). ready_function g)"
        by (rule adds_only_sum [OF debounced_adds [OF r]]) auto
      then show ?thesis using Sf_retry r by simp
    next
      case (Sf_timer g)
      have "adds_only (\<lambda>f. f \<in> range Sf_timer) (sv_oid v) (sv_disp v)
          (snd (fst (run_timer Sf_timer (sv_oid v) now g (health_timer v, sv_disp v))))" by simp
      then have "(\<Sum>x \<in># mset (owned (sv_oid v)
          (snd (fst (run_timer Sf_timer (sv_oid v) now g (health_timer v, sv_disp v))))). ready_function x) =
          (\<Sum>x \<in># mset (sv_own v). ready_function x)" by (rule adds_only_sum) auto
      then show ?thesis using Sf_timer by (simp add: split_beta)
    qed (simp_all add: if_exposed_def split: option.split)
    have more: "(\<Sum>a \<in># mset (sv_thread ?t). ready_action a) +
        connected_in (concat (map sa_signals (sv_thread ?t))) \<subseteq># ready_function f"
    proof (cases f)
      case (Sf_scoped t n)
      then show ?thesis by (cases n) (auto simp: v idle run_scoped_def)
    qed (auto simp: v idle if_exposed_def split: prod.split)
    have "sv_signals ?t = sv_signals s" "peer_info ?t = peer_info s"
      by (cases f; simp add: v if_exposed_def split: option.split prod.split)+
    then have "readies ?t = readies v + ((\<Sum>a \<in># mset (sv_thread ?t). ready_action a) +
        connected_in (concat (map sa_signals (sv_thread ?t))))"
      unfolding readies_def hist history own by (simp add: v idle)
    then show "readies ?t \<subseteq># readies s"
      using more unfolding readies by simp
    show "verify (snd x)" if "reports_inv verify s" "x \<in># connected_in (history ?t)" for x
    proof -
      have "connected_in (concat (map sa_signals (sv_thread ?t))) = {#}"
      proof (cases f)
        case (Sf_scoped t n)
        then show ?thesis by (cases n) (auto simp: v idle run_scoped_def)
      qed (auto simp: v idle if_exposed_def split: prod.split)
      then have "x \<in># connected_in (history s)"
        using that(2) unfolding hist history by simp
      then show ?thesis using that(1) unfolding reports_inv_def by blast
    qed
    show "(\<forall>pid. reported pid (history ?t) \<noteq> Misreported) \<and>
      (\<forall>pid \<in> exposed ?t. reported pid (history ?t) = Connected)" if r: "reports_inv verify s" "sv_slots s"
    proof -
      have "reported pid (sv_log s) \<noteq> Misreported" for pid
        using r(1) by (simp add: reports_inv_def)
      note known = this phase [OF r]
      show ?thesis
      proof (cases f)
        case (Sf_scoped t n)
        then show ?thesis
          unfolding hist using known by (cases n) (auto simp: v idle run_scoped_def)
      qed (unfold hist, use known in \<open>auto simp: v idle if_exposed_def split: prod.split\<close>)
    qed
  qed
qed

lemma signalled_inv:
  assumes inv: "log_inv verify s" and thread: "sv_thread s = Sa_signal sig # as"
  shows "log_inv verify (run_server_action verify now (Sa_signal sig) (s\<lparr>sv_thread := as\<rparr>))"
proof (cases "sv_accepted s < 2 ^ 64")
  case False
  then show ?thesis using inv by (simp add: log_inv_def)
next
  case True
  define t where "t = run_server_action verify now (Sa_signal sig) (s\<lparr>sv_thread := as\<rparr>)"
  have t: "sv_thread t = as" "sv_slots t = sv_slots s" "exposed t = exposed s" "peer_info t = peer_info s"
    "sv_unready t = sv_unready s" "sv_signals t = sv_signals s" "sv_own t = sv_own s"
    "next_peer_id t = next_peer_id s" "sv_accepted t = sv_accepted s" "probe_info t = probe_info s"
    "sv_next_ref t = sv_next_ref s" "sv_log t = (if sv_slots s then sv_log s @ [sig] else sv_log s)"
    by (simp_all add: t_def)
  have names: "names_inv s" and reports: "reports_inv verify s"
    using inv True by (simp_all add: log_inv_def)
  have as: "concat (map sa_signals as) = []"
    using reports thread by (simp add: reports_inv_def)
  then have hist: "history s = sv_log s @ [sig]" "history t = (if sv_slots s then history s else sv_log s)"
    using thread by (simp_all add: history_def t)
  have "names_inv t" by (rule names_keep [OF names]) (simp_all add: t)
  moreover have "reports_inv verify t"
  proof -
    have "readies t \<subseteq># readies s"
      unfolding readies_def hist(2) t by (simp add: thread hist)
    note kept = readies_sub_inv [OF reports this t(4)]
    have "concat (map sa_signals (tl as)) = []" using as by (cases as) auto
    moreover have "reported pid (sv_log t) \<noteq> Misreported" for pid
      using reports hist(1) unfolding reports_inv_def t by auto
    moreover have "verify (snd x)" if "x \<in># connected_in (history t)" for x
    proof -
      have "x \<in># connected_in (history s)"
        using that unfolding hist by (auto split: if_splits)
      then show ?thesis using reports unfolding reports_inv_def by blast
    qed
    moreover have "(\<forall>pid. reported pid (history t) \<noteq> Misreported) \<and>
        (\<forall>pid \<in> exposed t. reported pid (history t) = Connected)" if "sv_slots t"
      using reports that unfolding reports_inv_def hist(2) t by simp
    ultimately show ?thesis
      using kept unfolding reports_inv_def by (simp only: t) blast
  qed
  ultimately show ?thesis unfolding t_def [symmetric] log_inv_def by blast
qed

lemma verified_inv:
  assumes inv: "log_inv verify s" and thread: "sv_thread s = Sa_verify pid c # as"
  shows "log_inv verify (run_server_action verify now (Sa_verify pid c) (s\<lparr>sv_thread := as\<rparr>))"
proof (cases "sv_accepted s < 2 ^ 64")
  case False
  then show ?thesis using inv by (simp add: log_inv_def sv_ops)
next
  case True
  let ?t = "run_server_action verify now (Sa_verify pid c) (s\<lparr>sv_thread := as\<rparr>)"
  have reports: "reports_inv verify s"
    using inv True by (simp add: log_inv_def)
  have as: "concat (map sa_signals as) = []"
    using reports thread by (simp add: reports_inv_def)
  then have tl_as: "concat (map sa_signals (tl as)) = []" by (cases as) auto
  have hist: "history s = sv_log s"
    using thread as by (simp add: history_def)
  show ?thesis
  proof (cases "verify c")
    case False
    then show ?thesis
      using as tl_as
      by (intro silent_inv [OF inv])
        (simp_all add: same_names_def sv_ops readies_def history_def thread)
  next
    case True
    have new: "history ?t = sv_log s @ [Ss_peer_connected pid c]"
      using True as by (simp add: history_def)
    have total: "readies ?t = readies s"
      unfolding readies_def new hist using True by (simp add: thread)
    have "count (image_mset fst (readies s)) pid \<le> 1"
      using reports unfolding reports_inv_def by blast
    then have "pid \<notin># image_mset fst (connected_in (sv_log s))"
      unfolding readies_def hist by (simp add: thread count_eq_zero_iff del: set_image_mset)
    then have unseen: "reported pid (sv_log s) = Unseen"
      using reports unseen unfolding reports_inv_def by blast
    show ?thesis
    proof (rule moves_inv [OF inv])
      show "verify (snd x)" if "x \<in># connected_in (history ?t)" for x
      proof -
        have "x = (pid, c) \<or> x \<in># connected_in (history s)"
          using that unfolding new hist by simp
        then show ?thesis using reports True unfolding reports_inv_def by (elim disjE) (simp, blast)
      qed
      show "(\<forall>q. reported q (history ?t) \<noteq> Misreported) \<and>
          (\<forall>q \<in> exposed ?t. reported q (history ?t) = Connected)" if "sv_slots s"
        using reports that True unseen unfolding reports_inv_def new hist by auto
    qed (use True as total in \<open>simp_all add: same_names_def\<close>)
  qed
qed

lemma action_log_inv:
  assumes inv: "log_inv verify s" and thread: "sv_thread s = a # as"
  shows "log_inv verify (run_server_action verify now a (s\<lparr>sv_thread := as\<rparr>))"
proof (cases "\<exists>sig. a = Sa_signal sig")
  case True
  then obtain sig where a: "a = Sa_signal sig" by blast
  show ?thesis unfolding a by (rule signalled_inv [OF inv thread [unfolded a]])
next
  case not_signal: False
  show ?thesis
  proof (cases "\<exists>pid c. a = Sa_verify pid c")
    case True
    then obtain pid c where a: "a = Sa_verify pid c" by blast
    show ?thesis unfolding a by (rule verified_inv [OF inv thread [unfolded a]])
  next
    case not_verify: False
    let ?t = "run_server_action verify now a (s\<lparr>sv_thread := as\<rparr>)"
    have tl: "concat (map sa_signals (tl as)) = []" if "reports_inv verify s"
      using that thread by (cases as) (auto simp: reports_inv_def)
    show ?thesis
    proof (cases "sv_accepted s < 2 ^ 64")
      case True
      then have reports: "reports_inv verify s" using inv by (simp add: log_inv_def)
      show ?thesis
        by (rule silent_inv [OF inv];
          use not_signal not_verify tl [OF reports] in \<open>cases a;
            simp add: same_names_def readies_def history_def thread sv_ops schedule_bind_retry_def
              debounce_after_def debounce_at_def debounce_cancel_def stop_health_check_timer_def
              start_health_check_timer_def timer_stop_def timer_start_def split_beta\<close>)
    next
      case False
      then show ?thesis
        using not_signal not_verify by (cases a)
          (simp_all add: log_inv_def sv_ops schedule_bind_retry_def stop_health_check_timer_def
            start_health_check_timer_def split_beta)
    qed
  qed
qed

text \<open>The slots, and what peers announce.\<close>

lemma slot_inv:
  assumes inv: "log_inv verify s" and idle: "sv_thread s = []" and signals: "sv_signals s = xs @ (p, sig) # ys"
  shows "log_inv verify (server_peer_slot p sig (s\<lparr>sv_signals := xs @ ys\<rparr>))"
proof -
  let ?v = "s\<lparr>sv_signals := xs @ ys\<rparr>"
  have popped: "log_inv verify ?v"
    by (rule silent_inv [OF inv]) (auto simp: same_names_def readies_def history_def idle signals)
  show ?thesis
  proof (cases "p \<in> sv_silenced s \<or> peer_info s p = None")
    case True
    moreover have "log_inv verify (probe_slot tm t sig ?v)" for tm t
      by (rule silent_inv [OF popped];
        cases sig; simp add: same_names_def readies_def history_def idle sv_ops)
    ultimately show ?thesis
      using popped by (auto simp: server_peer_slot_def split: option.split)
  next
    case False
    then obtain pid t c where info: "peer_info s p = Some (pid, t, c)" by auto
    have "log_inv verify (accepted_peer_slot p pid t c sig ?v)"
      by (rule silent_inv [OF inv];
        cases sig; use info in \<open>auto simp: same_names_def readies_def history_def idle sv_ops signals
          ready_signal_def peer_named_def\<close>)
    then show ?thesis using False info by (simp add: server_peer_slot_def)
  qed
qed

lemma announced_inv:
  assumes inv: "log_inv verify s" and known: "peer_info s p \<noteq> None \<or> probe_info s p \<noteq> None"
    and unready: "sig = Sig_ready \<Longrightarrow> p \<in> sv_unready s"
  shows "log_inv verify (s\<lparr>sv_signals := sv_signals s @ [(p, sig)], sv_live := live,
      sv_unready := (if sig = Sig_ready then sv_unready s - {p} else sv_unready s)\<rparr>)"
    (is "log_inv verify ?t")
proof (cases "sv_accepted s < 2 ^ 64")
  case False
  then show ?thesis using inv by (simp add: log_inv_def)
next
  case True
  have names: "names_inv s" and reports: "reports_inv verify s"
    using inv True by (simp_all add: log_inv_def)
  have p: "p < sv_next_ref s"
    using known namesD(2,4) [OF names] by fastforce
  have "names_inv ?t" by (rule names_keep [OF names]) (use p in auto)
  moreover have "reports_inv verify ?t"
  proof -
    have total: "readies ?t = readies s + (if sig = Sig_ready then peer_named (peer_info s) p else {#})"
      by (auto simp: readies_def history_def ready_signal_def)
    have hist: "history ?t = history s" by (simp add: history_def)
    have once: "count (image_mset fst (readies ?t)) pid \<le> 1" for pid
    proof -
      have one: "count (image_mset fst (readies s)) pid \<le> 1"
        using reports unfolding reports_inv_def by blast
      show ?thesis
      proof (cases "sig = Sig_ready \<and> (\<exists>t c. peer_info s p = Some (pid, t, c))")
        case False
        then have "count (image_mset fst (if sig = Sig_ready then peer_named (peer_info s) p else {#})) pid = 0"
          by (auto simp: peer_named_def split: option.split)
        then show ?thesis unfolding total using one by simp
      next
        case True
        have "pid \<notin># image_mset fst (readies s)"
        proof
          assume "pid \<in># image_mset fst (readies s)"
          then obtain c where "(pid, c) \<in># readies s" by auto
          then obtain q where q: "(pid, c) \<in># peer_named (peer_info s) q" "q \<notin> sv_unready s"
            using reports unfolding reports_inv_def by blast
          then have "\<exists>t. peer_info s q = Some (pid, t, c)"
            by (auto simp: peer_named_def split: option.splits)
          then have "q = p" using names True unfolding names_inv_def by blast
          then show False using q(2) unready True by blast
        qed
        then have "count (image_mset fst (readies s)) pid = 0" by (rule not_in_iff [THEN iffD1])
        then show ?thesis unfolding total using True by (auto simp: peer_named_def)
      qed
    qed
    have named: "\<exists>q. x \<in># peer_named (peer_info ?t) q \<and> q \<notin> sv_unready ?t" if x: "x \<in># readies ?t" for x
    proof (cases "x \<in># readies s")
      case True
      then obtain q where "x \<in># peer_named (peer_info s) q" "q \<notin> sv_unready s"
        using reports unfolding reports_inv_def by blast
      then show ?thesis by (intro exI [of _ q]) simp
    next
      case False
      then have "sig = Sig_ready" "x \<in># peer_named (peer_info s) p"
        using x unfolding total by (auto split: if_splits)
      then show ?thesis by (intro exI [of _ p]) simp
    qed
    show ?thesis
      using reports once named unfolding reports_inv_def hist by simp
  qed
  ultimately show ?thesis by (simp add: log_inv_def)
qed

lemma slots_closed_inv:
  assumes inv: "log_inv verify s" and "same_names s t" "sv_log t = sv_log s" "\<not> sv_slots t"
    and "readies t \<subseteq># readies s" and "concat (map sa_signals (tl (sv_thread t))) = []"
    and "history t = history s"
  shows "log_inv verify t"
proof -
  let ?v = "s\<lparr>sv_slots := False\<rparr>"
  have same: "history ?v = history s" "readies ?v = readies s"
    by (simp_all add: history_def readies_def)
  have v: "log_inv verify ?v"
  proof -
    have "names_inv (s\<lparr>sv_slots := False\<rparr>)" if "names_inv s"
      by (rule names_keep [OF that]) simp_all
    moreover have "reports_inv verify (s\<lparr>sv_slots := False\<rparr>)" if "reports_inv verify s"
      using that by (simp add: reports_inv_def history_def readies_def)
    ultimately show ?thesis using inv by (simp add: log_inv_def)
  qed
  show ?thesis
  proof (rule moves_inv [OF v])
    show "verify (snd x)" if "reports_inv verify ?v" "x \<in># connected_in (history t)" for x
      using that unfolding assms(7) reports_inv_def same by blast
  qed (use assms(2-7) same in \<open>simp_all add: same_names_def\<close>)
qed

lemma shutdown_log_inv:
  assumes inv: "log_inv verify s" and "user_code (sv_thread s)"
  shows "log_inv verify (server_async_shutdown b s)"
proof -
  have tl: "concat (map sa_signals (tl (sv_thread s))) = []"
    using assms(2) by (cases "sv_thread s" rule: user_code.cases) auto
  show ?thesis
  proof (cases rule: shutdown_cases [of s b])
    case 1
    then show ?thesis using inv by simp
  next
    case 2
    show ?thesis
      unfolding 2(1)
      by (rule silent_inv [OF inv]) (simp_all add: same_names_def readies_def history_def sv_ops tl)
  next
    case (3 d)
    show ?thesis
      unfolding 3(1)
      by (rule silent_inv [OF inv]) (simp_all add: same_names_def readies_def history_def sv_ops tl 3)
  next
    case (4 d)
    show ?thesis
      unfolding 4(1)
      by (rule slots_closed_inv [OF inv]) (simp_all add: same_names_def readies_def history_def sv_ops tl 4)
  qed
qed

section \<open>Every step\<close>

lemma log_inv_initial: "server_initial s \<Longrightarrow> log_inv verify s"
  by (auto simp: server_initial_def new_server_def log_inv_def names_inv_def reports_inv_def readies_def
      history_def attach_owned)

lemma task_log_inv:
  assumes "log_inv verify s"
  shows "log_inv verify (run_task ep rem os u s)"
proof (cases "\<exists>c t. u = St_accepted c t")
  case True
  then show ?thesis using accepted_inv [OF assms] by auto
next
  case False
  then have other: "u \<noteq> St_accepted c t" for c t by blast
  show ?thesis
  proof (cases "sv_accepted s < 2 ^ 64")
    case True
    then have "log_view s (run_task ep rem os u s)"
      using task_view [OF other] assms by (simp add: log_inv_def)
    then show ?thesis using log_view_inv assms by blast
  next
    case False
    have "sv_accepted (run_task ep rem os u s) = sv_accepted s"
    proof (cases u)
      case (St_bind t)
      then show ?thesis using bind_view [of s ep rem os t] by (simp add: log_view_def)
    qed (use other in \<open>simp_all add: sv_bodies split: option.split\<close>)
    then show ?thesis using False by (simp add: log_inv_def)
  qed
qed

lemma log_inv_step:
  assumes "server_step verify ep rem s t" and "log_inv verify s"
  shows "log_inv verify t"
  using assms
proof (induction rule: server_step.induct)
  case (sv_shutdown s on_thread)
  then show ?case by (intro shutdown_log_inv)
next
  case (sv_take s d now e d' clock)
  have own: "sv_own s = entry_function e # sv_own (s\<lparr>sv_disp := Some d'\<rparr>)"
    using take_owned(1) [OF sv_take(3,4)] sv_take(2) by simp
  note taken = taken_inv [OF sv_take(7,1) own refl]
  show ?case
    using taken by (cases "call_function e d'") (auto simp: call_function_def split: if_splits)
next
  case (sv_action s a as clock)
  then show ?case by (intro action_log_inv)
next
  case (sv_run s u us os)
  have "log_inv verify (s\<lparr>sv_io := us\<rparr>)"
    by (rule log_view_inv [OF _ sv_run(2)]) (simp add: log_view_def)
  then show ?case by (rule task_log_inv)
next
  case (sv_request_timer s)
  then show ?case using log_view_inv [OF request_timer_view] by blast
next
  case (sv_peer_announces s p sig)
  then show ?case by (intro announced_inv)
next
  case (sv_peer_slot s xs p sig ys)
  then show ?case by (intro slot_inv)
next
  case (sv_peer_gone p s)
  have "(\<Sum>x \<in># mset (filter P xs). f x) \<subseteq># (\<Sum>x \<in># mset xs. f x)" for P xs
      and f :: "conn_ref \<times> peer_signal \<Rightarrow> (peer_id \<times> peer_credentials) multiset"
    by (induction xs) (auto intro: subset_mset.add_increasing)
  then have signals: "(\<Sum>x \<in># mset (filter (\<lambda>(q, _). q \<noteq> p) (sv_signals s)). ready_signal (peer_info s) x)
      \<subseteq># (\<Sum>x \<in># mset (sv_signals s). ready_signal (peer_info s) x)" .
  show ?case
  proof (cases "sv_accepted s < 2 ^ 64")
    case True
    then have tl: "concat (map sa_signals (tl (sv_thread s))) = []"
      using sv_peer_gone(3) by (simp add: log_inv_def reports_inv_def)
    show ?thesis
      by (rule silent_inv [OF sv_peer_gone(3)])
        (use tl signals in \<open>auto simp: same_names_def history_def readies_def simp del: mset_filter\<close>)
  next
    case False
    then show ?thesis by (simp add: log_inv_def)
  qed
next
  case (sv_other s d d')
  then show ?case
    by (intro log_view_inv [OF _ sv_other(3)]) (simp add: log_view_def other_objects_owned)
next
  case (sv_dispatcher_gone s)
  then show ?case
    by (intro log_view_inv [OF _ sv_dispatcher_gone(2)]) (simp add: log_view_def)
qed (erule log_view_inv [rotated], simp add: log_view_def server_async_start_def server_async_stop_def
    server_async_send_def server_async_respond_def server_async_request_def
    server_async_close_peer_def sv_ops)+

interpretation server_log: event_machine server_initial "server_step verify ep rem" "log_inv verify"
  by unfold_locales (auto intro: log_inv_initial log_inv_step)

end
