(* ===== verification/Server_Requests.thy ===== *)
theory Server_Requests
  imports Server_Steps
begin

text \<open>
  What the server holds and what it owes: the well-formedness of its state (the bound path with its
  acceptor, pending requests with their peers), and the conservation of request callbacks.
\<close>

section \<open>Completing requests\<close>

text \<open>An operation that only completes requests.\<close>

definition rm_shrinks :: "('cb, 'tc) request_manager \<Rightarrow> ('cb, 'tc) request_manager \<times> 'cb completion list \<Rightarrow> bool" where
  "rm_shrinks rm r \<longleftrightarrow>
     rm_step_ok rm {#} (fst r) (snd r) \<and>
     set (pending_requests (fst r)) \<subseteq> set (pending_requests rm)"

lemma set_remove_key_subset: "set (remove_key k xs) \<subseteq> set xs"
  by (auto simp: remove_key_def)

lemma shrinks_complete_peer: "rm_inv rm \<Longrightarrow> rm_shrinks rm (rm_complete_peer pid ec rm)"
  using rm_complete_peer_ok [of rm pid ec] by (simp add: rm_shrinks_def rm_complete_peer_eq)

lemma shrinks_complete_all: "rm_inv rm \<Longrightarrow> rm_shrinks rm (rm_complete_all ec rm)"
  using rm_complete_all_ok [of rm ec] by (simp add: rm_shrinks_def rm_complete_all_eq)

lemma shrinks_complete_of_peer:
  assumes "rm_inv rm"
  shows "rm_shrinks rm (rm_complete_of_peer pid rid ec data rm)"
proof -
  obtain rm' out where r: "rm_complete_of_peer pid rid ec data rm = (rm', out)" by fastforce
  have "set (pending_requests rm') \<subseteq> set (pending_requests rm)"
    using r set_remove_key_subset [of rid "pending_requests rm"]
    by (auto simp: rm_complete_of_peer_def rm_complete_def complete_request_def split: option.splits if_splits)
  then show ?thesis
    using rm_complete_of_peer_ok [OF assms r] r by (simp add: rm_shrinks_def)
qed

lemma shrinks_run_expired:
  assumes "rm_inv rm" and r: "run_expired rm = (rm', out, tc)"
  shows "rm_shrinks rm (rm', out)"
proof -
  have "set (pending_requests rm') \<subseteq> set (pending_requests rm)"
    using r
    by (auto simp: run_expired_def request_timer_handler_def rm_complete_def complete_request_def
        remove_key_def split: list.splits option.splits if_splits)
  then show ?thesis
    using run_expired_ok [OF assms] by (simp add: rm_shrinks_def)
qed

section \<open>Well-formed states\<close>

definition requests_owned :: "'cb server \<Rightarrow> bool" where
  "requests_owned s \<longleftrightarrow>
     (\<forall>x \<in> set (pending_requests (sv_requests s)).
        \<exists>pid \<in> map_keys (peers s). pr_peer_id (snd x) = Some pid)"

definition server_wf :: "'cb server \<Rightarrow> bool" where
  "server_wf s \<longleftrightarrow>
     (bound_path s \<noteq> None \<longrightarrow> acceptor s \<noteq> None) \<and>
     (\<forall>x \<in> set (accepts s). acceptor s = Some (fst x)) \<and>
     (health_peer s \<noteq> None \<longrightarrow> health_timeout s \<noteq> None) \<and>
     distinct (map fst (peers s)) \<and>
     rm_inv (sv_requests s) \<and> next_request_id (sv_requests s) = of_nat (sv_requested s) \<and>
     requests_owned s"

text \<open>Two servers with the same of all this.\<close>

definition wf_view :: "'cb server \<Rightarrow> 'cb server \<Rightarrow> bool" where
  "wf_view s t \<longleftrightarrow>
     bound_path t = bound_path s \<and> acceptor t = acceptor s \<and> set (accepts t) \<subseteq> set (accepts s) \<and>
     health_peer t = health_peer s \<and> health_timeout t = health_timeout s \<and> peers t = peers s \<and>
     sv_requests t = sv_requests s \<and> sv_requested t = sv_requested s"

lemma wf_view_inv: "wf_view s t \<Longrightarrow> server_wf s \<Longrightarrow> server_wf t"
  by (auto simp: wf_view_def server_wf_def requests_owned_def)

lemma wf_close_acceptor: "server_wf s \<Longrightarrow> server_wf (close_acceptor rem s)"
  by (auto simp: server_wf_def requests_owned_def close_acceptor_eq split: option.splits)

lemma wf_close_probe: "server_wf s \<Longrightarrow> server_wf (close_health_check_peer s)"
  by (auto simp: server_wf_def requests_owned_def close_health_check_peer_eq)

lemma wf_with_requests:
  assumes "server_wf s" and "rm_shrinks (sv_requests s) r"
  shows "server_wf (sv_with_requests r s)"
  using assms unfolding server_wf_def requests_owned_def rm_shrinks_def rm_step_ok_def
  by (simp add: sv_with_requests_def) blast

text \<open>When all requests of a peer are completed, the peer may go.\<close>

lemma wf_erase_peer:
  assumes "server_wf s"
  shows "server_wf (sv_with_requests (rm_complete_peer pid ec (sv_requests s)) (s\<lparr>peers := remove_key pid (peers s)\<rparr>))"
proof -
  have inv: "rm_inv (sv_requests s)" using assms by (simp add: server_wf_def)
  have "rm_inv (fst (rm_complete_peer pid ec (sv_requests s)))"
    "next_request_id (fst (rm_complete_peer pid ec (sv_requests s))) = next_request_id (sv_requests s)"
    using shrinks_complete_peer [OF inv, of pid ec] by (simp_all add: rm_shrinks_def rm_step_ok_def)
  then show ?thesis
    using assms inv
    by (auto simp: server_wf_def requests_owned_def sv_with_requests_def rm_complete_peer_eq
        distinct_remove_key of_peer_def)
qed

lemma wf_close_peer: "server_wf s \<Longrightarrow> server_wf (close_peer pid s)"
  by (cases "pid \<in> map_keys (peers s)")
     (simp_all add: close_peer_eq wf_view_inv [OF _ wf_erase_peer [of s pid Operation_aborted]]
       wf_view_def sv_with_requests_def)

lemma wf_close_all:
  assumes "server_wf s"
  shows "server_wf (close_all_peers s)"
proof -
  have inv: "rm_inv (sv_requests s)" using assms by (simp add: server_wf_def)
  then show ?thesis
    using assms shrinks_complete_all [OF inv, of Operation_aborted]
    by (auto simp: server_wf_def requests_owned_def sv_with_requests_def rm_complete_all_eq
        close_all_peers_def rm_shrinks_def rm_step_ok_def)
qed

lemma wf_no_acceptor:
  assumes "server_wf s" and "acceptor s = None"
  shows "accepts s = []" "bound_path s = None"
proof -
  have "acceptor s = Some (fst x)" if "x \<in> set (accepts s)" for x
    using assms(1) that unfolding server_wf_def by blast
  then have "x \<notin> set (accepts s)" for x using assms(2) by fastforce
  then show "accepts s = []" by (metis list.set_intros(1) neq_Nil_conv)
  show "bound_path s = None" using assms unfolding server_wf_def by blast
qed

lemma wf_notify: "server_wf s \<Longrightarrow> server_wf (sv_notify t n s)"
  by (erule wf_view_inv [rotated]) (simp add: wf_view_def sv_ops)

lemma wf_acceptor:
  assumes "server_wf s" and "bound_path t \<noteq> None \<longrightarrow> acceptor t \<noteq> None" and "accepts t = []"
    and "health_peer t = health_peer s" "health_timeout t = health_timeout s" "peers t = peers s"
    "sv_requests t = sv_requests s" "sv_requested t = sv_requested s"
  shows "server_wf t"
  using assms unfolding server_wf_def requests_owned_def by simp

lemma wf_bind:
  assumes "server_wf s"
  shows "server_wf (server_bind ep rem os t s)"
proof (cases rule: server_bind_cases [of ep rem os t s])
  case 1
  then show ?thesis using assms by simp
next
  case (2 v ec)
  then obtain n a b rt where v: "v = s\<lparr>sv_next_ref := sv_next_ref s + n, acceptor := a, bound_path := b, sv_runtime := rt\<rparr>"
    "b = bound_path s \<or> a \<noteq> None" by blast
  note none = wf_no_acceptor [OF assms 2(3)]
  then have "server_wf v"
    using v(2) by (intro wf_acceptor [OF assms]) (auto simp: v(1) none)
  then show ?thesis
    by (simp add: 2(1) handle_bind_failed_def wf_notify wf_close_acceptor)
next
  case (3 k rt)
  show ?thesis
    unfolding 3(1) by (rule wf_acceptor [OF assms]) (simp_all add: sv_ops wf_no_acceptor [OF assms 3(3)])
qed

lemma wf_request:
  assumes "server_wf s" and "sv_requested (request_task pid data cb s) < 2 ^ 64"
  shows "server_wf (request_task pid data cb s)"
proof (cases "map_of (peers s) pid")
  case None
  then show ?thesis
    using wf_view_inv [OF _ assms(1)] by (simp add: request_task_def wf_view_def sv_ops)
next
  case (Some p)
  let ?rm = "sv_requests s"
  obtain rid rm where add: "rm_add (Some pid) cb (Some pid) ?rm = (rid, rm)" by fastforce
  have small: "sv_requested s < 2 ^ 64 - 1"
    using assms(2) Some by (simp add: request_task_def server_send_request_eq Let_def)
  have inv: "rm_inv ?rm" "next_request_id ?rm = of_nat (sv_requested s)"
    using assms(1) by (simp_all add: server_wf_def)
  then have "unat (next_request_id ?rm) < 2 ^ 64 - 1"
    using small by (simp add: unat_of_nat)
  note added = rm_add_ok [OF inv(1) this add]
  have next_id: "next_request_id rm = of_nat (Suc (sv_requested s))"
    using add inv(2) by (auto simp: rm_add_def Let_def add.commute split: if_splits)
  have pending: "set (pending_requests rm) \<subseteq>
      insert (rid, \<lparr>pr_peer_id = Some pid, pr_callback = cb\<rparr>) (set (pending_requests ?rm))"
    using add by (auto simp: rm_add_def Let_def split: if_splits)
  have "requests_owned (request_task pid data cb s)"
    using assms(1) pending Some map_of_Some_keys [OF Some]
    by (fastforce simp: server_wf_def requests_owned_def request_task_def server_send_request_eq Let_def add)
  then show ?thesis
    using assms(1) added(1) next_id Some
    by (simp add: server_wf_def request_task_def server_send_request_eq Let_def add)
qed

lemma wf_post: "server_wf s \<Longrightarrow> server_wf (sv_post u s)"
  by (erule wf_view_inv [rotated]) (simp add: wf_view_def sv_ops)

lemma wf_continue: "server_wf s \<Longrightarrow> server_wf (sv_continue u s)"
  by (erule wf_view_inv [rotated]) (simp add: wf_view_def sv_ops)

lemma wf_accept:
  assumes "server_wf s"
  shows "server_wf (server_accept t s)"
  using assms by (auto simp: server_accept_def server_wf_def requests_owned_def split: option.split)

lemma wf_accepted:
  assumes "server_wf s"
  shows "server_wf (handle_accepted_socket c t s)"
  using assms
  by (fastforce simp: handle_accepted_socket_def server_wf_def requests_owned_def sv_ops emplace_peer_def
      map_keys_def)

lemma wf_peer_closed: "server_wf s \<Longrightarrow> server_wf (peer_closed_task pid s)"
  by (rule wf_view_inv [OF _ wf_erase_peer [of s pid Connection_reset]])
     (simp_all add: wf_view_def peer_closed_task_def sv_with_requests_def Let_def)

lemma wf_stop: "server_wf s \<Longrightarrow> server_wf (stop_task rem s)"
  by (simp add: stop_task_def wf_close_acceptor wf_close_all wf_close_probe)

lemma wf_shutdown:
  assumes "server_wf s"
  shows "server_wf (shutdown_task rem s)"
proof -
  have "server_wf (s\<lparr>sv_silenced := x\<rparr>)" if "server_wf s" for x and s :: "'a server"
    using that by (rule wf_view_inv [rotated]) (simp add: wf_view_def)
  then show ?thesis
    using assms
    by (auto simp: shutdown_task_def Let_def wf_close_acceptor wf_close_all
        intro!: wf_post wf_close_probe split: option.split)
qed

lemma wf_probe_failed: "server_wf s \<Longrightarrow> server_wf (handle_health_check_failed rem ec t tm s)"
  by (simp add: handle_health_check_failed_def wf_notify wf_close_acceptor wf_close_probe)

lemma wf_task:
  assumes wf: "server_wf s" and "sv_requested (run_task ep rem os u s) < 2 ^ 64"
  shows "server_wf (run_task ep rem os u s)"
proof -
  have inv: "rm_inv (sv_requests s)" using wf by (simp add: server_wf_def)
  show ?thesis
  proof (cases u)
    case (St_bind t)
    then show ?thesis using wf_bind [OF wf] by simp
  next
    case (St_accept_done t ec c)
    then show ?thesis using wf by (simp add: accept_handler_def wf_notify wf_close_acceptor wf_continue)
  next
    case (St_request pid data cb)
    then show ?thesis using wf_request [OF wf] assms(2) by simp
  next
    case (St_response_received pid p rid data)
    then show ?thesis
      using wf wf_with_requests [OF wf shrinks_complete_of_peer [OF inv]] by (simp add: response_received_task_def)
  next
    case (St_error_occurred pid ec)
    then show ?thesis
      using wf_with_requests [OF wf shrinks_complete_peer [OF inv]] by (simp add: error_occurred_task_def)
  next
    case (St_probe_connected tm t ec)
    then show ?thesis
      using wf by (auto simp: server_wf_def requests_owned_def sv_bodies is_current_health_check_def)
  next
    case (St_health_check t)
    then show ?thesis
      using wf by (auto simp: server_wf_def requests_owned_def sv_bodies)
  qed (use wf in \<open>simp_all add: wf_accept wf_accepted wf_stop wf_shutdown wf_close_peer wf_peer_closed
      wf_probe_failed wf_close_probe probe_response_task_def\<close>,
      (rule wf_view_inv [OF _ wf], simp add: wf_view_def sv_bodies split: option.split)+)
qed

lemma wf_request_timer:
  assumes "server_wf s"
  shows "server_wf (server_request_timer s)"
proof -
  obtain rm out tc where r: "run_expired (sv_requests s) = (rm, out, tc)" by (rule prod_cases3)
  have "rm_inv (sv_requests s)" using assms by (simp add: server_wf_def)
  from wf_with_requests [OF assms shrinks_run_expired [OF this r]]
  have "server_wf (sv_with_requests (rm, out) s)" .
  then show ?thesis
    by (simp add: server_request_timer_def r server_request_timed_out_def wf_close_peer Let_def split: option.split)
qed

text \<open>How often a request was added only grows.\<close>

lemma bind_requested [simp]: "sv_requested (server_bind ep rem os t s) = sv_requested s"
proof (cases rule: server_bind_cases [of ep rem os t s])
  case (2 v ec)
  then obtain n a b rt where v: "v = s\<lparr>sv_next_ref := sv_next_ref s + n, acceptor := a, bound_path := b, sv_runtime := rt\<rparr>"
    by blast
  show ?thesis unfolding 2(1) v by (simp add: sv_bodies)
qed (simp_all add: sv_bodies)

lemma task_requested: "sv_requested s \<le> sv_requested (run_task ep rem os u s)"
  by (cases u) (simp_all add: sv_bodies handle_accepted_socket_def split: option.split)

lemma timer_requested [simp]: "sv_requested (server_request_timer s) = sv_requested s"
  by (simp add: server_request_timer_def server_request_timed_out_def sv_bodies split: prod.split option.split)

lemma begin_wf_view: "wf_view s (begin_server_function now f s)"
  by (cases f) (auto simp: wf_view_def if_exposed_def split: option.split prod.split)

lemma action_wf_view: "wf_view s (run_server_action verify now a s)"
  by (cases a) (auto simp: wf_view_def sv_ops schedule_bind_retry_def stop_health_check_timer_def
      start_health_check_timer_def split: prod.split)

lemma slot_wf_view: "wf_view s (server_peer_slot p sig s)"
proof -
  have "wf_view s (accepted_peer_slot p pid t c sig s)" for pid t c
    by (cases sig) (simp_all add: wf_view_def sv_ops)
  moreover have "wf_view s (probe_slot tm t sig s)" for tm t
    by (cases sig) (simp_all add: wf_view_def sv_ops)
  moreover have "wf_view s s" by (simp add: wf_view_def)
  ultimately show ?thesis
    by (simp add: server_peer_slot_def split: option.split)
qed

lemma shutdown_wf_view: "wf_view s (server_async_shutdown b s)"
  by (cases rule: shutdown_cases [of s b]) (simp_all add: wf_view_def sv_ops)

lemma wf_view_trans: "wf_view s t \<Longrightarrow> wf_view t u \<Longrightarrow> wf_view s u"
  by (auto simp: wf_view_def)

text \<open>Steps that touch none of this; the others are the tasks and the request timers.\<close>

definition held_step :: "'cb server \<Rightarrow> 'cb server \<Rightarrow> bool" where
  "held_step s t \<longleftrightarrow>
     wf_view s t \<or> t = server_request_timer s \<or>
     (\<exists>rid. t = s\<lparr>sv_requests := timer_expires rid (sv_requests s)\<rparr>) \<or>
     (\<exists>u us ep rem os. sv_io s = u # us \<and> t = run_task ep rem os u (s\<lparr>sv_io := us\<rparr>))"

lemma step_held:
  assumes "server_step verify ep rem s t"
  shows "held_step s t"
  using assms
proof (induction rule: server_step.induct)
  case (sv_take s d now e d' clock)
  have "wf_view s (s\<lparr>sv_disp := Some d'\<rparr>)" by (simp add: wf_view_def)
  then show ?case
    using wf_view_trans [of s, OF _ begin_wf_view] by (auto simp: held_step_def split: option.split)
next
  case (sv_action s a as clock)
  have "wf_view s (s\<lparr>sv_thread := as\<rparr>)" by (simp add: wf_view_def)
  then show ?case using wf_view_trans [of s, OF _ action_wf_view] by (auto simp: held_step_def)
next
  case (sv_peer_slot s xs p sig ys)
  have "wf_view s (s\<lparr>sv_signals := xs @ ys\<rparr>)" by (simp add: wf_view_def)
  then show ?case using wf_view_trans [of s, OF _ slot_wf_view] by (auto simp: held_step_def)
next
  case (sv_shutdown s b)
  then show ?case using shutdown_wf_view by (auto simp: held_step_def)
next
  case (sv_accept_done s xs a t ys ec c)
  then have "wf_view s (sv_post (St_accept_done t ec c) (s\<lparr>accepts := xs @ ys\<rparr>))"
    by (auto simp: wf_view_def sv_ops)
  then show ?case by (simp add: held_step_def)
qed (auto simp: held_step_def wf_view_def server_async_start_def server_async_stop_def
    server_async_send_def server_async_respond_def server_async_request_def
    server_async_close_peer_def sv_ops)

lemma held_requested: "held_step s t \<Longrightarrow> sv_requested s \<le> sv_requested t"
proof -
  assume step: "held_step s t"
  have "sv_requested s \<le> sv_requested (run_task ep rem os u (s\<lparr>sv_io := us\<rparr>))" for ep rem os u us
    using task_requested [of "s\<lparr>sv_io := us\<rparr>"] by simp
  then show ?thesis using step by (auto simp: held_step_def wf_view_def)
qed

lemma held_wf:
  assumes "held_step s t" and wf: "server_wf s" and small: "sv_requested t < 2 ^ 64"
  shows "server_wf t"
proof -
  have "server_wf (s\<lparr>sv_requests := timer_expires rid (sv_requests s)\<rparr>)" for rid
  proof -
    have "rm_inv (sv_requests s)" using wf by (simp add: server_wf_def)
    from timer_expires_ok [OF this, of rid] show ?thesis
      using wf by (auto simp: server_wf_def requests_owned_def rm_step_ok_def timer_expires_def
          split: option.splits)
  qed
  moreover have "server_wf (run_task ep rem os u (s\<lparr>sv_io := us\<rparr>))"
    if "t = run_task ep rem os u (s\<lparr>sv_io := us\<rparr>)" for ep rem os u us
  proof (rule wf_task)
    show "server_wf (s\<lparr>sv_io := us\<rparr>)" by (rule wf_view_inv [OF _ wf]) (simp add: wf_view_def)
  qed (use that small in simp)
  ultimately show ?thesis
    using assms(1) wf_request_timer [OF wf] wf_view_inv [OF _ wf] by (auto simp: held_step_def)
qed

definition held_inv :: "'cb server \<Rightarrow> bool" where
  "held_inv s \<longleftrightarrow> (sv_requested s < 2 ^ 64 \<longrightarrow> server_wf s)"

lemma wf_initial: "server_initial s \<Longrightarrow> server_wf s"
  by (auto simp: server_initial_def new_server_def server_wf_def requests_owned_def new_request_manager_def
      rm_inv_def)

interpretation server_holding: event_machine server_initial "server_step verify ep rem" held_inv
proof
  show "held_inv s" if "server_initial s" for s :: "'a server"
    using wf_initial [OF that] by (simp add: held_inv_def)
  show "held_inv t" if "held_inv s" "server_step verify ep rem s t" for s t :: "'a server"
    using step_held [OF that(2)] held_requested [of s t] held_wf [of s t] that(1)
    by (auto simp: held_inv_def)
qed

end
