(* ===== verification/Queue_Frames.thy ===== *)
theory Queue_Frames
  imports Owner_Queue
begin

text \<open>
  What an operation of one object leaves alone in its queue: the attachment, and the functions of a
  class it does not enqueue; and that a timer only ever enqueues functions of its own, so that it
  disturbs nothing.
\<close>

section \<open>The attachment\<close>

definition still_attached :: "u64 \<Rightarrow> 'f dispatcher option \<Rightarrow> 'f dispatcher option \<Rightarrow> bool" where
  "still_attached oid weak weak' \<longleftrightarrow>
     (weak' = None \<longleftrightarrow> weak = None) \<and>
     (\<forall>d'. weak' = Some d' \<longrightarrow> (\<exists>d. weak = Some d \<and> (oid \<in> object_ids d' \<longleftrightarrow> oid \<in> object_ids d)))"

lemma still_attached_refl [simp]: "still_attached oid weak weak"
  by (simp add: still_attached_def)

lemma still_attached_trans:
  "still_attached oid w1 w2 \<Longrightarrow> still_attached oid w2 w3 \<Longrightarrow> still_attached oid w1 w3"
  unfolding still_attached_def by (metis option.exhaust)

lemma still_attached_enqueue [simp]:
  "still_attached oid weak (snd (enqueue_to_dispatcher oid' f w weak))"
  by (auto simp: still_attached_def enqueue_to_dispatcher_def enqueue_def Let_def split: option.splits)

lemma still_attached_debounced [simp]:
  "still_attached oid weak (snd (fst (run_debounced wrap oid' x (dt, weak))))"
  by (cases x) (simp_all add: debounce_in_dispatcher_def split_beta Let_def)

lemma still_attached_timer_enqueue [simp]:
  "still_attached oid weak (snd (snd (timer_enqueue wrap oid' now i (t, weak))))"
  by (simp add: timer_enqueue_def split_beta)

lemma still_attached_call_timer [simp]:
  "still_attached oid weak (snd (call_timer_function wrap oid' now i (t, weak)))"
proof -
  let ?user = "case timer_function t of None \<Rightarrow> (True, weak)
      | Some f \<Rightarrow> enqueue_to_dispatcher oid' (wrap (Timer_user_call f)) when_immediately weak"
  have user: "still_attached oid weak (snd ?user)" by (auto split: option.split)
  have "still_attached oid weak (snd (snd (timer_enqueue wrap oid' now i (t, snd ?user))))"
    by (rule still_attached_trans [OF user]) simp
  then show ?thesis
    using user by (simp add: call_timer_function_def split_beta Let_def del: option.case_distrib)
qed

lemma still_attached_timer [simp]:
  "still_attached oid weak (snd (fst (run_timer wrap oid' now x (t, weak))))"
  by (cases x) (simp_all add: Let_def split_beta)

section \<open>Other functions\<close>

definition adds_others :: "('f \<Rightarrow> bool) \<Rightarrow> u64 \<Rightarrow> 'f dispatcher option \<Rightarrow> 'f dispatcher option \<Rightarrow> bool" where
  "adds_others C oid weak weak' \<longleftrightarrow>
     serves oid weak' = serves oid weak \<and> set (owned oid weak) \<subseteq> set (owned oid weak') \<and>
     (\<forall>T. immediate_class C T oid weak \<longrightarrow>
        immediate_class C T oid weak' \<and> filter C (owned oid weak') = filter C (owned oid weak))"

lemma adds_others_refl [simp]: "adds_others C oid weak weak"
  by (simp add: adds_others_def)

lemma adds_others_trans:
  "adds_others C oid w1 w2 \<Longrightarrow> adds_others C oid w2 w3 \<Longrightarrow> adds_others C oid w1 w3"
  unfolding adds_others_def by (metis order_trans)

lemma adds_others_enqueue:
  assumes "\<not> C f" and "0 \<le> w"
  shows "adds_others C oid weak (snd (enqueue_to_dispatcher oid f w weak))"
proof (cases "w = when_internal_detached \<and> serves oid weak")
  case True
  then obtain d where d: "weak = Some d" "\<not> exit_flag d" "oid \<in> object_ids d"
    by (auto simp: serves_def)
  let ?d = "snd (enqueue oid f w d)"
  have q: "queue ?d = \<lparr>object_id_value = oid, entry_function = f, entry_when = w\<rparr> # queue d"
    using True d by (simp add: enqueue_def Let_def)
  have "immediate_class C T oid (Some ?d)" if "immediate_class C T oid weak" for T
    using that enqueue_inv [of d w oid f] assms d(1) q by (auto simp: immediate_class_def own_entries_def)
  moreover have "owned oid (Some ?d) = f # owned oid weak"
    using d(1) q by (simp add: owned_def own_entries_def)
  moreover have "serves oid (Some ?d) = serves oid weak"
    using d(1) by (simp add: serves_def enqueue_fields)
  ultimately show ?thesis
    using assms(1) d(1) by (auto simp: adds_others_def enqueue_to_dispatcher_def split_beta)
next
  case False
  then show ?thesis
  proof (cases "serves oid weak")
    case True
    with False have "w \<noteq> when_internal_detached" "1 \<le> w"
      using assms(2) by (simp_all add: when_internal_detached_def)
    then show ?thesis
      using assms immediate_class_enqueue(1) [of C _ oid weak w f] filter_owned_other [of C f w oid weak]
      by (auto simp: adds_others_def)
  qed simp
qed

lemma adds_others_scheduled:
  assumes "adds_others (retry_control wrap) oid weak weak'" and "retry_queue wrap oid weak"
    and "retry_scheduled wrap oid weak dt"
  shows "retry_scheduled wrap oid weak' dt"
  using assms by (auto simp: adds_others_def retry_scheduled_def Let_def)

section \<open>A timer's closures\<close>

text \<open>
  The timer is only started with an interval of at least a millisecond, and its interval is never
  negative while a call is scheduled; whichever of the ids the calls carry.
\<close>

fun timer_closure_ok :: "'x dispatcher_timer \<Rightarrow> 'x timer_function \<Rightarrow> bool" where
  "timer_closure_ok t (Timer_start _ i) = (1 \<le> i)"
| "timer_closure_ok t (Timer_set_interval _) = False"
| "timer_closure_ok t (Call_function _) = (0 \<le> timer_interval t)"
| "timer_closure_ok t _ = True"

definition timer_ok ::
    "('x timer_function \<Rightarrow> 'f) \<Rightarrow> u64 \<Rightarrow> 'f dispatcher option \<Rightarrow> 'x dispatcher_timer \<Rightarrow> bool" where
  "timer_ok wrap oid weak t \<longleftrightarrow> (\<forall>x. wrap x \<in> set (owned oid weak) \<longrightarrow> timer_closure_ok t x)"

lemma timer_closure_enabled [simp]: "timer_closure_ok (t\<lparr>timer_enabled := b\<rparr>) x = timer_closure_ok t x"
  by (cases x) simp_all

lemma timer_ok_enabled [simp]: "timer_ok wrap oid weak (t\<lparr>timer_enabled := b\<rparr>) = timer_ok wrap oid weak t"
  by (simp add: timer_ok_def)

text \<open>
  The interface of a timer whose closures are embedded one to one into the functions of its owner.
  Its closures stay as above, and it adds only closures of its own.
\<close>

locale owned_timer =
  fixes wrap :: "'x timer_function \<Rightarrow> 'f"
  assumes wrap_inj: "wrap x = wrap y \<Longrightarrow> x = y"
begin

lemma ok_enqueue:
  assumes "timer_ok wrap oid weak t" and "\<And>x. f = wrap x \<Longrightarrow> timer_closure_ok t x"
  shows "timer_ok wrap oid (snd (enqueue_to_dispatcher oid f w weak)) t"
  using assms by (auto simp: timer_ok_def)

lemma ok_enqueue_own:
  assumes "timer_ok wrap oid weak t" and "timer_closure_ok t x"
  shows "timer_ok wrap oid (snd (enqueue_to_dispatcher oid (wrap x) w weak)) t"
  using assms wrap_inj by (intro ok_enqueue) auto

lemma call_ok:
  assumes ok: "timer_ok wrap oid weak t" and due: "0 \<le> timer_interval t"
    and clock: "clock_ok now" and other: "\<And>y. \<not> C (wrap y)"
    and r: "call_timer_function wrap oid now i (t, weak) = (t', weak')"
  shows "timer_ok wrap oid weak' t' \<and> adds_others C oid weak weak'"
proof (cases "i = current_function_id t")
  case False
  then show ?thesis using r ok by (auto simp: call_timer_function_def)
next
  case True
  have own: "adds_others C oid w0 (snd (enqueue_to_dispatcher oid (wrap y) w w0))" if "0 \<le> w" for w0 y w
    using adds_others_enqueue [of C "wrap y" w oid w0] other that by blast
  define u where "u = (case timer_function t of None \<Rightarrow> (True, weak)
      | Some f \<Rightarrow> enqueue_to_dispatcher oid (wrap (Timer_user_call f)) when_immediately weak)"
  have u: "timer_ok wrap oid (snd u) t" "adds_others C oid weak (snd u)"
    using ok ok_enqueue_own [OF ok] own [of when_immediately]
    by (auto simp: u_def when_immediately_def split: option.split)
  let ?w = "when_now now (snd u) + timer_interval t"
  let ?e = "enqueue_to_dispatcher oid (wrap (Call_function i)) ?w (snd u)"
  have "0 \<le> ?w" using when_now_nonneg [OF clock, of "snd u"] due by linarith
  then have e: "timer_ok wrap oid (snd ?e) t" "adds_others C oid weak (snd ?e)"
    using ok_enqueue_own [OF u(1), of "Call_function i"] due True
      adds_others_trans [OF u(2) own] by simp_all
  have "(t', weak') = (if \<not> fst u then (t\<lparr>timer_enabled := False\<rparr>, snd u)
      else (if \<not> fst ?e then t\<lparr>timer_enabled := False\<rparr> else t, snd ?e))"
    unfolding r [symmetric] using True
    by (simp add: call_timer_function_def timer_enqueue_def u_def [symmetric] split_beta Let_def
        del: option.case_distrib)
  then show ?thesis using u e by (auto split: if_splits)
qed

lemma run_ok:
  assumes ok: "timer_ok wrap oid weak t" and x: "timer_closure_ok t x" and clock: "clock_ok now"
    and other: "\<And>y. \<not> C (wrap y)" and r: "run_timer wrap oid now x (t, weak) = ((t', weak'), call)"
  shows "timer_ok wrap oid weak' t' \<and> adds_others C oid weak weak'"
proof (cases x)
  case (Timer_start f i)
  let ?t = "t\<lparr>current_function_id := current_function_id t + 1, timer_function := Some f, timer_interval := i\<rparr>"
  have "timer_closure_ok ?t y" if "wrap y \<in> set (owned oid weak)" for y
  proof -
    have "timer_closure_ok t y" using ok that by (simp add: timer_ok_def)
    then show ?thesis using x Timer_start by (cases y) auto
  qed
  then have "timer_ok wrap oid weak ?t" by (simp add: timer_ok_def)
  moreover have "call_timer_function wrap oid now (current_function_id ?t) (?t, weak) = (t', weak')"
    using Timer_start r by (simp add: Let_def)
  ultimately show ?thesis
    using x Timer_start by (intro call_ok [where C = C, OF _ _ clock]) (simp_all add: other)
next
  case Timer_stop
  have "timer_closure_ok t' y" if "wrap y \<in> set (owned oid weak)" for y
  proof -
    have "timer_closure_ok t y" using ok that by (simp add: timer_ok_def)
    then show ?thesis using r Timer_stop by (cases y) auto
  qed
  then show ?thesis using r Timer_stop by (auto simp: timer_ok_def)
next
  case (Call_function i)
  then show ?thesis using call_ok [where C = C, OF ok _ clock] other r x by auto
qed (use ok x r in auto)

end

section \<open>A debounced task\<close>

text \<open>A debounced task enqueues only its call, for the time it was given.\<close>

context retry_task
begin

lemma debounced_others:
  assumes "debounce_due x" and r: "run_debounced wrap oid x (dt, weak) = ((dt', weak'), call)"
  shows "adds_others (retry_control wrap) oid weak weak'"
proof (cases x)
  case (Debounce_in_dispatcher u w)
  let ?f = "wrap (Debounced_call (dt_generation dt + 1) u)"
  have "\<not> retry_control wrap ?f" by (simp add: wrap_control)
  then have "adds_others (retry_control wrap) oid weak (snd (enqueue_to_dispatcher oid ?f w weak))"
    using assms(1) Debounce_in_dispatcher by (intro adds_others_enqueue) simp_all
  then show ?thesis
    using r Debounce_in_dispatcher by (auto simp: debounce_in_dispatcher_def Let_def split: prod.splits if_splits)
qed (use r in auto)

lemma debounced_timer_ok:
  assumes "timer_ok timer oid weak t" and "\<And>y z. timer y \<noteq> wrap z"
    and r: "run_debounced wrap oid x (dt, weak) = ((dt', weak'), call)"
  shows "timer_ok timer oid weak' t"
proof -
  obtain M where M: "mset (owned oid weak') = mset (owned oid weak) + M" "\<forall>f \<in># M. f \<in> range wrap"
    using debounced_adds [OF r] by (auto simp: adds_only_def)
  have "timer y \<in> set (owned oid weak)" if "timer y \<in> set (owned oid weak')" for y
  proof -
    have "timer y \<in># mset (owned oid weak) + M" using that M(1) by (metis set_mset_mset)
    then show ?thesis using M(2) assms(2) by auto
  qed
  then show ?thesis using assms(1) by (simp add: timer_ok_def)
qed

end

end
