(* ===== verification/Server_Callbacks.thy ===== *)
theory Server_Callbacks
  imports Server_Requests Queue_Frames
begin

text \<open>
  The callbacks of requests: where each of them is (called, on the dispatcher, pending, or in a
  request not yet sent), and that steps move them but lose and invent none; and what a shutdown
  leaves.
\<close>

section \<open>Where the callbacks are\<close>

fun sf_callbacks :: "'cb server_function \<Rightarrow> 'cb multiset" where
  "sf_callbacks (Sf_callback cb _ _) = {#cb#}"
| "sf_callbacks _ = {#}"

fun sa_callbacks :: "'cb server_action \<Rightarrow> 'cb multiset" where
  "sa_callbacks (Sa_callback cb _ _) = {#cb#}"
| "sa_callbacks (Sa_enqueue f) = sf_callbacks f"
| "sa_callbacks _ = {#}"

fun st_callbacks :: "'cb server_task \<Rightarrow> 'cb multiset" where
  "st_callbacks (St_request _ _ cb) = {#cb#}"
| "st_callbacks _ = {#}"

definition owed :: "'cb server \<Rightarrow> 'cb multiset" where
  "owed s =
     image_mset fst (mset (sv_delivered s)) + (\<Sum>a \<in># mset (sv_thread s). sa_callbacks a) +
     (\<Sum>f \<in># mset (sv_own s). sf_callbacks f) + pending_callbacks (sv_requests s) +
     (\<Sum>u \<in># mset (sv_io s). st_callbacks u)"

lemma sum_callbacks [simp]:
  "(\<Sum>f \<in># image_mset (\<lambda>(cb, ec, data). Sf_callback cb ec data) M. sf_callbacks f) = image_mset fst M"
  by (induction M) auto

lemma owed_with_requests:
  assumes "rm_step_ok (sv_requests s) {#} (fst r) (snd r)" and "sv_serves s"
  shows "owed (sv_with_requests r s) = owed s"
proof -
  have "pending_callbacks (sv_requests s) = completed_callbacks (snd r) + pending_callbacks (fst r)"
    using assms(1) by (simp add: rm_step_ok_def)
  then show ?thesis
    using assms(2) by (simp add: owed_def sv_with_requests_def)
qed

text \<open>Everything else is unaffected by most of the state.\<close>

definition owed_view :: "'cb server \<Rightarrow> 'cb server \<Rightarrow> bool" where
  "owed_view s t \<longleftrightarrow>
     sv_delivered t = sv_delivered s \<and> sv_thread t = sv_thread s \<and> sv_requests t = sv_requests s \<and>
     sv_oid t = sv_oid s \<and> sv_serves t = sv_serves s \<and>
     (\<Sum>f \<in># mset (sv_own t). sf_callbacks f) = (\<Sum>f \<in># mset (sv_own s). sf_callbacks f) \<and>
     (\<Sum>u \<in># mset (sv_io t). st_callbacks u) = (\<Sum>u \<in># mset (sv_io s). st_callbacks u)"

lemma owed_viewD: "owed_view s t \<Longrightarrow> owed t = owed s"
  unfolding owed_view_def owed_def by (elim conjE) (simp only:)

lemma aborted_callbacks [simp]:
  "(\<Sum>u \<in># mset (aborted_accepts s). st_callbacks u) = {#}" "(\<Sum>u \<in># mset (aborted_waits s). st_callbacks u) = {#}"
  by (auto simp: aborted_accepts_def aborted_waits_def split: option.split)

lemma owed_close_acceptor: "owed_view s (close_acceptor rem s)"
  by (simp add: owed_view_def close_acceptor_eq)

lemma owed_close_probe: "owed_view s (close_health_check_peer s)"
  by (simp add: owed_view_def close_health_check_peer_eq)

lemma owed_view_refl [simp]: "owed_view s s"
  by (simp add: owed_view_def)

lemma owed_view_trans: "owed_view s t \<Longrightarrow> owed_view t u \<Longrightarrow> owed_view s u"
  unfolding owed_view_def by (elim conjE, intro conjI) (simp_all only:)

lemma owed_bind: "owed_view s (server_bind ep rem os t s)"
proof (cases rule: server_bind_cases [of ep rem os t s])
  case 1
  then show ?thesis by simp
next
  case (2 v ec)
  then obtain n a b rt where "v = s\<lparr>sv_next_ref := sv_next_ref s + n, acceptor := a, bound_path := b, sv_runtime := rt\<rparr>"
    by blast
  then show ?thesis unfolding 2(1) by (simp add: owed_view_def sv_bodies)
next
  case (3 k rt)
  then show ?thesis unfolding 3(1) by (simp add: owed_view_def sv_bodies)
qed

lemma owed_close_peer:
  assumes "server_wf s" and "sv_serves s"
  shows "owed (close_peer pid s) = owed s" "sv_serves (close_peer pid s)"
proof -
  let ?r = "rm_complete_peer pid Operation_aborted (sv_requests s)"
  have "rm_step_ok (sv_requests s) {#} (fst ?r) (snd ?r)"
    using shrinks_complete_peer assms(1) by (auto simp: rm_shrinks_def server_wf_def)
  then have "owed (sv_with_requests ?r s) = owed s" by (rule owed_with_requests [OF _ assms(2)])
  then show "owed (close_peer pid s) = owed s"
    by (simp add: close_peer_eq owed_def sv_with_requests_def)
  show "sv_serves (close_peer pid s)" using assms(2) by (simp add: close_peer_eq)
qed

lemma owed_close_all:
  assumes "server_wf s" and "sv_serves s"
  shows "owed (close_all_peers s) = owed s"
proof -
  let ?r = "rm_complete_all Operation_aborted (sv_requests s)"
  have "rm_step_ok (sv_requests s) {#} (fst ?r) (snd ?r)"
    using shrinks_complete_all assms(1) by (auto simp: rm_shrinks_def server_wf_def)
  then have "owed (sv_with_requests ?r s) = owed s" by (rule owed_with_requests [OF _ assms(2)])
  then show ?thesis
    by (simp add: close_all_peers_def owed_def sv_with_requests_def Let_def)
qed

lemma owed_stop:
  assumes "server_wf s" and "sv_serves s"
  shows "owed (stop_task rem s) = owed s" "owed (shutdown_task rem s) = owed s"
proof -
  have closed: "server_wf (close_acceptor rem s)" "sv_serves (close_acceptor rem s)"
    "owed (close_acceptor rem s) = owed s"
    using assms owed_viewD [OF owed_close_acceptor]
    by (simp_all add: wf_close_acceptor, simp add: close_acceptor_eq)
  note all = owed_close_all [OF closed(1,2)]
  show "owed (stop_task rem s) = owed s"
    using all closed(3) by (simp add: stop_task_def owed_viewD [OF owed_close_probe])
  let ?v = "(close_acceptor rem s)\<lparr>sv_silenced := sv_silenced s \<union> snd ` set (peers s)\<rparr>"
  have v: "server_wf ?v" "sv_serves ?v" "owed ?v = owed s"
    using closed wf_view_inv [of "close_acceptor rem s" ?v] by (simp_all add: wf_view_def owed_def)
  have "owed (shutdown_task rem s) = owed (close_all_peers ?v)"
    by (simp add: shutdown_task_def Let_def owed_def close_acceptor_eq close_health_check_peer_eq sv_post_def
        split: option.split)
  then show "owed (shutdown_task rem s) = owed s"
    using owed_close_all [OF v(1,2)] v(3) by simp
qed

lemma owed_request:
  assumes wf: "server_wf s" and "sv_serves s" and small: "sv_requested (request_task pid data cb s) < 2 ^ 64"
  shows "owed (request_task pid data cb s) = add_mset cb (owed s)"
proof (cases "map_of (peers s) pid")
  case None
  then show ?thesis using assms(2) by (simp add: request_task_def sv_ops owed_def)
next
  case (Some p)
  obtain rid rm where add: "rm_add (Some pid) cb (Some pid) (sv_requests s) = (rid, rm)" by fastforce
  have "unat (next_request_id (sv_requests s)) < 2 ^ 64 - 1"
    using wf small Some
    by (simp add: server_wf_def unat_of_nat request_task_def server_send_request_eq Let_def)
  then have "pending_callbacks rm = {#cb#} + pending_callbacks (sv_requests s)"
    using wf by (intro rm_add_ok(2) [OF _ _ add]) (simp_all add: server_wf_def)
  then show ?thesis
    using Some by (simp add: request_task_def server_send_request_eq Let_def add owed_def)
qed

lemma owed_task:
  assumes wf: "server_wf s" and alive: "sv_serves s" and small: "sv_requested (run_task ep rem os u s) < 2 ^ 64"
  shows "owed (run_task ep rem os u s) = owed s + st_callbacks u"
proof -
  have inv: "rm_inv (sv_requests s)" using wf by (simp add: server_wf_def)
  show ?thesis
  proof (cases u)
    case (St_bind t)
    then show ?thesis using owed_viewD [OF owed_bind] by simp
  next
    case St_stop
    then show ?thesis using owed_stop [OF wf alive] by simp
  next
    case St_shutdown
    then show ?thesis using owed_stop [OF wf alive] by simp
  next
    case (St_close_peer pid)
    then show ?thesis using owed_close_peer [OF wf alive] by simp
  next
    case (St_request pid data cb)
    then show ?thesis using owed_request [OF wf alive] small by simp
  next
    case (St_response_received pid p rid data)
    then show ?thesis
      using owed_with_requests [OF _ alive] shrinks_complete_of_peer [OF inv]
      by (simp add: response_received_task_def rm_shrinks_def)
  next
    case (St_error_occurred pid ec)
    then show ?thesis
      using owed_with_requests [OF _ alive] shrinks_complete_peer [OF inv]
      by (simp add: error_occurred_task_def rm_shrinks_def)
  next
    case (St_peer_closed pid)
    let ?r = "rm_complete_peer pid Connection_reset (sv_requests s)"
    have "owed (sv_with_requests ?r s) = owed s"
      using owed_with_requests [OF _ alive] shrinks_complete_peer [OF inv] by (simp add: rm_shrinks_def)
    then show ?thesis
      using St_peer_closed by (simp add: peer_closed_task_def owed_def sv_with_requests_def Let_def)
  qed (auto simp: owed_def sv_bodies handle_accepted_socket_def split: option.split)
qed

section \<open>Who is served\<close>

lemma serves_task: "sv_serves (run_task ep rem os u s) = sv_serves s"
proof (cases u)
  case (St_bind t)
  then show ?thesis
    unfolding St_bind run_task.simps using owed_bind [of s ep rem os t] unfolding owed_view_def by blast
qed (auto simp: sv_bodies handle_accepted_socket_def split: option.split)

lemma serves_request_timer: "sv_serves (server_request_timer s) = sv_serves s"
  by (auto simp: server_request_timer_def server_request_timed_out_def sv_bodies split: prod.split option.split)

lemma run_debounced_serves: "serves oid (snd (fst (run_debounced wrap oid x (dt, weak)))) = serves oid weak"
proof -
  obtain dt' weak' call where r: "run_debounced wrap oid x (dt, weak) = ((dt', weak'), call)"
    by (metis prod.exhaust)
  then show ?thesis using debounced_adds [OF r] by (simp add: adds_only_def)
qed

lemma run_timer_serves: "serves oid (snd (fst (run_timer wrap oid now x (t, weak)))) = serves oid weak"
  using timer_adds [of wrap oid weak now x t] unfolding adds_only_def by blast

lemma begin_serves: "sv_serves (begin_server_function now f s) = sv_serves s"
  by (cases f) (auto simp: if_exposed_def split_beta run_debounced_serves run_timer_serves split: option.split)

lemma action_serves: "sv_serves (run_server_action verify now a s) = sv_serves s"
  by (cases a) (simp_all add: sv_ops schedule_bind_retry_def debounce_after_def debounce_at_def
      debounce_cancel_def stop_health_check_timer_def start_health_check_timer_def timer_stop_def
      timer_start_def split_beta)

lemma slot_serves: "sv_serves (server_peer_slot p sig s) = sv_serves s"
proof -
  have "sv_serves (accepted_peer_slot p pid t c sig s) = sv_serves s" for pid t c
    by (cases sig) (simp_all add: sv_ops)
  moreover have "sv_serves (probe_slot tm t sig s) = sv_serves s" for tm t
    by (cases sig) (simp_all add: sv_ops)
  ultimately show ?thesis by (simp add: server_peer_slot_def split: option.split)
qed

lemma shutdown_not_served: "\<not> sv_shutdown_started s \<Longrightarrow> \<not> sv_serves (server_async_shutdown b s)"
  by (cases rule: shutdown_cases [of s b]) (simp_all add: sv_ops)

lemma serves_step:
  assumes "server_step verify ep rem s t" and "sv_serves t"
  shows "sv_serves s"
  using assms
proof (induction rule: server_step.induct)
  case (sv_shutdown s b)
  then show ?case
    using shutdown_not_served [of s b] by (cases "sv_shutdown_started s") (auto simp: server_async_shutdown_def)
next
  case (sv_take s d now e d' clock)
  then show ?case
    using take_owned(2) [OF sv_take(3,4)] by (simp add: begin_serves split: option.splits)
next
  case (sv_run s u us os)
  then show ?case by (simp add: serves_task [of _ _ _ _ "s\<lparr>sv_io := us\<rparr>", simplified])
next
  case (sv_other s d d')
  then show ?case using other_objects_owned(2) [OF sv_other(2)] by simp
next
  case (sv_action s a as clock)
  then show ?case by (simp add: action_serves [of _ _ _ "s\<lparr>sv_thread := as\<rparr>", simplified])
next
  case (sv_peer_slot s xs p sig ys)
  then show ?case by (simp add: slot_serves [of _ _ "s\<lparr>sv_signals := xs @ ys\<rparr>", simplified])
next
  case (sv_request_timer s)
  then show ?case by (simp add: serves_request_timer)
qed (simp_all add: server_async_start_def server_async_stop_def server_async_send_def
    server_async_respond_def server_async_request_def server_async_close_peer_def sv_ops)

section \<open>Every step\<close>

lemma sum_adds:
  assumes "adds_only P oid weak weak'" and "\<And>f. P f \<Longrightarrow> sf_callbacks f = {#}"
  shows "(\<Sum>f \<in># mset (owned oid weak'). sf_callbacks f) = (\<Sum>f \<in># mset (owned oid weak). sf_callbacks f)"
  using assms by (rule adds_only_sum)

lemma owed_begin:
  fixes v :: "'cb server"
  assumes "sv_thread v = []"
  shows "owed (begin_server_function now f v) = owed v + sf_callbacks f"
proof (cases f)
  case (Sf_retry g)
  obtain dt d call where r: "run_debounced Sf_retry (sv_oid v) g (bind_retry_task v, sv_disp v) = ((dt, d), call)"
    by (metis prod.exhaust)
  have "(\<Sum>f \<in># mset (owned (sv_oid v) d). sf_callbacks f) = (\<Sum>f \<in># mset (sv_own v). sf_callbacks f)"
    by (rule sum_adds [OF debounced_adds [OF r]]) auto
  then show ?thesis using Sf_retry r assms by (simp add: owed_def)
next
  case (Sf_timer g)
  let ?d = "snd (fst (run_timer Sf_timer (sv_oid v) now g (health_timer v, sv_disp v)))"
  have "(\<Sum>f \<in># mset (owned (sv_oid v) ?d). sf_callbacks f) = (\<Sum>f \<in># mset (sv_own v). sf_callbacks f)"
    by (rule sum_adds [OF timer_adds]) auto
  then show ?thesis using Sf_timer assms by (simp add: owed_def split_beta)
next
  case (Sf_scoped t n)
  have "(\<Sum>a \<in># mset (server_notification_actions n :: 'cb server_action list). sa_callbacks a) = {#}"
    by (cases n) simp_all
  then show ?thesis using Sf_scoped assms by (simp add: owed_def run_scoped_def)
qed (use assms in \<open>simp_all add: owed_def if_exposed_def\<close>)

lemma owed_action:
  assumes "sv_serves s" and "sv_thread s = a # as"
  shows "owed (run_server_action verify now a (s\<lparr>sv_thread := as\<rparr>)) = owed s"
  using assms
  by (cases a) (simp_all add: owed_def sv_ops schedule_bind_retry_def debounce_after_def debounce_at_def
      debounce_cancel_def stop_health_check_timer_def start_health_check_timer_def timer_stop_def
      timer_start_def split_beta)

lemma owed_slot:
  assumes "sv_thread s = []"
  shows "owed (server_peer_slot p sig s) = owed s"
proof -
  have "owed (accepted_peer_slot p pid t c sig s) = owed s" for pid t c
    using assms by (cases sig) (simp_all add: owed_def sv_ops)
  moreover have "owed (probe_slot tm t sig s) = owed s" for tm t
    by (cases sig) (simp_all add: owed_def sv_ops)
  ultimately show ?thesis by (simp add: server_peer_slot_def split: option.split)
qed

lemma owed_request_timer:
  assumes wf: "server_wf s" and alive: "sv_serves s"
  shows "owed (server_request_timer s) = owed s"
proof -
  obtain rm out tc where r: "run_expired (sv_requests s) = (rm, out, tc)" by (rule prod_cases3)
  have "rm_inv (sv_requests s)" using wf by (simp add: server_wf_def)
  from shrinks_run_expired [OF this r] have shrinks: "rm_shrinks (sv_requests s) (rm, out)" .
  let ?v = "sv_with_requests (rm, out) s"
  have v: "owed ?v = owed s" "server_wf ?v" "sv_serves ?v"
    using owed_with_requests [OF _ alive] wf_with_requests [OF wf shrinks] shrinks alive
    by (simp_all add: rm_shrinks_def, simp add: sv_with_requests_def)
  then show ?thesis
    using owed_close_peer(1) [OF v(2,3)]
    by (simp add: server_request_timer_def r server_request_timed_out_def Let_def split: option.split)
qed

lemma owed_step:
  assumes "server_step verify ep rem s t" and "server_wf s" and "sv_requested t < 2 ^ 64" and "sv_serves t"
  shows "owed t = owed s \<or>
    (\<exists>pid data cb. t = server_async_request pid data cb s \<and> owed t = add_mset cb (owed s))"
  using assms
proof (induction rule: server_step.induct)
  case (sv_request s pid data cb)
  then show ?case by (auto simp: server_async_request_def sv_post_def owed_def)
next
  case (sv_shutdown s b)
  then show ?case
    using shutdown_not_served [of s b] by (cases "sv_shutdown_started s") (auto simp: server_async_shutdown_def)
next
  case (sv_take s d now e d' clock)
  let ?v = "s\<lparr>sv_disp := Some d'\<rparr>"
  have "sv_serves ?v" using sv_take.prems(3) by (simp add: begin_serves split: option.splits)
  then obtain f where f: "call_function e d' = Some f" "f = entry_function e"
    using take_owned(2,3) [OF sv_take(3,4)] by (auto simp: call_function_def split: if_splits)
  have "sv_own s = f # sv_own ?v"
    using take_owned(1) [OF sv_take(3,4)] sv_take(2) f(2) by simp
  then have "owed s = owed ?v + sf_callbacks f" by (simp add: owed_def)
  then show ?case using owed_begin [of ?v clock f] sv_take(1) f(1) by simp
next
  case (sv_action s a as clock)
  have "sv_serves s"
    using sv_action.prems(3) by (simp add: action_serves [of _ _ _ "s\<lparr>sv_thread := as\<rparr>", simplified])
  then show ?case using owed_action [OF _ sv_action(1)] by blast
next
  case (sv_run s u us os)
  let ?v = "s\<lparr>sv_io := us\<rparr>"
  have "server_wf ?v" by (rule wf_view_inv [OF _ sv_run(2)]) (simp add: wf_view_def)
  moreover have "sv_serves ?v" using sv_run.prems(3) serves_task by blast
  ultimately have "owed (run_task ep rem os u ?v) = owed ?v + st_callbacks u"
    using sv_run.prems(2) by (intro owed_task)
  then show ?case using sv_run(1) by (simp add: owed_def)
next
  case (sv_request_timer s)
  then show ?case using owed_request_timer [of s] by (simp add: serves_request_timer)
next
  case (sv_request_expires s rid)
  have "rm_inv (sv_requests s)" using sv_request_expires by (simp add: server_wf_def)
  from timer_expires_ok [OF this, of rid]
  show ?case by (simp add: rm_step_ok_def owed_def)
next
  case (sv_peer_slot s xs p sig ys)
  then show ?case
    using owed_slot [of "s\<lparr>sv_signals := xs @ ys\<rparr>" p sig] by (simp add: owed_def)
next
  case (sv_other s d d')
  then show ?case using other_objects_owned(1) [OF sv_other(2)] by (simp add: owed_def)
qed (simp_all add: server_async_start_def server_async_stop_def server_async_send_def
    server_async_respond_def server_async_close_peer_def sv_ops owed_def)

section \<open>After a shutdown\<close>

fun silent_action :: "'cb server_action \<Rightarrow> bool" where
  "silent_action (Sa_signal _) = False"
| "silent_action (Sa_callback _ _ _) = False"
| "silent_action _ = True"

text \<open>
  The dispatcher serves the server no more, and what runs is silent: a verifier call in progress
  may still want to report its peer, but then the slots are disconnected.
\<close>

definition silent_from ::
    "server_signal list \<Rightarrow> ('cb \<times> error_code \<times> bytes option) list \<Rightarrow> 'cb server \<Rightarrow> bool" where
  "silent_from log out s \<longleftrightarrow>
     \<not> sv_serves s \<and> sv_shutdown_started s \<and>
     (\<not> sv_slots s \<or> (\<forall>a \<in> set (sv_thread s). silent_action a \<and> (\<forall>pid c. a \<noteq> Sa_verify pid c))) \<and>
     (\<forall>cb ec data. Sa_callback cb ec data \<notin> set (sv_thread s)) \<and>
     sv_log s = log \<and> sv_delivered s = out"

text \<open>Until the shutdown nothing of the server runs unless it is attached to a dispatcher.\<close>

definition server_attached :: "'cb server \<Rightarrow> bool" where
  "server_attached s \<longleftrightarrow> (\<exists>d. sv_disp s = Some d \<and> sv_oid s \<in> object_ids d)"

definition attached_inv :: "'cb server \<Rightarrow> bool" where
  "attached_inv s \<longleftrightarrow>
     sv_shutdown_started s \<or> server_attached s \<or> (\<forall>a \<in> set (sv_thread s). \<exists>f. a = Sa_enqueue f)"

lemma still_attached_callbacks [simp]: "still_attached oid weak (enqueue_callbacks oid' out weak)"
proof (induction oid' out weak rule: enqueue_callbacks.induct)
  case (2 oid' cb ec data out weak)
  show ?case using still_attached_trans [OF still_attached_enqueue 2] by simp
qed simp

text \<open>Steps keep what a function needs to run, and what the signals are.\<close>

definition quiet_view :: "'cb server \<Rightarrow> 'cb server \<Rightarrow> bool" where
  "quiet_view s t \<longleftrightarrow>
     sv_thread t = sv_thread s \<and> sv_slots t = sv_slots s \<and> sv_log t = sv_log s \<and>
     sv_delivered t = sv_delivered s \<and> sv_shutdown_started t = sv_shutdown_started s \<and>
     sv_oid t = sv_oid s \<and> still_attached (sv_oid s) (sv_disp s) (sv_disp t)"

lemma quiet_bind: "quiet_view s (server_bind ep rem os t s)"
proof (cases rule: server_bind_cases [of ep rem os t s])
  case 1
  then show ?thesis by (simp add: quiet_view_def)
next
  case (2 v ec)
  then obtain n a b rt where "v = s\<lparr>sv_next_ref := sv_next_ref s + n, acceptor := a, bound_path := b, sv_runtime := rt\<rparr>"
    by blast
  then show ?thesis unfolding 2(1) by (simp add: quiet_view_def sv_bodies)
next
  case (3 k rt)
  then show ?thesis unfolding 3(1) by (simp add: quiet_view_def sv_bodies)
qed

lemma quiet_task: "quiet_view s (run_task ep rem os u s)"
proof (cases u)
  case (St_bind t)
  then show ?thesis using quiet_bind by simp
qed (simp_all add: quiet_view_def sv_bodies handle_accepted_socket_def split: option.split)

lemma quiet_request_timer: "quiet_view s (server_request_timer s)"
  by (simp add: quiet_view_def server_request_timer_def server_request_timed_out_def sv_bodies
      still_attached_trans [OF still_attached_callbacks still_attached_callbacks]
      split: prod.split option.split)

lemma attached_begin:
  fixes v :: "'cb server"
  shows "sv_oid (begin_server_function now f v) = sv_oid v"
    "sv_slots (begin_server_function now f v) = sv_slots v"
    "sv_shutdown_started (begin_server_function now f v) = sv_shutdown_started v"
    "still_attached (sv_oid v) (sv_disp v) (sv_disp (begin_server_function now f v))"
  by (cases f; simp add: if_exposed_def split_beta split: option.split)+

lemma attached_action:
  fixes v :: "'cb server"
  shows "sv_oid (run_server_action verify now a v) = sv_oid v"
    "sv_slots (run_server_action verify now a v) = sv_slots v"
    "sv_shutdown_started (run_server_action verify now a v) = sv_shutdown_started v"
    "still_attached (sv_oid v) (sv_disp v) (sv_disp (run_server_action verify now a v))"
  by (cases a; simp add: sv_ops schedule_bind_retry_def debounce_after_def debounce_at_def
      debounce_cancel_def stop_health_check_timer_def start_health_check_timer_def timer_stop_def
      timer_start_def split_beta)+

lemma attached_view:
  assumes "attached_inv s" and "still_attached (sv_oid s) (sv_disp s) (sv_disp t)" and "sv_oid t = sv_oid s"
    and "sv_shutdown_started s \<Longrightarrow> sv_shutdown_started t"
    and "\<And>a. a \<in> set (sv_thread t) \<Longrightarrow> \<not> server_attached s \<Longrightarrow> \<not> sv_shutdown_started s \<Longrightarrow>
      a \<in> set (sv_thread s) \<or> (\<exists>f. a = Sa_enqueue f)"
  shows "attached_inv t"
proof -
  have "server_attached t" if attached: "server_attached s"
  proof -
    obtain d where d: "sv_disp s = Some d" "sv_oid s \<in> object_ids d"
      using attached by (auto simp: server_attached_def)
    then obtain d' where "sv_disp t = Some d'" using assms(2) by (auto simp: still_attached_def)
    then show ?thesis using d assms(2,3) by (auto simp: still_attached_def server_attached_def)
  qed
  then show ?thesis
    using assms(1,4,5) unfolding attached_inv_def by blast
qed

lemma attached_quiet: "quiet_view s t \<Longrightarrow> attached_inv s \<Longrightarrow> attached_inv t"
  by (rule attached_view [of s t]) (simp_all add: quiet_view_def)

lemma attached_step:
  assumes "server_step verify ep rem s t" and "attached_inv s"
  shows "attached_inv t"
  using assms
proof (induction rule: server_step.induct)
  case (sv_shutdown s b)
  have "sv_shutdown_started (server_async_shutdown b s)"
    by (cases rule: shutdown_cases [of s b]) (simp_all add: sv_ops)
  then show ?case by (simp add: attached_inv_def)
next
  case (sv_take s d now e d' clock)
  let ?v = "s\<lparr>sv_disp := Some d'\<rparr>"
  have ids: "object_ids d' = object_ids d"
    using sv_take(3) by (auto simp: worker_iteration_def split: if_splits list.splits)
  then have v: "attached_inv ?v" using sv_take by (simp add: attached_inv_def)
  have "attached_inv (begin_server_function clock f ?v)" if "call_function e d' = Some f" for f
  proof (rule attached_view [OF v])
    have "server_attached ?v"
      using that sv_take(4) by (auto simp: server_attached_def call_function_def split: if_splits)
    then show "a \<in> set (sv_thread ?v) \<or> (\<exists>f. a = Sa_enqueue f)"
      if "\<not> server_attached ?v" for a :: "'a server_action" using that by blast
  qed (simp_all add: attached_begin attached_begin(4) [where v = ?v, simplified])
  then show ?case using v by (simp split: option.split)
next
  case (sv_action s a as clock)
  let ?v = "s\<lparr>sv_thread := as\<rparr>"
  have v: "attached_inv ?v" using sv_action by (auto simp: attached_inv_def server_attached_def)
  have "attached_inv (run_server_action verify clock a ?v)" if "server_attached s \<or> sv_shutdown_started s"
    using that by (intro attached_view [OF v])
      (auto simp: attached_action attached_action(4) [where v = ?v, simplified] server_attached_def)
  moreover have "attached_inv (run_server_action verify clock a ?v)"
    if "\<not> server_attached s" "\<not> sv_shutdown_started s"
    using that sv_action by (auto simp: attached_inv_def sv_enqueue_def)
  ultimately show ?case by blast
next
  case (sv_run s u us os)
  then show ?case
    using attached_quiet [OF quiet_task [of "s\<lparr>sv_io := us\<rparr>"]] by (simp add: attached_inv_def server_attached_def)
next
  case (sv_request_timer s)
  then show ?case using attached_quiet [OF quiet_request_timer] by blast
next
  case (sv_peer_slot s xs p sig ys)
  let ?v = "s\<lparr>sv_signals := xs @ ys\<rparr>"
  have v: "attached_inv ?v" using sv_peer_slot by (simp add: attached_inv_def server_attached_def)
  have "attached_inv (accepted_peer_slot p pid t c sig ?v)" for pid t c
    by (rule attached_view [OF v]; cases sig; simp add: sv_ops)
  moreover have "attached_inv (probe_slot tm t sig ?v)" for tm t
    by (rule attached_view [OF v]; cases sig; simp add: sv_ops split: if_splits)
  ultimately show ?case using v by (simp add: server_peer_slot_def split: option.split)
next
  case (sv_other s d d')
  then show ?case by (auto simp: attached_inv_def server_attached_def other_objects_def)
next
  case (sv_dispatcher_gone s)
  then show ?case by (simp add: attached_inv_def)
qed (auto simp: server_async_start_def server_async_stop_def server_async_send_def server_async_respond_def
    server_async_request_def server_async_close_peer_def sv_ops attached_inv_def server_attached_def
    enqueue_to_dispatcher_def enqueue_def split: option.splits)

lemma attached_initial: "server_initial s \<Longrightarrow> attached_inv s"
  by (auto simp: server_initial_def new_server_def attached_inv_def attach_def dispatcher_inv_def)

lemma silent_after_shutdown:
  assumes inv: "attached_inv s" and new: "\<not> sv_shutdown_started s" and "user_code (sv_thread s)"
    and "sv_thread s \<noteq> [] \<Longrightarrow> b"
  shows "silent_from (sv_log s) (sv_delivered s) (server_async_shutdown b s)"
proof -
  let ?t = "server_async_shutdown b s"
  have same: "sv_thread ?t = sv_thread s" "sv_log ?t = sv_log s" "sv_delivered ?t = sv_delivered s"
    "sv_shutdown_started ?t"
    by (auto simp: server_async_shutdown_def server_detach_def server_cleanup_def Let_def sv_ops
        debounce_cancel_def stop_health_check_timer_def timer_stop_def enqueue_to_dispatcher_def
        split: option.splits prod.splits bool.splits)
  have "\<not> sv_slots ?t \<or> sv_thread s = []"
  proof (cases "server_attached s")
    case False
    then have "\<forall>a \<in> set (sv_thread s). \<exists>f. a = Sa_enqueue f" using inv new by (simp add: attached_inv_def)
    then show ?thesis using assms(3) by (cases "sv_thread s" rule: user_code.cases) auto
  next
    case True
    then have "\<not> sv_slots ?t" if b
      using that new
      by (auto simp: server_attached_def server_async_shutdown_def server_detach_def detach_def
          server_cleanup_def Let_def sv_ops)
    then show ?thesis using assms(4) by blast
  qed
  moreover have "Sa_callback cb ec data \<notin> set (sv_thread s)" for cb ec data
    using assms(3) by (cases "sv_thread s" rule: user_code.cases) auto
  ultimately show ?thesis
    using same shutdown_not_served [OF new] by (auto simp: silent_from_def)
qed

lemma silent_quiet:
  assumes "quiet_view s t" and "\<not> sv_serves t" and "silent_from log out s"
  shows "silent_from log out t"
  using assms by (simp add: silent_from_def quiet_view_def)

lemma silent_step:
  assumes step: "server_step verify ep rem s t" and silent: "silent_from log out s"
  shows "silent_from log out t"
proof -
  have dead: "\<not> sv_serves t"
    using serves_step [OF step] silent by (auto simp: silent_from_def)
  show ?thesis
    using step silent dead
  proof (induction rule: server_step.induct)
    case (sv_shutdown s b)
    then show ?case by (simp add: silent_from_def server_async_shutdown_def)
  next
    case (sv_take s d now e d' clock)
    have "\<not> sv_serves s" using sv_take.prems(1) by (simp add: silent_from_def)
    then have "call_function e d' = None" using take_owned(3) [OF sv_take(3,4)] sv_take(2) by simp
    then show ?case using sv_take.prems by (simp add: silent_from_def)
  next
    case (sv_action s a as clock)
    then show ?case
      by (cases a) (auto simp: silent_from_def sv_ops schedule_bind_retry_def debounce_after_def debounce_at_def
          debounce_cancel_def stop_health_check_timer_def start_health_check_timer_def timer_stop_def
          timer_start_def split_beta)
  next
    case (sv_run s u us os)
    then show ?case
      using silent_quiet [OF quiet_task [of "s\<lparr>sv_io := us\<rparr>"]] by (simp add: silent_from_def)
  next
    case (sv_request_timer s)
    then show ?case using silent_quiet [OF quiet_request_timer] by blast
  next
    case (sv_peer_slot s xs p sig ys)
    let ?v = "s\<lparr>sv_signals := xs @ ys\<rparr>"
    have v: "silent_from log out ?v" using sv_peer_slot.prems(1) by (simp add: silent_from_def)
    then have "\<not> sv_serves ?v" by (simp add: silent_from_def)
    then have "silent_from log out (accepted_peer_slot p pid t c sig ?v)" for pid t c
      using v by (cases sig) (simp_all add: silent_from_def sv_ops)
    moreover have "silent_from log out (probe_slot tm t sig ?v)" for tm t
      using v by (cases sig) (simp_all add: silent_from_def sv_ops)
    ultimately show ?case using v by (simp add: server_peer_slot_def split: option.split)
  qed (simp_all add: silent_from_def server_async_start_def server_async_stop_def
      server_async_send_def server_async_respond_def server_async_request_def
      server_async_close_peer_def sv_ops)
qed

interpretation server_attachment: event_machine server_initial "server_step verify ep rem" attached_inv
  by unfold_locales (fact attached_initial, blast intro: attached_step)

end
