(* ===== verification/Server_Progress.thy ===== *)
theory Server_Progress
  imports Server_Callbacks
begin

text \<open>
  That a stopped server holds nothing, and that a running server accepts connections or will try to
  bind again: the two invariants about its acceptor, over all interleavings of its threads.
\<close>

section \<open>What a stopped server holds\<close>

text \<open>A close of everything is about to be posted or posted.\<close>

definition sv_closing :: "'cb server \<Rightarrow> bool" where
  "sv_closing s \<longleftrightarrow> Sa_post_stop \<in> set (sv_thread s) \<or> St_stop \<in> set (sv_io s) \<or> St_shutdown \<in> set (sv_io s)"

definition sv_holds :: "'cb server \<Rightarrow> bool" where
  "sv_holds s \<longleftrightarrow> acceptor s \<noteq> None \<or> peers s \<noteq> [] \<or> health_timeout s \<noteq> None \<or> health_peer s \<noteq> None"

definition stopped_inv :: "'cb server \<Rightarrow> bool" where
  "stopped_inv s \<longleftrightarrow> scope_running (sv_scope s) \<or> sv_closing s \<or> \<not> sv_holds s"

text \<open>A step that opens nothing and takes no close away.\<close>

definition opens_nothing :: "'cb server \<Rightarrow> 'cb server \<Rightarrow> bool" where
  "opens_nothing s t \<longleftrightarrow>
     (scope_running (sv_scope s) \<longrightarrow> scope_running (sv_scope t)) \<and> (sv_holds t \<longrightarrow> sv_holds s) \<and>
     (sv_closing s \<longrightarrow> sv_closing t)"

lemma opens_nothing_inv: "opens_nothing s t \<Longrightarrow> stopped_inv s \<Longrightarrow> stopped_inv t"
  by (auto simp: opens_nothing_def stopped_inv_def)

lemma task_scope: "sv_scope (run_task ep rem os u s) = sv_scope s"
proof (cases u)
  case (St_bind t)
  then show ?thesis
  proof (cases rule: server_bind_cases [of ep rem os t s])
    case (2 v ec)
    then obtain n a b rt where v: "v = s\<lparr>sv_next_ref := sv_next_ref s + n, acceptor := a, bound_path := b, sv_runtime := rt\<rparr>"
      by blast
    show ?thesis using 2(1) St_bind by (simp add: v sv_bodies)
  qed (simp_all add: sv_bodies)
qed (simp_all add: sv_bodies handle_accepted_socket_def split: option.split)

lemma task_io: "set (sv_io s) \<subseteq> set (sv_io (run_task ep rem os u s))"
proof (cases u)
  case (St_bind t)
  then show ?thesis
  proof (cases rule: server_bind_cases [of ep rem os t s])
    case (2 v ec)
    then obtain n a b rt where v: "v = s\<lparr>sv_next_ref := sv_next_ref s + n, acceptor := a, bound_path := b, sv_runtime := rt\<rparr>"
      by blast
    have "set (sv_io s) \<subseteq> set (sv_io (server_bind ep rem os t s))" unfolding 2(1) v by (auto simp: sv_bodies)
    then show ?thesis using St_bind by simp
  qed (auto simp: sv_bodies)
qed (auto simp: sv_bodies handle_accepted_socket_def split: option.split)

lemma task_holds:
  assumes "\<not> scope_running (sv_scope s)" and "sv_holds (run_task ep rem os u s)"
  shows "sv_holds s"
  using assms
  by (cases u) (auto simp: sv_holds_def sv_bodies server_bind_def handle_accepted_socket_def is_current_def
      is_current_health_check_def remove_key_def split: option.splits if_splits)

lemma closed_holds: "\<not> sv_holds (stop_task rem s)" "\<not> sv_holds (shutdown_task rem s)"
  by (simp_all add: sv_holds_def stop_task_def shutdown_task_def sv_closings sv_ops split: option.split)

lemma stopped_task:
  assumes "stopped_inv s" and "sv_io s = u # us"
  shows "stopped_inv (run_task ep rem os u (s\<lparr>sv_io := us\<rparr>))"
proof (cases "u = St_stop \<or> u = St_shutdown")
  case True
  then show ?thesis using closed_holds [of rem "s\<lparr>sv_io := us\<rparr>"] by (auto simp: stopped_inv_def)
next
  case False
  let ?v = "s\<lparr>sv_io := us\<rparr>"
  have "stopped_inv ?v" using False assms by (auto simp: stopped_inv_def sv_closing_def sv_holds_def)
  moreover have "sv_closing (run_task ep rem os u ?v)" if "sv_closing ?v"
    using that task_io [of ?v ep rem os u] quiet_task [of ?v ep rem os u]
    by (auto simp: sv_closing_def quiet_view_def)
  ultimately show ?thesis
    using task_scope [of ep rem os u ?v] task_holds [of ?v ep rem os u] by (auto simp: stopped_inv_def)
qed

lemma request_timer_opens: "opens_nothing s (server_request_timer s)"
  by (auto simp: opens_nothing_def sv_holds_def sv_closing_def server_request_timer_def
      server_request_timed_out_def sv_bodies remove_key_def split: prod.splits option.splits if_splits)

lemma stopped_step:
  assumes "server_step verify ep rem s t" and "stopped_inv s"
  shows "stopped_inv t"
  using assms
proof (induction rule: server_step.induct)
  case (sv_shutdown s b)
  then show ?case
    by (cases rule: shutdown_cases [of s b]) (simp_all add: stopped_inv_def sv_closing_def sv_ops)
next
  case (sv_take s d now e d' clock)
  have "stopped_inv (begin_server_function clock f (s\<lparr>sv_disp := Some d'\<rparr>))" for f
    using sv_take(1,6,7)
    by (cases f) (auto simp: stopped_inv_def sv_closing_def sv_holds_def if_exposed_def scope_start_def
        split: option.split prod.split)
  moreover have "stopped_inv (s\<lparr>sv_disp := Some d'\<rparr>)"
    using sv_take.prems by (simp add: stopped_inv_def sv_closing_def sv_holds_def)
  ultimately show ?case by (simp split: option.split)
next
  case (sv_action s a as clock)
  have "opens_nothing s (run_server_action verify clock a (s\<lparr>sv_thread := as\<rparr>))"
    using sv_action(1)
    by (cases a) (auto simp: opens_nothing_def sv_closing_def sv_holds_def sv_ops schedule_bind_retry_def
        stop_health_check_timer_def start_health_check_timer_def split: prod.splits)
  then show ?case using sv_action.prems by (rule opens_nothing_inv)
next
  case (sv_run s u us os)
  then show ?case by (intro stopped_task)
next
  case (sv_request_timer s)
  show ?case using request_timer_opens sv_request_timer.prems by (rule opens_nothing_inv)
next
  case (sv_peer_slot s xs p sig ys)
  let ?v = "s\<lparr>sv_signals := xs @ ys\<rparr>"
  have v: "stopped_inv ?v" "sv_thread ?v = []"
    using sv_peer_slot by (simp_all add: stopped_inv_def sv_closing_def sv_holds_def)
  then have "stopped_inv (accepted_peer_slot p pid t c sig ?v)" for pid t c
    by (cases sig) (auto simp: stopped_inv_def sv_closing_def sv_holds_def sv_ops)
  moreover have "stopped_inv (probe_slot tm t sig ?v)" for tm t
    using v by (cases sig) (auto simp: stopped_inv_def sv_closing_def sv_holds_def sv_ops)
  ultimately show ?case using v by (simp add: server_peer_slot_def split: option.split)
qed (auto simp: server_async_start_def server_async_stop_def server_async_send_def
    server_async_respond_def server_async_request_def server_async_close_peer_def sv_ops
    stopped_inv_def sv_closing_def sv_holds_def)

lemma stopped_initial: "server_initial s \<Longrightarrow> stopped_inv s"
  by (auto simp: server_initial_def new_server_def stopped_inv_def sv_holds_def)

interpretation server_stopping: event_machine server_initial "server_step verify ep rem" stopped_inv
  by unfold_locales (fact stopped_initial, blast intro: stopped_step)

section \<open>The queue, again\<close>

interpretation server_retry: retry_task Sf_retry
  by unfold_locales simp

interpretation server_timer: owned_timer Sf_timer
  by unfold_locales simp

text \<open>Functions that are neither the retry's nor the timer's, and queues that gain only such.\<close>

fun plain_function :: "'cb server_function \<Rightarrow> bool" where
  "plain_function (Sf_retry _) = False"
| "plain_function (Sf_timer _) = False"
| "plain_function _ = True"

abbreviation sv_retry_queue :: "u64 \<Rightarrow> 'cb server_function dispatcher option \<Rightarrow> bool" where
  "sv_retry_queue oid weak \<equiv> retry_queue Sf_retry oid weak"

definition queue_adds ::
    "u64 \<Rightarrow> 'cb server_function dispatcher option \<Rightarrow> 'cb server_function dispatcher option \<Rightarrow> bool" where
  "queue_adds oid weak weak' \<longleftrightarrow>
     adds_others (retry_control Sf_retry) oid weak weak' \<and>
     (\<forall>t. timer_ok Sf_timer oid weak t \<longrightarrow> timer_ok Sf_timer oid weak' t)"

lemma queue_adds_refl [simp]: "queue_adds oid weak weak"
  by (simp add: queue_adds_def)

lemma queue_adds_trans: "queue_adds oid w1 w2 \<Longrightarrow> queue_adds oid w2 w3 \<Longrightarrow> queue_adds oid w1 w3"
  unfolding queue_adds_def using adds_others_trans by blast

lemma queue_adds_enqueue [simp]:
  assumes "plain_function f"
  shows "queue_adds oid weak (snd (enqueue_to_dispatcher oid f when_immediately weak))"
proof -
  have "\<not> retry_control Sf_retry f" "\<And>x. f \<noteq> Sf_timer x"
    using assms by (auto simp: retry_control_def)
  then show ?thesis
    using server_timer.ok_enqueue [of oid weak _ f when_immediately]
    by (auto simp: queue_adds_def intro: adds_others_enqueue)
qed

lemma plain_enqueue:
  "plain_function f \<Longrightarrow>
     adds_others (retry_control Sf_retry) oid weak (snd (enqueue_to_dispatcher oid f when_immediately weak))"
  "plain_function f \<Longrightarrow> timer_ok Sf_timer oid weak t \<Longrightarrow>
     timer_ok Sf_timer oid (snd (enqueue_to_dispatcher oid f when_immediately weak)) t"
  using queue_adds_enqueue [of f oid weak] unfolding queue_adds_def by blast+

lemma queue_adds_callbacks [simp]: "queue_adds oid weak (enqueue_callbacks oid out weak)"
proof (induction oid out weak rule: enqueue_callbacks.induct)
  case (2 oid cb ec data out weak)
  show ?case using queue_adds_trans [OF queue_adds_enqueue 2] by simp
qed simp

lemma queue_adds_callbacks_twice [simp]:
  "queue_adds oid weak (enqueue_callbacks oid out (enqueue_callbacks oid out' weak))"
  by (rule queue_adds_trans [OF queue_adds_callbacks queue_adds_callbacks])

lemma queue_addsD:
  assumes "queue_adds oid weak weak'"
  shows "f \<in> set (owned oid weak) \<Longrightarrow> f \<in> set (owned oid weak')"
    and "sv_retry_queue oid weak \<Longrightarrow> sv_retry_queue oid weak'"
    and "sv_retry_queue oid weak \<Longrightarrow> retry_scheduled Sf_retry oid weak dt \<Longrightarrow>
      retry_scheduled Sf_retry oid weak' dt"
    and "timer_ok Sf_timer oid weak t \<Longrightarrow> timer_ok Sf_timer oid weak' t"
    and "serves oid weak' = serves oid weak"
  using assms adds_others_scheduled [of Sf_retry oid weak weak' dt]
  unfolding queue_adds_def adds_others_def by blast+

section \<open>Accepting or trying again\<close>

abbreviation sv_token :: "'cb server \<Rightarrow> token" where
  "sv_token s \<equiv> capture (sv_scope s)"

text \<open>
  Something will bind for the current session: a function about to post it, a posted bind, a
  function or a notification about to schedule a retry, or a scheduled retry.
\<close>

definition retry_ahead :: "'cb server \<Rightarrow> bool" where
  "retry_ahead s \<longleftrightarrow>
     Sa_schedule_retry \<in> set (sv_thread s) \<or> Sf_scoped (sv_token s) Sn_closed \<in> set (sv_own s) \<or>
     (\<exists>ec. Sf_scoped (sv_token s) (Sn_bind_failed ec) \<in> set (sv_own s)) \<or>
     retry_scheduled Sf_retry (sv_oid s) (sv_disp s) (bind_retry_task s)"

definition will_bind :: "'cb server \<Rightarrow> bool" where
  "will_bind s \<longleftrightarrow>
     Sa_bind \<in> set (sv_thread s) \<or> St_bind (sv_token s) \<in> set (sv_io s) \<or> retry_ahead s"

text \<open>
  The acceptor is open and an accept of the current session is outstanding, or about to be made, or
  its end is about to be handled.
\<close>

definition accepting :: "'cb server \<Rightarrow> bool" where
  "accepting s \<longleftrightarrow>
     (\<exists>a. acceptor s = Some a \<and>
        ((a, sv_token s) \<in> set (accepts s) \<or> St_accept (sv_token s) \<in> set (sv_io s) \<or>
         (\<exists>c. St_accepted c (sv_token s) \<in> set (sv_io s)) \<or>
         (\<exists>ec c. St_accept_done (sv_token s) ec c \<in> set (sv_io s) \<and> ec \<noteq> Operation_aborted)))"

text \<open>While a stop is queued, a bind is queued behind all stops.\<close>

definition bind_behind :: "token \<Rightarrow> 'cb server_task list \<Rightarrow> bool" where
  "bind_behind t us \<longleftrightarrow> (\<exists>xs ys. us = xs @ St_bind t # ys \<and> St_stop \<notin> set ys)"

definition base_ok :: "'cb server \<Rightarrow> bool" where
  "base_ok s \<longleftrightarrow>
     sv_retry_queue (sv_oid s) (sv_disp s) \<and> timer_ok Sf_timer (sv_oid s) (sv_disp s) (health_timer s) \<and>
     (Sa_post_stop \<in> set (sv_thread s) \<or> Sa_cancel_retry \<in> set (sv_thread s) \<longrightarrow>
        \<not> scope_running (sv_scope s)) \<and>
     St_shutdown \<notin> set (sv_io s) \<and> (\<forall>f. Sa_enqueue f \<in> set (sv_thread s) \<longrightarrow> plain_function f) \<and>
     (scope_running (sv_scope s) \<and> St_stop \<in> set (sv_io s) \<longrightarrow>
        Sa_bind \<in> set (sv_thread s) \<or> bind_behind (sv_token s) (sv_io s))"

definition going_ok :: "'cb server \<Rightarrow> bool" where
  "going_ok s \<longleftrightarrow>
     base_ok s \<and>
     (acceptor s = None \<or> Sa_post_stop \<in> set (sv_thread s) \<or> St_stop \<in> set (sv_io s) \<or>
        scope_running (sv_scope s) \<and> accepting s) \<and>
     (scope_running (sv_scope s) \<and> St_stop \<notin> set (sv_io s) \<longrightarrow> will_bind s \<or> accepting s)"

definition going :: "'cb server \<Rightarrow> bool" where
  "going s \<longleftrightarrow> (sv_serves s \<longrightarrow> going_ok s)"

lemma going_progress:
  "going_ok s \<Longrightarrow> scope_running (sv_scope s) \<Longrightarrow> will_bind s \<or> accepting s"
  by (auto simp: going_ok_def base_ok_def will_bind_def bind_behind_def)

lemma bind_behind_Cons: "u \<noteq> St_bind t \<Longrightarrow> bind_behind t (u # us) = bind_behind t us"
  unfolding bind_behind_def by (auto simp: Cons_eq_append_conv)

lemma bind_behind_pop: "bind_behind t (u # us) \<Longrightarrow> St_stop \<in> set us \<Longrightarrow> bind_behind t us"
  unfolding bind_behind_def by (auto simp: Cons_eq_append_conv)

lemma bind_behind_more:
  assumes "bind_behind t us" and "St_stop \<notin> set zs"
  shows "bind_behind t (ys @ us @ zs)"
proof -
  obtain as bs where "us = as @ St_bind t # bs" "St_stop \<notin> set bs"
    using assms(1) by (auto simp: bind_behind_def)
  then show ?thesis
    using assms(2) unfolding bind_behind_def
    by (intro exI [of _ "ys @ as"] exI [of _ "bs @ zs"]) simp
qed

section \<open>Steps that stop nothing\<close>

text \<open>The executor's queue grows, but by no stop.\<close>

definition io_grows :: "'cb server_task list \<Rightarrow> 'cb server_task list \<Rightarrow> bool" where
  "io_grows us ws \<longleftrightarrow>
     (\<exists>xs ys. ws = xs @ us @ ys \<and> St_stop \<notin> set (xs @ ys) \<and> St_shutdown \<notin> set (xs @ ys))"

lemma io_growsI: "St_stop \<notin> set (xs @ ys) \<Longrightarrow> St_shutdown \<notin> set (xs @ ys) \<Longrightarrow> io_grows us (xs @ us @ ys)"
  unfolding io_grows_def by blast

lemma io_grows_simps [simp]:
  "io_grows us us"
  "St_stop \<notin> set ys \<Longrightarrow> St_shutdown \<notin> set ys \<Longrightarrow> io_grows us (us @ ys)"
  "u \<noteq> St_stop \<Longrightarrow> u \<noteq> St_shutdown \<Longrightarrow> io_grows us (u # us)"
  "u \<noteq> St_stop \<Longrightarrow> u \<noteq> St_shutdown \<Longrightarrow> St_stop \<notin> set ys \<Longrightarrow> St_shutdown \<notin> set ys \<Longrightarrow>
     io_grows us (u # us @ ys)"
  using io_growsI [of "[]" "[]" us] io_growsI [of "[]" ys us] io_growsI [of "[u]" "[]" us]
    io_growsI [of "[u]" ys us] by auto

definition base_view :: "'cb server \<Rightarrow> 'cb server \<Rightarrow> bool" where
  "base_view s t \<longleftrightarrow>
     sv_oid t = sv_oid s \<and> sv_scope t = sv_scope s \<and> bind_retry_task t = bind_retry_task s \<and>
     adds_others (retry_control Sf_retry) (sv_oid s) (sv_disp s) (sv_disp t) \<and>
     (timer_ok Sf_timer (sv_oid s) (sv_disp s) (health_timer s) \<longrightarrow>
        timer_ok Sf_timer (sv_oid s) (sv_disp t) (health_timer t)) \<and>
     io_grows (sv_io s) (sv_io t) \<and>
     (\<forall>a \<in> {Sa_bind, Sa_schedule_retry, Sa_post_stop}. a \<in> set (sv_thread s) \<longrightarrow> a \<in> set (sv_thread t)) \<and>
     (\<forall>a \<in> {Sa_post_stop, Sa_cancel_retry}. a \<in> set (sv_thread t) \<longrightarrow> a \<in> set (sv_thread s)) \<and>
     (\<forall>f. Sa_enqueue f \<in> set (sv_thread t) \<longrightarrow> plain_function f \<or> Sa_enqueue f \<in> set (sv_thread s))"

lemma base_view_serves: "base_view s t \<Longrightarrow> sv_serves t = sv_serves s"
  by (auto simp: base_view_def adds_others_def)

lemma base_view_io:
  assumes "base_view s t"
  shows "set (sv_io s) \<subseteq> set (sv_io t)" "St_stop \<in> set (sv_io t) \<longleftrightarrow> St_stop \<in> set (sv_io s)"
    "St_shutdown \<in> set (sv_io t) \<longleftrightarrow> St_shutdown \<in> set (sv_io s)"
    "bind_behind k (sv_io s) \<Longrightarrow> bind_behind k (sv_io t)"
  using assms bind_behind_more by (auto simp: base_view_def io_grows_def)

lemma base_view_ok:
  assumes view: "base_view s t" and "base_ok s"
  shows "base_ok t"
proof -
  have "sv_retry_queue (sv_oid s) (sv_disp t)"
    using assms unfolding base_view_def adds_others_def base_ok_def by blast
  then show ?thesis
    using assms(2) view base_view_io [OF view] by (auto simp: base_view_def base_ok_def)
qed

lemma will_bind_view:
  assumes view: "base_view s t" and base: "base_ok s" and "will_bind s"
  shows "will_bind t"
proof -
  have adds: "adds_others (retry_control Sf_retry) (sv_oid s) (sv_disp s) (sv_disp t)"
    using view by (simp add: base_view_def)
  then have "set (sv_own s) \<subseteq> set (owned (sv_oid s) (sv_disp t))" by (simp add: adds_others_def)
  moreover have "retry_scheduled Sf_retry (sv_oid s) (sv_disp t) dt"
    if "retry_scheduled Sf_retry (sv_oid s) (sv_disp s) dt" for dt
    using adds_others_scheduled [OF adds _ that] base by (simp add: base_ok_def)
  ultimately show ?thesis
    using assms(3) view base_view_io(1) [OF view]
    unfolding will_bind_def retry_ahead_def base_view_def by auto
qed

lemma accepting_more:
  assumes "accepting s" and "sv_scope t = sv_scope s" and "acceptor t = acceptor s"
    and "set (accepts s) \<subseteq> set (accepts t)" and "set (sv_io s) \<subseteq> set (sv_io t)"
  shows "accepting t"
  using assms unfolding accepting_def by (simp add: subset_iff) blast

lemma going_view:
  assumes view: "base_view s t" and "acceptor t = acceptor s" and "set (accepts s) \<subseteq> set (accepts t)"
    and "going s"
  shows "going t"
proof -
  have "going_ok t" if ok: "going_ok s"
  proof -
    have base: "base_ok s" using ok by (simp add: going_ok_def)
    have same: "sv_scope t = sv_scope s" "Sa_post_stop \<in> set (sv_thread s) \<Longrightarrow> Sa_post_stop \<in> set (sv_thread t)"
      using view by (simp_all add: base_view_def)
    have "accepting s \<Longrightarrow> accepting t"
      by (rule accepting_more [OF _ same(1) assms(2,3) base_view_io(1) [OF view]])
    then show ?thesis
      using ok same will_bind_view [OF view base] base_view_ok [OF view base] base_view_io(2) [OF view] assms(2)
      unfolding going_ok_def by metis
  qed
  then show ?thesis
    using assms(4) base_view_serves [OF view] by (simp add: going_def)
qed

text \<open>Most operations do not touch the timer, and only enqueue plain functions.\<close>

definition adds_view :: "'cb server \<Rightarrow> 'cb server \<Rightarrow> bool" where
  "adds_view s t \<longleftrightarrow>
     sv_oid t = sv_oid s \<and> sv_scope t = sv_scope s \<and> bind_retry_task t = bind_retry_task s \<and>
     health_timer t = health_timer s \<and> sv_thread t = sv_thread s \<and>
     queue_adds (sv_oid s) (sv_disp s) (sv_disp t) \<and> io_grows (sv_io s) (sv_io t)"

lemma adds_view_base: "adds_view s t \<Longrightarrow> base_view s t"
  by (auto simp: adds_view_def base_view_def queue_adds_def)

lemma no_stop_aborted [simp]:
  "St_stop \<notin> set (aborted_accepts s)" "St_shutdown \<notin> set (aborted_accepts s)"
  "St_stop \<notin> set (aborted_waits s)" "St_shutdown \<notin> set (aborted_waits s)"
  by (auto simp: aborted_accepts_def aborted_waits_def split: option.split)

lemma io_grows_aborted [simp]: "io_grows us (us @ aborted_accepts s)" "io_grows us (us @ aborted_waits s)"
  by simp_all

lemma adds_close_acceptor: "adds_view s (close_acceptor rem s)"
  by (simp add: adds_view_def close_acceptor_eq)

lemma adds_closed: "adds_view s (sv_notify t n (close_acceptor rem s))"
  by (simp add: adds_view_def close_acceptor_eq sv_ops)

lemma adds_closed_probe:
  "adds_view s (sv_notify t n (close_acceptor rem (close_health_check_peer s)))"
  using io_grows_simps(2) [of "aborted_waits s @ aborted_accepts (close_health_check_peer s)" "sv_io s"]
  by (simp add: adds_view_def close_acceptor_eq sv_ops close_health_check_peer_eq)

text \<open>Closing the acceptor, and telling so, leads to a retry.\<close>

definition tells_closed :: "server_notification \<Rightarrow> bool" where
  "tells_closed n \<longleftrightarrow> n = Sn_closed \<or> (\<exists>ec. n = Sn_bind_failed ec)"

lemma closed_going:
  fixes w :: "'cb server"
  assumes base: "base_ok s" and view: "adds_view s (sv_notify t n w)" and "acceptor w = None"
    and "t = sv_token w" and "tells_closed n" and "sv_oid w = sv_oid s"
  shows "going (sv_notify t n w)"
proof -
  let ?t = "sv_notify t n w"
  have "going_ok ?t" if served: "sv_serves ?t"
  proof -
    have "Sf_scoped t n \<in> set (sv_own ?t)" using served by (simp add: sv_notify_def scope_enqueue_def)
    moreover have "sv_token ?t = t" "acceptor ?t = None" using assms(3,4) by (simp_all add: sv_notify_def)
    ultimately have "will_bind ?t" "acceptor ?t = None"
      using assms(5) by (auto simp: will_bind_def retry_ahead_def tells_closed_def)
    then show ?thesis
      using base_view_ok [OF adds_view_base [OF view] base] by (simp add: going_ok_def)
  qed
  then show ?thesis by (simp add: going_def)
qed

section \<open>Tasks\<close>

text \<open>A task the invariant speaks of.\<close>

definition relevant :: "token \<Rightarrow> 'cb server_task \<Rightarrow> bool" where
  "relevant t u \<longleftrightarrow>
     u = St_bind t \<or> u = St_accept t \<or> (\<exists>c. u = St_accepted c t) \<or>
     (\<exists>ec c. u = St_accept_done t ec c \<and> ec \<noteq> Operation_aborted)"

lemma base_ok_pop:
  assumes "base_ok s" and "sv_io s = u # us"
  shows "base_ok (s\<lparr>sv_io := us\<rparr>)"
  using assms bind_behind_pop [of "sv_token s" u us] by (auto simp: base_ok_def)

lemma pop_going:
  assumes "going s" and io: "sv_io s = u # us" and "u \<noteq> St_stop"
    and "scope_running (sv_scope s) \<Longrightarrow> \<not> relevant (sv_token s) u"
  shows "going (s\<lparr>sv_io := us\<rparr>)"
proof -
  let ?v = "s\<lparr>sv_io := us\<rparr>"
  have "going_ok ?v" if "going_ok s"
  proof -
    have "base_ok ?v" using that base_ok_pop [OF _ io] by (simp add: going_ok_def)
    moreover have "accepting s \<Longrightarrow> accepting ?v" if "scope_running (sv_scope s)"
      using assms(4) [OF that] io unfolding accepting_def relevant_def by auto
    moreover have "will_bind s \<Longrightarrow> will_bind ?v" if "scope_running (sv_scope s)"
      using assms(4) [OF that] io by (auto simp: will_bind_def retry_ahead_def relevant_def)
    ultimately show ?thesis
      using that io assms(3) unfolding going_ok_def by auto
  qed
  then show ?thesis using assms(1) by (simp add: going_def)
qed

lemma base_of_going: "going s \<Longrightarrow> sv_serves s \<Longrightarrow> base_ok s"
  by (simp add: going_def going_ok_def)

text \<open>Tasks that leave the acceptor alone.\<close>

lemma no_stop_cancelled [simp]:
  "St_stop \<notin> (\<lambda>(tm', t). St_probe_timer tm t ec) ` S" "St_shutdown \<notin> (\<lambda>(tm', t). St_probe_timer tm t ec) ` S"
  "St_stop \<notin> (\<lambda>(tm', t). St_probe_connected tm t ec) ` S"
  "St_shutdown \<notin> (\<lambda>(tm', t). St_probe_connected tm t ec) ` S"
  by auto

lemma adds_task:
  assumes "\<forall>t. u \<noteq> St_bind t" "\<forall>t. u \<noteq> St_accept t" "\<forall>t ec c. u \<noteq> St_accept_done t ec c"
    "u \<noteq> St_stop" "u \<noteq> St_shutdown" "\<forall>tm t ec. u \<noteq> St_probe_failed tm t ec"
    "\<forall>tm t ec. u \<noteq> St_probe_failing tm t ec"
  shows "adds_view s (run_task ep rem os u s)"
    and "acceptor (run_task ep rem os u s) = acceptor s" "accepts (run_task ep rem os u s) = accepts s"
proof -
  have "adds_view s (run_task ep rem os u s) \<and> acceptor (run_task ep rem os u s) = acceptor s \<and>
      accepts (run_task ep rem os u s) = accepts s"
    using assms
    by (cases u) (auto simp: adds_view_def sv_bodies handle_accepted_socket_def split: option.split)
  then show "adds_view s (run_task ep rem os u s)"
    and "acceptor (run_task ep rem os u s) = acceptor s" "accepts (run_task ep rem os u s) = accepts s"
    by blast+
qed

lemma going_bind:
  fixes s :: "'cb server"
  assumes going: "going s" and io: "sv_io s = St_bind t # us" and served: "sv_serves s"
  shows "going (server_bind ep rem os t (s\<lparr>sv_io := us\<rparr>))"
proof -
  let ?v = "s\<lparr>sv_io := us\<rparr>"
  have ok: "going_ok s" using going served by (simp add: going_def)
  then have base: "base_ok ?v" using base_ok_pop [OF _ io] by (simp add: going_ok_def)
  show ?thesis
  proof (cases rule: server_bind_cases [of ep rem os t ?v])
    case 1
    have "going ?v"
    proof (cases "is_current t (sv_scope s)")
      case False
      then show ?thesis
        using going io by (intro pop_going) (auto simp: relevant_def is_current_def capture_def)
    next
      case True
      then have running: "scope_running (sv_scope s)" and "acceptor s \<noteq> None"
        using 1(2) by (auto simp: is_current_def)
      then have "St_stop \<in> set us \<or> accepting s"
        using ok io by (auto simp: going_ok_def base_ok_def)
      moreover have "accepting s \<Longrightarrow> accepting ?v" using io by (auto simp: accepting_def)
      ultimately have "going_ok ?v"
        using base running by (auto simp: going_ok_def)
      then show ?thesis by (simp add: going_def)
    qed
    then show ?thesis using 1(1) by simp
  next
    case (2 v ec)
    then obtain n a b rt where v: "v = ?v\<lparr>sv_next_ref := sv_next_ref ?v + n, acceptor := a, bound_path := b, sv_runtime := rt\<rparr>"
      by blast
    have "adds_view ?v (sv_notify t (Sn_bind_failed ec) (close_acceptor rem v))"
      unfolding v by (simp add: adds_view_def close_acceptor_eq sv_ops)
    then have "going (sv_notify t (Sn_bind_failed ec) (close_acceptor rem v))"
      using 2(2) by (intro closed_going [OF base])
        (simp_all add: v close_acceptor_eq is_current_def capture_def tells_closed_def)
    then show ?thesis using 2(1) by (simp add: handle_bind_failed_def)
  next
    case (3 k rt)
    let ?t = "server_bind ep rem os t ?v"
    have "adds_view ?v ?t" unfolding 3(1) by (simp add: adds_view_def sv_ops)
    then have "base_ok ?t" using base_view_ok [OF adds_view_base base] by blast
    moreover have "accepting ?t"
      unfolding 3(1) using 3(2) by (auto simp: accepting_def sv_ops is_current_def capture_def)
    moreover have "scope_running (sv_scope ?t)"
      unfolding 3(1) using 3(2) by (simp add: sv_ops is_current_def)
    ultimately show ?thesis by (simp add: going_def going_ok_def)
  qed
qed

text \<open>A step after which an accept is on its way.\<close>

lemma accepting_going:
  assumes "base_ok s" and "adds_view s t" and "scope_running (sv_scope s)"
    and "acceptor t \<noteq> None \<Longrightarrow> accepting t" and "will_bind s \<or> acceptor t \<noteq> None \<or> St_stop \<in> set (sv_io s)"
  shows "going t"
proof -
  note view = adds_view_base [OF assms(2)]
  have "sv_scope t = sv_scope s" using assms(2) by (simp add: adds_view_def)
  then have "going_ok t"
    using assms(3-5) base_view_ok [OF view assms(1)] will_bind_view [OF view assms(1)] base_view_io [OF view]
    unfolding going_ok_def by auto
  then show ?thesis by (simp add: going_def)
qed

lemma going_accept:
  fixes s :: "'cb server"
  assumes going: "going s" and io: "sv_io s = u # us" and served: "sv_serves s"
    and u: "u = St_accept t \<or> u = St_accept_done t ec c \<or> u = St_accepted c t"
  shows "going (run_task ep rem os u (s\<lparr>sv_io := us\<rparr>))"
proof -
  let ?v = "s\<lparr>sv_io := us\<rparr>"
  let ?t = "run_task ep rem os u ?v"
  have ok: "going_ok s" using going served by (simp add: going_def)
  then have base: "base_ok ?v" using base_ok_pop [OF _ io] by (simp add: going_ok_def)
  show ?thesis
  proof (cases "is_current t (sv_scope s)")
    case False
    then have "?t = ?v"
      using u by (auto simp: server_accept_def accept_handler_def handle_accepted_socket_def)
    moreover have "going ?v"
      using False going io u by (intro pop_going) (auto simp: relevant_def is_current_def capture_def)
    ultimately show ?thesis by simp
  next
    case True
    then have running: "scope_running (sv_scope s)" and t: "t = sv_token s"
      by (simp_all add: is_current_def capture_def)
    have "acceptor s \<noteq> None \<or> will_bind ?v \<or> St_stop \<in> set us"
      using ok running io u by (auto simp: going_ok_def accepting_def will_bind_def retry_ahead_def)
    note next_accept = accepting_going [OF base, of ?t]
    consider (aborted) "u = St_accept_done t Operation_aborted c"
      | (failed) "u = St_accept_done t ec c" "is_error ec" "ec \<noteq> Operation_aborted"
      | (accept) "u = St_accept t"
      | (completed) "u = St_accept_done t ec c" "\<not> is_error ec"
      | (accepted) "u = St_accepted c t"
      using u by blast
    then show ?thesis
    proof cases
      case aborted
      then have "?t = ?v" using True by (simp add: accept_handler_def is_error_def)
      moreover have "going ?v"
        using aborted going io by (intro pop_going) (auto simp: relevant_def)
      ultimately show ?thesis by simp
    next
      case failed
      then have t': "?t = sv_notify t Sn_closed (close_acceptor rem ?v)"
        using True by (simp add: accept_handler_def)
      show ?thesis
        unfolding t' using t adds_closed [of ?v t Sn_closed rem]
        by (intro closed_going [OF base]) (simp_all add: close_acceptor_eq tells_closed_def)
    next
      case accept
      show ?thesis
      proof (rule next_accept)
        show "adds_view ?v ?t" using accept by (simp add: adds_view_def server_accept_def split: option.split)
        show "accepting ?t" if "acceptor ?t \<noteq> None"
          using that accept True t by (cases "acceptor s") (auto simp: server_accept_def accepting_def)
        show "will_bind ?v \<or> acceptor ?t \<noteq> None \<or> St_stop \<in> set (sv_io ?v)"
          using \<open>acceptor s \<noteq> None \<or> will_bind ?v \<or> St_stop \<in> set us\<close> accept True
          by (auto simp: server_accept_def split: option.split)
      qed (simp add: running)
    next
      case completed
      then have t': "?t = sv_continue (St_accepted c t) ?v"
        using True by (simp add: accept_handler_def)
      show ?thesis
      proof (rule next_accept)
        show "accepting ?t" if "acceptor ?t \<noteq> None"
          using that t by (auto simp: t' accepting_def sv_ops)
        show "will_bind ?v \<or> acceptor ?t \<noteq> None \<or> St_stop \<in> set (sv_io ?v)"
          using \<open>acceptor s \<noteq> None \<or> will_bind ?v \<or> St_stop \<in> set us\<close> by (auto simp: t' sv_ops)
      qed (simp_all add: running t' adds_view_def sv_ops)
    next
      case accepted
      show ?thesis
      proof (rule next_accept)
        show "accepting ?t" if "acceptor ?t \<noteq> None"
          using that t True accepted by (auto simp: handle_accepted_socket_def accepting_def sv_ops)
        show "will_bind ?v \<or> acceptor ?t \<noteq> None \<or> St_stop \<in> set (sv_io ?v)"
          using \<open>acceptor s \<noteq> None \<or> will_bind ?v \<or> St_stop \<in> set us\<close> accepted True
          by (auto simp: handle_accepted_socket_def sv_ops)
        show "adds_view ?v ?t" using adds_task(1) [of u ?v ep rem os] accepted by simp
      qed (simp add: running)
    qed
  qed
qed

lemma going_stop:
  fixes s :: "'cb server"
  assumes going: "going s" and io: "sv_io s = St_stop # us" and served: "sv_serves s"
  shows "going (stop_task rem (s\<lparr>sv_io := us\<rparr>))"
proof -
  let ?v = "s\<lparr>sv_io := us\<rparr>"
  let ?t = "stop_task rem ?v"
  have ok: "going_ok s" using going served by (simp add: going_def)
  then have base: "base_ok ?v" using base_ok_pop [OF _ io] by (simp add: going_ok_def)
  have view: "adds_view ?v ?t"
    by (simp add: adds_view_def stop_task_def sv_closings sv_ops)
  have "will_bind ?v" if "scope_running (sv_scope s)"
    using ok that io unfolding going_ok_def base_ok_def
    by (auto simp: will_bind_def bind_behind_Cons) (auto simp: bind_behind_def)
  moreover have "acceptor ?t = None" by (simp add: stop_task_def sv_closings sv_ops)
  moreover have "sv_scope ?t = sv_scope s" using view by (simp add: adds_view_def)
  ultimately have "going_ok ?t"
    using base_view_ok [OF adds_view_base [OF view] base] will_bind_view [OF adds_view_base [OF view] base]
    by (simp add: going_ok_def)
  then show ?thesis by (simp add: going_def)
qed

lemma going_probe_failed:
  fixes s :: "'cb server"
  assumes going: "going s" and io: "sv_io s = u # us" and served: "sv_serves s"
    and u: "u = St_probe_failed tm t ec \<or> u = St_probe_failing tm t ec"
  shows "going (handle_health_check_failed rem ec t tm (s\<lparr>sv_io := us\<rparr>))"
proof -
  let ?v = "s\<lparr>sv_io := us\<rparr>"
  have ok: "going_ok s" using going served by (simp add: going_def)
  then have base: "base_ok ?v" using base_ok_pop [OF _ io] by (simp add: going_ok_def)
  show ?thesis
  proof (cases "is_current_health_check t tm ?v")
    case False
    then show ?thesis
      using pop_going [OF going io] u by (auto simp: handle_health_check_failed_def relevant_def)
  next
    case True
    then show ?thesis
      using adds_closed_probe [of ?v t Sn_closed rem]
      by (simp add: handle_health_check_failed_def)
        (rule closed_going [OF base], simp_all add: sv_closings tells_closed_def is_current_health_check_def
          is_current_def capture_def)
  qed
qed

lemma going_task:
  fixes s :: "'cb server"
  assumes going: "going s" and io: "sv_io s = u # us" and served: "sv_serves s"
  shows "going (run_task ep rem os u (s\<lparr>sv_io := us\<rparr>))"
proof -
  have shutdown: "u \<noteq> St_shutdown" using base_of_going [OF going served] io by (auto simp: base_ok_def)
  consider t where "u = St_bind t" | t where "u = St_accept t" | t ec c where "u = St_accept_done t ec c"
    | t c where "u = St_accepted c t" | "u = St_stop" | tm t ec where "u = St_probe_failed tm t ec"
    | tm t ec where "u = St_probe_failing tm t ec"
    | (other) "\<forall>t. u \<noteq> St_bind t" "\<forall>t. u \<noteq> St_accept t" "\<forall>t ec c. u \<noteq> St_accept_done t ec c"
        "u \<noteq> St_stop" "\<forall>tm t ec. u \<noteq> St_probe_failed tm t ec" "\<forall>tm t ec. u \<noteq> St_probe_failing tm t ec"
        "\<forall>t c. u \<noteq> St_accepted c t"
    by blast
  then show ?thesis
  proof cases
    case (1 t)
    then show ?thesis using going_bind [OF going _ served] io by simp
  next
    case (2 t)
    then show ?thesis using going_accept [OF going io served] by blast
  next
    case (3 t ec c)
    then show ?thesis using going_accept [OF going io served] by blast
  next
    case (4 t c)
    then show ?thesis using going_accept [OF going io served] by blast
  next
    case 5
    then show ?thesis using going_stop [OF going _ served] io by simp
  next
    case (6 tm t ec)
    then show ?thesis using going_probe_failed [OF going io served] by simp
  next
    case (7 tm t ec)
    then show ?thesis using going_probe_failed [OF going io served] by simp
  next
    case other
    note adds = adds_task [OF other(1-4) shutdown other(5,6), where s = "s\<lparr>sv_io := us\<rparr>"]
    have "going (s\<lparr>sv_io := us\<rparr>)"
      using other by (intro pop_going [OF going io]) (auto simp: relevant_def)
    then show ?thesis
      by (rule going_view [OF adds_view_base [OF adds(1)] adds(2), rotated]) (simp only: adds(3) order_refl)
  qed
qed

section \<open>Functions on the dispatcher thread\<close>

lemma going_request_timer: "going s \<Longrightarrow> going (server_request_timer s)"
  by (erule going_view [OF adds_view_base, rotated -1])
    (simp_all add: adds_view_def server_request_timer_def server_request_timed_out_def sv_bodies
      split: prod.split option.split)

lemma going_slot:
  assumes "going s" and "sv_thread s = []"
  shows "going (server_peer_slot p sig s)"
proof -
  have "going (accepted_peer_slot p pid t c sig s)" for pid t c
    by (rule going_view [OF _ _ _ assms(1)]; cases sig)
      (use assms(2) in \<open>auto simp: base_view_def sv_ops plain_enqueue\<close>)
  moreover have "going (probe_slot tm t sig s)" for tm t
    by (rule going_view [OF adds_view_base _ _ assms(1)]; cases sig) (simp_all add: adds_view_def sv_ops)
  ultimately show ?thesis using assms(1) by (simp add: server_peer_slot_def split: option.split)
qed

end
