(* ===== verification/Server_Machine.thy ===== *)
theory Server_Machine
  imports Server_Progress
begin

text \<open>
  The functions on the dispatcher thread, and every step: a running server accepts connections or
  will try to bind again.
\<close>

section \<open>Actions\<close>

lemma one_le_interval [simp]: "1 \<le> normalize_scheduling_interval v"
  using normalize_scheduling_interval_bounds(1) [of v] by linarith

lemma action_acceptor:
  "sv_scope (run_server_action verify now a s) = sv_scope s"
  "acceptor (run_server_action verify now a s) = acceptor s"
  "accepts (run_server_action verify now a s) = accepts s"
  by (cases a; simp add: sv_ops schedule_bind_retry_def stop_health_check_timer_def
      start_health_check_timer_def split_beta)+

text \<open>Scheduling the retry.\<close>

lemma going_schedule_retry:
  fixes s :: "'cb server"
  assumes ok: "going_ok s" and thread: "sv_thread s = Sa_schedule_retry # as" and clock: "clock_ok now"
    and served: "sv_serves s"
  shows "going_ok (schedule_bind_retry now (s\<lparr>sv_thread := as\<rparr>))"
proof (cases "scope_running (sv_scope s)")
  case False
  then show ?thesis
    using ok thread by (auto simp: going_ok_def base_ok_def schedule_bind_retry_def)
next
  case True
  let ?v = "s\<lparr>sv_thread := as\<rparr>"
  let ?w = "when_now now (sv_disp s) +
    normalize_scheduling_interval (bind_retry_interval (server_params (sv_opts s)))"
  let ?q = "snd (enqueue_to_dispatcher (sv_oid s) (Sf_retry (Debounce_in_dispatcher () ?w))
    when_immediately (sv_disp s))"
  have retry: "sv_retry_queue (sv_oid s) (sv_disp s)"
    and timer: "timer_ok Sf_timer (sv_oid s) (sv_disp s) (health_timer s)"
    using ok by (simp_all add: going_ok_def base_ok_def)
  have w: "1 \<le> ?w"
    using when_now_nonneg [OF clock, of "sv_disp s"]
      one_le_interval [of "bind_retry_interval (server_params (sv_opts s))"] by linarith
  have t: "schedule_bind_retry now ?v = ?v\<lparr>sv_disp := ?q\<rparr>"
    using True by (simp add: schedule_bind_retry_def debounce_after_def debounce_at_def)
  have "sv_retry_queue (sv_oid s) ?q"
    using w by (intro immediate_class_enqueue(1) [OF retry])
      (simp_all add: server_retry.wrap_control when_immediately_def)
  moreover have "timer_ok Sf_timer (sv_oid s) ?q (health_timer s)"
    by (rule server_timer.ok_enqueue [OF timer]) simp
  moreover have "retry_scheduled Sf_retry (sv_oid s) ?q (bind_retry_task s)"
    by (rule server_retry.schedules [OF retry served w])
  ultimately show ?thesis
    using ok thread unfolding t
    by (auto simp: going_ok_def base_ok_def will_bind_def retry_ahead_def accepting_def)
qed

lemma going_action:
  fixes s :: "'cb server"
  assumes going: "going s" and thread: "sv_thread s = a # as" and clock: "clock_ok now"
  shows "going (run_server_action verify now a (s\<lparr>sv_thread := as\<rparr>))"
proof (cases "sv_serves s")
  case False
  then show ?thesis by (simp add: going_def action_serves)
next
  case served: True
  let ?v = "s\<lparr>sv_thread := as\<rparr>"
  let ?t = "run_server_action verify now a ?v"
  have ok: "going_ok s" using going served by (simp add: going_def)
  then have base: "base_ok s" by (simp add: going_ok_def)
  then have retry: "sv_retry_queue (sv_oid s) (sv_disp s)"
    and timer: "timer_ok Sf_timer (sv_oid s) (sv_disp s) (health_timer s)"
    by (simp_all add: base_ok_def)
  have accept: "accepting s \<Longrightarrow> accepting ?t" if "set (sv_io s) \<subseteq> set (sv_io ?t)"
    using that by (rule accepting_more [rotated -1]) (simp_all add: action_acceptor)
  show ?thesis
  proof (cases "a \<in> {Sa_bind, Sa_schedule_retry, Sa_post_stop, Sa_cancel_retry}")
    case False
    have "base_view s ?t"
      using False thread base
      by (cases a) (auto simp: base_view_def base_ok_def sv_ops plain_enqueue timer_stop_def timer_start_def
          stop_health_check_timer_def start_health_check_timer_def split_beta retry_control_def
          intro!: adds_others_enqueue server_timer.ok_enqueue_own)
    then show ?thesis
      using going by (intro going_view [of s ?t]) (simp_all add: action_acceptor)
  next
    case True
    then consider "a = Sa_bind" | "a = Sa_schedule_retry" | "a = Sa_post_stop" | "a = Sa_cancel_retry" by blast
    then have "going_ok ?t"
    proof cases
      case 1
      have "bind_behind (sv_token s) (sv_io s @ [St_bind (sv_token s)])"
        unfolding bind_behind_def by (intro exI [of _ "sv_io s"] exI [of _ "[]"]) simp
      then show ?thesis
        using 1 ok accept thread by (auto simp: going_ok_def base_ok_def sv_ops will_bind_def)
    next
      case 2
      then show ?thesis using going_schedule_retry [OF ok _ clock served] thread by simp
    next
      case 3
      then show ?thesis
        using ok thread by (auto simp: going_ok_def base_ok_def sv_ops)
    next
      case 4
      let ?q = "debounce_cancel Sf_retry (sv_oid s) (sv_disp s)"
      have "sv_retry_queue (sv_oid s) ?q"
        unfolding debounce_cancel_def
        by (intro immediate_class_enqueue(1) [OF retry]) (simp_all add: server_retry.wrap_control)
      moreover have "timer_ok Sf_timer (sv_oid s) ?q (health_timer s)"
        unfolding debounce_cancel_def by (rule server_timer.ok_enqueue [OF timer]) simp
      ultimately show ?thesis
        using ok thread 4 by (auto simp: going_ok_def base_ok_def)
    qed
    then show ?thesis by (simp add: going_def)
  qed
qed

section \<open>Taking a function\<close>

text \<open>The state without the function \<open>f\<close> that was taken.\<close>

lemma take_base:
  assumes "base_ok s" and "sv_own s = f # owned (sv_oid s) d" and "sv_retry_queue (sv_oid s) d"
  shows "base_ok (s\<lparr>sv_disp := d\<rparr>)"
  using assms by (simp add: base_ok_def timer_ok_def)

lemma take_going:
  assumes ok: "going_ok s" and own: "sv_own s = f # owned (sv_oid s) d" and queue: "sv_retry_queue (sv_oid s) d"
    and "\<And>x. f \<noteq> Sf_retry x"
    and "\<And>n. f = Sf_scoped (sv_token s) n \<Longrightarrow> scope_running (sv_scope s) \<Longrightarrow> \<not> tells_closed n"
  shows "going_ok (s\<lparr>sv_disp := d\<rparr>)"
proof -
  let ?v = "s\<lparr>sv_disp := d\<rparr>"
  have "will_bind ?v" if "will_bind s" "scope_running (sv_scope s)"
  proof -
    have "retry_scheduled Sf_retry (sv_oid s) d dt"
      if "retry_scheduled Sf_retry (sv_oid s) (sv_disp s) dt" for dt
      using server_retry.scheduled_take [OF own that assms(4)] .
    then show ?thesis
      using that(1) assms(5) [OF _ that(2)] own
      unfolding will_bind_def retry_ahead_def tells_closed_def by auto
  qed
  moreover have "accepting ?v = accepting s" by (simp add: accepting_def)
  ultimately show ?thesis
    using ok take_base [OF _ own queue] by (auto simp: going_ok_def)
qed

lemma going_retry:
  fixes s :: "'cb server"
  assumes ok: "going_ok s" and thread: "sv_thread s = []" and own: "sv_own s = Sf_retry x # owned (sv_oid s) d"
    and queue: "sv_retry_queue (sv_oid s) d" and due: "debounce_due x" and served: "serves (sv_oid s) d"
  shows "going (begin_server_function now (Sf_retry x) (s\<lparr>sv_disp := d\<rparr>))"
proof -
  let ?v = "s\<lparr>sv_disp := d\<rparr>"
  let ?t = "begin_server_function now (Sf_retry x) ?v"
  obtain dt d' call where r: "run_debounced Sf_retry (sv_oid s) x (bind_retry_task s, d) = ((dt, d'), call)"
    by (metis prod.exhaust)
  have base: "base_ok ?v" using ok take_base [OF _ own queue] by (simp add: going_ok_def)
  note others = server_retry.debounced_others [OF due r]
  have timer: "timer_ok Sf_timer (sv_oid s) d' (health_timer s)"
    using base server_retry.debounced_timer_ok [OF _ _ r] by (auto simp: base_ok_def)
  have queue': "sv_retry_queue (sv_oid s) d'" and grows: "set (owned (sv_oid s) d) \<subseteq> set (owned (sv_oid s) d')"
    using others queue unfolding adds_others_def by blast+
  have "call \<noteq> None \<or> retry_scheduled Sf_retry (sv_oid s) d' dt"
    if "retry_scheduled Sf_retry (sv_oid s) (sv_disp s) (bind_retry_task s)"
    by (rule server_retry.scheduled_run [OF own that queue served due r])
  then have "call \<noteq> None \<or> will_bind ?t" if "will_bind s"
    using that own grows r thread
    unfolding will_bind_def retry_ahead_def by auto
  moreover have "will_bind ?t" if "call \<noteq> None" "scope_running (sv_scope s)"
    using that r by (simp add: will_bind_def)
  moreover have "accepting ?t = accepting s" by (simp add: accepting_def r)
  ultimately have "going_ok ?t"
    using ok thread timer queue' r by (auto simp: going_ok_def base_ok_def)
  then show ?thesis by (simp add: going_def)
qed

lemma going_begin:
  fixes s :: "'cb server"
  assumes ok: "going_ok s" and thread: "sv_thread s = []" and own: "sv_own s = f # owned (sv_oid s) d"
    and queue: "sv_retry_queue (sv_oid s) d" and due: "\<And>x. f = Sf_retry x \<Longrightarrow> debounce_due x"
    and served: "serves (sv_oid s) d" and clock: "clock_ok now"
  shows "going (begin_server_function now f (s\<lparr>sv_disp := d\<rparr>))"
proof -
  let ?v = "s\<lparr>sv_disp := d\<rparr>"
  let ?t = "begin_server_function now f ?v"
  have base: "base_ok ?v" using ok take_base [OF _ own queue] by (simp add: going_ok_def)
  note take = take_going [OF ok own queue]
  have same: "going ?t"
    if "\<And>x. f \<noteq> Sf_retry x" "\<And>t n. f \<noteq> Sf_scoped t n" "base_view ?v ?t" "acceptor ?t = acceptor ?v"
      "accepts ?t = accepts ?v"
  proof -
    have "going ?v" using take that(1,2) by (simp add: going_def)
    then show ?thesis using that(3-5) by (intro going_view [of ?v ?t]) simp_all
  qed
  show ?thesis
  proof (cases f)
    case Sf_start
    have "going_ok ?t"
      using Sf_start ok base thread
      by (auto simp: going_ok_def base_ok_def scope_start_def accepting_def capture_def will_bind_def)
    then show ?thesis by (simp add: going_def)
  next
    case Sf_stop
    have "going_ok ?t"
      using Sf_stop base by (auto simp: going_ok_def base_ok_def scope_stop_def scope_invalidate_def)
    then show ?thesis by (simp add: going_def)
  next
    case (Sf_scoped t n)
    show ?thesis
    proof (cases "is_current t (sv_scope s) \<and> tells_closed n")
      case True
      then have t: "?t = ?v\<lparr>sv_thread := server_notification_actions n\<rparr>" and n: "tells_closed n"
        using Sf_scoped by (simp_all add: run_scoped_def)
      have clause: "acceptor s = None \<or> St_stop \<in> set (sv_io s) \<or> scope_running (sv_scope s) \<and> accepting s"
        using ok thread by (simp add: going_ok_def)
      have "will_bind ?t" unfolding t using n by (auto simp: will_bind_def retry_ahead_def tells_closed_def)
      moreover have "base_ok ?t"
      proof -
        have "base_view ?v ?t" unfolding t using n thread by (auto simp: base_view_def tells_closed_def)
        then show ?thesis using base by (rule base_view_ok)
      qed
      moreover have "accepting ?t = accepting s" by (simp add: t accepting_def)
      moreover have "acceptor ?t = acceptor s" "sv_io ?t = sv_io s" "sv_scope ?t = sv_scope s"
        by (simp_all add: t)
      ultimately have "going_ok ?t"
        using clause by (simp only: going_ok_def) blast
      then show ?thesis by (simp add: going_def)
    next
      case False
      then have v: "going ?v"
        using take Sf_scoped by (auto simp: going_def is_current_def capture_def)
      have "?t = ?v \<or> (?t = ?v\<lparr>sv_thread := server_notification_actions n\<rparr> \<and> \<not> tells_closed n)"
        using False Sf_scoped by (auto simp: run_scoped_def)
      moreover have "base_view ?v (?v\<lparr>sv_thread := server_notification_actions n\<rparr>)" if "\<not> tells_closed n"
        using that thread by (cases n) (auto simp: base_view_def tells_closed_def)
      ultimately show ?thesis
        using v going_view [of ?v ?t] by auto
    qed
  next
    case (Sf_retry x)
    then show ?thesis
      using going_retry [OF ok thread _ queue _ served] own due by simp
  next
    case (Sf_timer x)
    obtain tm d' call where r: "run_timer Sf_timer (sv_oid s) now x (health_timer s, d) = ((tm, d'), call)"
      by (metis prod.exhaust)
    have x: "timer_closure_ok (health_timer s) x"
      using ok own Sf_timer by (auto simp: going_ok_def base_ok_def timer_ok_def)
    have "timer_ok Sf_timer (sv_oid s) d' tm \<and> adds_others (retry_control Sf_retry) (sv_oid s) d d'"
      using base x r clock by (intro server_timer.run_ok) (auto simp: base_ok_def retry_control_def)
    then show ?thesis
      using Sf_timer r thread by (intro same) (auto simp: base_view_def)
  qed (use thread in \<open>intro same; auto simp: base_view_def if_exposed_def\<close>)+
qed

section \<open>Every step\<close>

lemma going_sv_enqueue: "plain_function f \<Longrightarrow> going s \<Longrightarrow> going (sv_enqueue f s)"
  by (erule going_view [OF adds_view_base, rotated -1]) (simp_all add: adds_view_def sv_ops)

lemma going_post: "u \<noteq> St_stop \<Longrightarrow> u \<noteq> St_shutdown \<Longrightarrow> going s \<Longrightarrow> going (sv_post u s)"
  by (erule going_view [OF adds_view_base, rotated -1]) (simp_all add: adds_view_def sv_ops)

lemma going_accept_done:
  assumes going: "going s" and "accepts s = xs @ (a, t) # ys" and "ec \<noteq> Operation_aborted"
  shows "going (sv_post (St_accept_done t ec c) (s\<lparr>accepts := xs @ ys\<rparr>))"
proof -
  let ?t = "sv_post (St_accept_done t ec c) (s\<lparr>accepts := xs @ ys\<rparr>)"
  have view: "base_view s ?t" by (simp add: base_view_def sv_ops)
  have "accepting s \<Longrightarrow> accepting ?t"
    using assms(2,3) unfolding accepting_def sv_post_def by auto
  then have "going_ok ?t" if "going_ok s"
    using that base_view_ok [OF view] will_bind_view [OF view] by (auto simp: going_ok_def sv_ops)
  then show ?thesis using going base_view_serves [OF view] by (simp add: going_def)
qed

lemma going_step:
  assumes step: "server_step verify ep rem s t" and "going s"
  shows "going t"
proof (cases "sv_serves t")
  case False
  then show ?thesis by (simp add: going_def)
next
  case True
  show ?thesis
    using step True assms(2)
  proof (induction rule: server_step.induct)
    case (sv_shutdown s b)
    then show ?case
      using shutdown_not_served [of s b] by (cases "sv_shutdown_started s") (auto simp: server_async_shutdown_def)
  next
    case (sv_take s d now e d' clock)
    let ?v = "s\<lparr>sv_disp := Some d'\<rparr>"
    have oid: "object_id_value e = sv_oid s" and run: "worker_iteration now d = (Run e, d')" by fact+
    note took = take_owned [OF run oid]
    have "sv_serves ?v" using sv_take.prems(1) by (simp add: begin_serves split: option.splits)
    then have served: "serves (sv_oid s) (Some d')" "sv_serves s" using took(2) sv_take(2) by simp_all
    then obtain f where f: "call_function e d' = Some f" "f = entry_function e"
      using took(2,3) by (auto simp: call_function_def split: if_splits)
    have ok: "going_ok s" using sv_take.prems(2) served by (simp add: going_def)
    then have queue: "sv_retry_queue (sv_oid s) (Some d)" using sv_take(2) by (simp add: going_ok_def base_ok_def)
    have "debounce_due x" if "f = Sf_retry x" for x
      using took(5) [OF queue] that f(2) by (cases x) (simp_all add: retry_control_def retry_due_def)
    then have "going (begin_server_function clock f ?v)"
      using took(1,4) queue sv_take(1,2,6) f(2) served by (intro going_begin [OF ok]) auto
    then show ?case using f(1) by simp
  next
    case (sv_action s a as clock)
    then show ?case by (intro going_action)
  next
    case (sv_run s u us os)
    have "sv_serves s" using sv_run.prems(1) serves_task [of ep rem os u "s\<lparr>sv_io := us\<rparr>"] by simp
    then show ?case using going_task sv_run by blast
  next
    case (sv_accept_done s xs a t ys ec c)
    then show ?case by (intro going_accept_done)
  next
    case (sv_request_timer s)
    then show ?case by (intro going_request_timer)
  next
    case (sv_peer_slot s xs p sig ys)
    have "going (s\<lparr>sv_signals := xs @ ys\<rparr>)"
      by (rule going_view [of s, OF _ _ _ sv_peer_slot.prems(2)]) (simp_all add: base_view_def)
    then show ?case using sv_peer_slot(1) by (intro going_slot) simp_all
  next
    case (sv_other s d d')
    have served: "sv_serves s" using other_objects_owned(2) [OF sv_other(2)] sv_other by simp
    have "adds_others (retry_control Sf_retry) (sv_oid s) (Some d) (Some d')"
      using other_objects_owned(1,3) [OF sv_other(2)] sv_other served by (simp add: adds_others_def)
    then have "base_view s (s\<lparr>sv_disp := Some d'\<rparr>)"
      using sv_other(1) other_objects_owned(1) [OF sv_other(2)] by (simp add: base_view_def timer_ok_def)
    then show ?case by (rule going_view [of s, OF _ _ _ sv_other.prems(2)]) simp_all
  next
    case (sv_probe_expires s xs tm t ys)
    show ?case
      by (rule going_view [of s, OF _ _ _ sv_probe_expires.prems(2)]) (simp_all add: base_view_def sv_ops)
  next
    case (sv_probe_connect_done s xs tm t ys ec)
    show ?case
      by (rule going_view [of s, OF _ _ _ sv_probe_connect_done.prems(2)]) (simp_all add: base_view_def sv_ops)
  next
    case (sv_request_expires s rid)
    show ?case by (rule going_view [of s, OF _ _ _ sv_request_expires.prems(2)]) (simp_all add: base_view_def)
  next
    case (sv_peer_announces s p sig)
    show ?case by (rule going_view [of s, OF _ _ _ sv_peer_announces.prems(2)]) (simp_all add: base_view_def)
  next
    case (sv_peer_gone p s)
    show ?case by (rule going_view [of s, OF _ _ _ sv_peer_gone.prems(2)]) (simp_all add: base_view_def)
  next
    case (sv_runtime_changes s rt)
    show ?case by (rule going_view [of s, OF _ _ _ sv_runtime_changes.prems(2)]) (simp_all add: base_view_def)
  qed (simp_all add: going_sv_enqueue going_post server_async_start_def server_async_stop_def
      server_async_send_def server_async_respond_def server_async_request_def server_async_close_peer_def)
qed

lemma going_initial: "server_initial s \<Longrightarrow> going s"
proof -
  assume "server_initial s"
  then obtain p options self oid d rt where s: "s = new_server p options self oid d rt"
    and d: "dispatcher_inv d" "oid \<notin> object_ids d"
    by (auto simp: server_initial_def)
  show "going s"
    using attach_owned [OF d]
    by (simp add: going_def going_ok_def base_ok_def s new_server_def timer_ok_def new_notification_scope_def)
qed

interpretation server_machine: event_machine server_initial "server_step verify ep rem" going
  by unfold_locales (fact going_initial, blast intro: going_step)

end
