(* ===== verification/Server_Properties.thy ===== *)
theory Server_Properties
  imports Server_Log Server_Machine
begin

text \<open>
  What the server promises: it keeps accepting or trying to bind, holds nothing once stopped, its
  state stays well formed, the reports about each peer are in order and about verified peers only,
  every request is answered once, and its shutdown is final.
\<close>

section \<open>Examples\<close>

text \<open>A server on a fresh dispatcher, started, and with its function taken by the worker.\<close>

definition example_filesystem :: filesystem where
  "example_filesystem =
     \<lparr>weakly_canonical = Some, absolute_path = Some, lexically_normal = (\<lambda>p. p), entry_of = (\<lambda>p. p),
      socket_files = (\<lambda>_. None)\<rparr>"

definition example_server :: "nat server" where
  "example_server =
     new_server ''/tmp/socket'' default_server_options 1 1 (new_dispatcher 0)
       \<lparr>socket_file_path_owners = (\<lambda>_. None), runtime_fs = example_filesystem\<rparr>"

definition started_server :: "nat server" where
  "started_server =
     begin_server_function None Sf_start
       ((server_async_start example_server)\<lparr>sv_disp := Some (snd (attach 1 (new_dispatcher 0)))\<rparr>)"

lemmas server_example_defs = example_server_def started_server_def new_server_def new_dispatcher_def
  attach_def server_async_start_def sv_enqueue_def enqueue_to_dispatcher_def enqueue_def
  insert_by_when_def when_immediately_def when_internal_detached_def

lemma example_server_initial: "server_initial example_server"
  unfolding server_initial_def example_server_def
  by (intro exI conjI, rule refl)
     (simp_all add: new_dispatcher_def attach_def dispatcher_inv_def queue_sorted_def queue_owned_def)

lemma started_server_step:
  "server_step verify ep rem (server_async_start example_server) started_server"
proof -
  let ?s = "server_async_start example_server"
  let ?e = "\<lparr>object_id_value = 1, entry_function = Sf_start, entry_when = 1\<rparr>"
  let ?d = "snd (attach 1 (new_dispatcher 0))"
  have "server_step verify ep rem ?s
      (case call_function ?e ?d of
         None \<Rightarrow> ?s\<lparr>sv_disp := Some ?d\<rparr>
       | Some f \<Rightarrow> begin_server_function None f (?s\<lparr>sv_disp := Some ?d\<rparr>))"
    by (rule sv_take [where now = None and d = "the (sv_disp ?s)"])
       (simp_all add: server_example_defs worker_iteration_def calculate_duration_def clock_ok_def)
  then show ?thesis
    by (simp add: started_server_def call_function_def attach_def new_dispatcher_def)
qed

lemma started_server_reachable: "reachable_from server_initial (server_step verify ep rem) started_server"
proof -
  have "reachable_from server_initial (server_step verify ep rem) example_server"
    by (rule reach_init) (rule example_server_initial)
  then have "reachable_from server_initial (server_step verify ep rem) (server_async_start example_server)"
    by (rule reach_step) (rule sv_start)
  then show ?thesis
    by (rule reach_step) (rule started_server_step)
qed

lemma started_server_bounds: "sv_requested started_server < 2 ^ 64" "sv_accepted started_server < 2 ^ 64"
  by (simp_all add: server_example_defs)

section \<open>Progress\<close>

text \<open>C21: The server never gets stuck. While it is started and its dispatcher serves it, either
  something is on its way that will bind for the current session (a function about to post the
  bind, a posted bind, a notification of a failed bind or of a closed acceptor, or the retry timer
  with no cancellation behind it), or its acceptor is open with an accept of the current session
  outstanding or about to be made or handled. No order of starts, stops, failing binds and accepts,
  health check failures, timeouts and retries on the two threads leaves it deaf.\<close>

theorem server_never_stuck:
  assumes "reachable_from server_initial (server_step verify ep rem) s"
    and "sv_serves s" and "scope_running (sv_scope s)"
  shows "will_bind s \<or> accepting s"
  using server_machine.reachable_inv [OF assms(1)] assms(2,3) going_progress by (simp add: going_def)

lemma server_never_stuck_witness: "will_bind started_server \<or> accepting started_server"
proof -
  have "sv_serves started_server" "scope_running (sv_scope started_server)"
    by (simp_all add: server_example_defs serves_def scope_start_def)
  then show ?thesis using server_never_stuck [OF started_server_reachable] by blast
qed

text \<open>C24: A stopped server holds nothing. When the server is stopped, then as soon as no close of
  everything is pending (neither posted nor about to be posted by the function that runs) it has no
  acceptor and no bound path to remove, no accept is outstanding, no peer is in its map, no health
  check runs and no request waits for a response. (Fewer than \<open>2 ^ 64\<close> requests.)\<close>

theorem server_stopped_holds_nothing:
  assumes "reachable_from server_initial (server_step verify ep rem) s" and "sv_requested s < 2 ^ 64"
    and "\<not> scope_running (sv_scope s)" and "\<not> sv_closing s"
  shows "acceptor s = None \<and> bound_path s = None \<and> accepts s = [] \<and> peers s = [] \<and>
    health_timeout s = None \<and> health_peer s = None \<and> pending_requests (sv_requests s) = []"
proof -
  have wf: "server_wf s"
    using server_holding.reachable_inv [OF assms(1)] assms(2) by (simp add: held_inv_def)
  have none: "\<not> sv_holds s"
    using server_stopping.reachable_inv [OF assms(1)] assms(3,4) by (simp add: stopped_inv_def)
  then have "acceptor s = None" "peers s = []" by (simp_all add: sv_holds_def)
  moreover have "pending_requests (sv_requests s) = []"
    using wf \<open>peers s = []\<close> by (cases "pending_requests (sv_requests s)")
      (auto simp: server_wf_def requests_owned_def map_keys_def)
  ultimately show ?thesis
    using none wf_no_acceptor [OF wf] by (simp add: sv_holds_def)
qed

lemma server_stopped_holds_nothing_witness: "peers example_server = []"
proof -
  have "reachable_from server_initial (server_step (\<lambda>_. True) (\<lambda>_. No_error) plain_remove) example_server"
    by (rule reach_init) (rule example_server_initial)
  moreover have "sv_requested example_server < 2 ^ 64" "\<not> scope_running (sv_scope example_server)"
    "\<not> sv_closing example_server"
    by (simp_all add: example_server_def new_server_def new_notification_scope_def sv_closing_def)
  ultimately show ?thesis using server_stopped_holds_nothing by blast
qed

section \<open>The state\<close>

text \<open>C27: The server's state is well formed. The socket path it would remove is remembered only while
  the acceptor that created the file exists; outstanding accepts are of that acceptor; a connected
  probe belongs to the running health check; the keys of the peer map are distinct; the pending
  requests have distinct ids, each with an armed timer or a queued expiry, and each belongs to a
  peer in the map, so that no close of a peer, of all peers or by the remote side leaves a request
  behind. (Fewer than \<open>2 ^ 64\<close> requests.)\<close>

theorem server_state_well_formed:
  assumes "reachable_from server_initial (server_step verify ep rem) s" and "sv_requested s < 2 ^ 64"
  shows "(bound_path s \<noteq> None \<longrightarrow> acceptor s \<noteq> None) \<and>
    (\<forall>x \<in> set (accepts s). acceptor s = Some (fst x)) \<and>
    (health_peer s \<noteq> None \<longrightarrow> health_timeout s \<noteq> None) \<and>
    distinct (map fst (peers s)) \<and> rm_inv (sv_requests s) \<and>
    (\<forall>x \<in> set (pending_requests (sv_requests s)).
       \<exists>pid \<in> map_keys (peers s). pr_peer_id (snd x) = Some pid)"
  using server_holding.reachable_inv [OF assms(1)] assms(2)
  by (simp add: held_inv_def server_wf_def requests_owned_def)

lemma server_state_well_formed_witness: "distinct (map fst (peers started_server))"
  using server_state_well_formed [OF started_server_reachable started_server_bounds(1)] by blast

section \<open>Reports\<close>

text \<open>C26: The reports about a peer are in order and about verified peers only. For every peer id the
  signals the server gives follow the automaton \<open>next_phase\<close>: first \<open>peer_connected\<close>, once, then
  messages, requests and errors of that peer, then \<open>peer_closed\<close>, once, and nothing afterwards,
  whatever the order in which accepts, closes by either side, timeouts, stops and restarts happen
  on the two threads. And a reported peer is one that was accepted under this id, with the
  credentials its socket had, which the user's verifier accepted. (Fewer than \<open>2 ^ 64\<close> accepted
  peers.)\<close>

theorem server_reports_each_peer_in_order:
  assumes "reachable_from server_initial (server_step verify ep rem) s" and "sv_accepted s < 2 ^ 64"
  shows "reported pid (sv_log s) \<noteq> Misreported \<and>
    (Ss_peer_connected pid c \<in> set (sv_log s) \<longrightarrow>
       verify c \<and> (\<exists>p t. peer_info s p = Some (pid, t, c)))"
proof -
  have inv: "reports_inv verify s"
    using server_log.reachable_inv [OF assms(1)] assms(2) by (simp add: log_inv_def)
  have "verify c \<and> (\<exists>p t. peer_info s p = Some (pid, t, c))" if "Ss_peer_connected pid c \<in> set (sv_log s)"
  proof -
    have "(pid, c) \<in># connected_in (sv_log s)"
      using that by (auto intro!: bexI [of _ "Ss_peer_connected pid c"])
    then have connected: "(pid, c) \<in># connected_in (history s)" by (simp add: history_def)
    then have "(pid, c) \<in># readies s" by (simp add: readies_def)
    then obtain p where "(pid, c) \<in># peer_named (peer_info s) p"
      using inv unfolding reports_inv_def by blast
    then have "\<exists>t. peer_info s p = Some (pid, t, c)"
      by (auto simp: peer_named_def split: option.splits)
    moreover have "verify (snd (pid, c))"
      using inv connected unfolding reports_inv_def by blast
    ultimately show ?thesis by auto
  qed
  moreover have "reported pid (sv_log s) \<noteq> Misreported"
    using inv unfolding reports_inv_def by blast
  ultimately show ?thesis by blast
qed

lemma server_reports_each_peer_in_order_witness:
  "Ss_peer_connected 1 no_credentials \<notin> set (sv_log started_server)"
  using server_reports_each_peer_in_order
    [of "\<lambda>_. False" "\<lambda>_. No_error" plain_remove started_server 1 no_credentials]
    started_server_reachable started_server_bounds(2) by blast

section \<open>Requests\<close>

text \<open>A run that counts the requests made.\<close>

inductive server_asked ::
    "(peer_credentials \<Rightarrow> bool) \<Rightarrow> (path \<Rightarrow> error_code) \<Rightarrow> (path \<Rightarrow> filesystem \<Rightarrow> filesystem) \<Rightarrow>
     'cb multiset \<Rightarrow> 'cb server \<Rightarrow> bool"
  for verify :: "peer_credentials \<Rightarrow> bool" and ep :: "path \<Rightarrow> error_code"
    and rem :: "path \<Rightarrow> filesystem \<Rightarrow> filesystem" where
  asked_init: "server_initial s \<Longrightarrow> server_asked verify ep rem {#} s"
| asked_request: "server_asked verify ep rem M s \<Longrightarrow>
    server_asked verify ep rem (add_mset cb M) (server_async_request pid data cb s)"
| asked_other: "server_asked verify ep rem M s \<Longrightarrow> server_step verify ep rem s t \<Longrightarrow>
    \<forall>pid data cb. t \<noteq> server_async_request pid data cb s \<Longrightarrow> server_asked verify ep rem M t"

lemma server_asked_reachable:
  "server_asked verify ep rem M s \<Longrightarrow> reachable_from server_initial (server_step verify ep rem) s"
  by (induction rule: server_asked.induct) (auto intro: reachable_from.intros sv_request)

lemma owed_initial: "server_initial s \<Longrightarrow> owed s = {#}"
  by (auto simp: server_initial_def new_server_def owed_def new_request_manager_def attach_owned)

text \<open>C23: Every request to a peer is answered exactly once. While its dispatcher serves the server, the
  callbacks that were called, those about to be called, those queued on the dispatcher, those of
  requests waiting for a response and those of requests not yet sent are exactly the callbacks of
  the requests made, with multiplicity: responses, timeouts, errors, a peer closed by either side,
  a stop, and a request to a peer that is not connected lose no callback and call none twice.
  (Fewer than \<open>2 ^ 64\<close> requests.)\<close>

theorem server_answers_every_request_once:
  assumes "server_asked verify ep rem M s" and "sv_requested s < 2 ^ 64" and "sv_serves s"
  shows "image_mset fst (mset (sv_delivered s)) + (\<Sum>a \<in># mset (sv_thread s). sa_callbacks a) +
     (\<Sum>f \<in># mset (sv_own s). sf_callbacks f) + pending_callbacks (sv_requests s) +
     (\<Sum>u \<in># mset (sv_io s). st_callbacks u) = M"
proof -
  have "owed s = M"
    using assms
  proof (induction rule: server_asked.induct)
    case (asked_init s)
    then show ?case by (simp add: owed_initial)
  next
    case (asked_request M s cb pid data)
    then show ?case by (simp add: server_async_request_def sv_post_def owed_def)
  next
    case (asked_other M s t)
    note step = asked_other.hyps(2)
    have bound: "sv_requested s < 2 ^ 64"
      using held_requested [OF step_held [OF step]] asked_other.prems(1) by simp
    have "server_wf s"
      using server_holding.reachable_inv [OF server_asked_reachable [OF asked_other.hyps(1)]] bound
      by (simp add: held_inv_def)
    from owed_step [OF step this asked_other.prems] asked_other.hyps(3)
    show ?case
      using asked_other.IH [OF bound serves_step [OF step asked_other.prems(2)]] by blast
  qed
  then show ?thesis by (simp add: owed_def)
qed

lemma server_answers_every_request_once_witness:
  "(\<Sum>u \<in># mset (sv_io (server_async_request 1 [1] 7 example_server)). st_callbacks u) = {#7#}"
proof -
  let ?s = "server_async_request 1 [1] 7 example_server"
  have "server_asked (\<lambda>_. True) (\<lambda>_. No_error) plain_remove {#7#} ?s"
    by (rule asked_request [OF asked_init [OF example_server_initial]])
  moreover have "sv_requested ?s < 2 ^ 64" "sv_serves ?s"
    by (simp_all add: server_async_request_def sv_post_def server_example_defs serves_def)
  ultimately show ?thesis
    using server_answers_every_request_once [of "\<lambda>_. True" "\<lambda>_. No_error" plain_remove "{#7#}" ?s]
    by (simp add: server_async_request_def sv_post_def example_server_def new_server_def owned_def
        own_entries_def new_dispatcher_def attach_def new_request_manager_def)
qed

section \<open>Shutdown\<close>

text \<open>C25: Shutdown is final. After \<open>async_shutdown\<close> of a reachable server, called where the API allows it
  (in a slot or the verifier on the dispatcher thread, or elsewhere, where it waits for the
  running function), no signal is given and no request callback is called any more, whatever the
  peers, the health check, the timers, the dispatcher and the user's further calls do. A verifier
  that shuts the server down and then accepts the peer does not get it reported either.\<close>

theorem server_silent_after_shutdown:
  assumes "reachable_from server_initial (server_step verify ep rem) s" and "\<not> sv_shutdown_started s"
    and "user_code (sv_thread s)" and "sv_thread s \<noteq> [] \<Longrightarrow> on_thread"
    and "(server_step verify ep rem)\<^sup>*\<^sup>* (server_async_shutdown on_thread s) t"
  shows "sv_log t = sv_log s \<and> sv_delivered t = sv_delivered s"
proof -
  have "silent_from (sv_log s) (sv_delivered s) (server_async_shutdown on_thread s)"
    using silent_after_shutdown [OF server_attachment.reachable_inv [OF assms(1)] assms(2-4)] by blast
  from assms(5) this have "silent_from (sv_log s) (sv_delivered s) t"
    by (induction rule: rtranclp_induct) (blast intro: silent_step)+
  then show ?thesis by (simp add: silent_from_def)
qed

lemma server_silent_after_shutdown_witness:
  "sv_log (server_async_start (server_async_shutdown False example_server)) = []"
proof -
  have "\<not> sv_shutdown_started example_server" "user_code (sv_thread example_server)"
    "sv_thread example_server = []" "sv_log example_server = []"
    by (simp_all add: example_server_def new_server_def)
  moreover have "reachable_from server_initial (server_step (\<lambda>_. True) (\<lambda>_. No_error) plain_remove) example_server"
    by (rule reach_init) (rule example_server_initial)
  ultimately show ?thesis
    using server_silent_after_shutdown [of "\<lambda>_. True" "\<lambda>_. No_error" plain_remove example_server False
        "server_async_start (server_async_shutdown False example_server)"]
    by (metis sv_start r_into_rtranclp)
qed

end
