(* ===== verification/Server_Composition.thy ===== *)
theory Server_Composition
  imports Composition Server_Properties
begin

text \<open>
  The server with its connections, those it accepted and those of its health checks: its calls are
  performed on modelled peers, and the signals that its slots receive are theirs. As for the client,
  the laws of an owner make both machines run in the composition.
\<close>

section \<open>The server as an owner\<close>

fun server_perform :: "server_call \<Rightarrow> peer \<Rightarrow> peer" where
  "server_perform Call_start p = async_start p"
| "server_perform (Call_send data) p = async_send data p"
| "server_perform (Call_send_request rid data) p = async_send_request rid data p"
| "server_perform (Call_send_response rid data) p = async_send_response rid data p"
| "server_perform Call_send_health_check p = async_send_health_check p"
| "server_perform Call_close p = async_close None p"

text \<open>
  The completion that \<^verbatim>\<open>close_peer\<close> passes to \<^verbatim>\<open>async_close\<close> is the server's task
  \<open>St_peer_close_done\<close>, which the server's machine queues itself.
\<close>

fun server_call_frames :: "server_call \<Rightarrow> bytes list" where
  "server_call_frames (Call_send data) = [make_user_data_frame data]"
| "server_call_frames (Call_send_request rid data) = [make_request_frame rid data]"
| "server_call_frames (Call_send_response rid data) = [make_response_frame rid data]"
| "server_call_frames Call_send_health_check = [make_health_check_frame]"
| "server_call_frames _ = []"

definition server_ops :: "('cb server, server_call) connection_owner" where
  "server_ops =
     \<lparr>announce = (\<lambda>p sig s.
        s\<lparr>sv_signals := sv_signals s @ [(p, sig)],
          sv_live := (if sig = Sig_closed then sv_live s - {p} else sv_live s),
          sv_unready := (if sig = Sig_ready then sv_unready s - {p} else sv_unready s)\<rparr>),
      destroy = (\<lambda>p s.
        s\<lparr>sv_signals := filter (\<lambda>(q, _). q \<noteq> p) (sv_signals s), sv_live := sv_live s - {p},
          sv_unready := sv_unready s - {p}\<rparr>),
      knows = (\<lambda>s p. peer_info s p \<noteq> None \<or> probe_info s p \<noteq> None), may_close = sv_live,
      may_ready = sv_unready, holds_ref = (\<lambda>s p. p \<in> snd ` set (peers s) \<or> health_peer s = Some p),
      calls_made = sv_calls, starts = (\<lambda>c. c = Call_start), perform = server_perform,
      call_frames = server_call_frames, connection_options = (\<lambda>s. common_params (sv_opts s))\<rparr>"

lemma server_ops_fields [simp]:
  "knows server_ops = (\<lambda>s p. peer_info s p \<noteq> None \<or> probe_info s p \<noteq> None)"
  "may_close server_ops = sv_live" "may_ready server_ops = sv_unready"
  "holds_ref server_ops s p = (p \<in> snd ` set (peers s) \<or> health_peer s = Some p)"
  "calls_made server_ops = sv_calls" "starts server_ops c = (c = Call_start)"
  "perform server_ops = server_perform" "call_frames server_ops = server_call_frames"
  "connection_options server_ops s = common_params (sv_opts s)"
  by (simp_all add: server_ops_def)

lemmas server_perform_defs = async_send_def async_send_request_def async_send_response_def
  async_send_health_check_def

lemma server_perform_steps: "c \<noteq> Call_start \<Longrightarrow> peer_step p (server_perform c p)"
  by (cases c) (simp_all add: server_perform_defs ps_push ps_close)

lemma server_perform_signals: "signals (server_perform c p) = signals p"
  by (cases c) (simp_all add: server_perform_defs async_push_frame_def async_close_def async_start_def post_def)

lemma server_perform_order:
  "c \<noteq> Call_start \<Longrightarrow> accepts_in_order r p \<Longrightarrow> accepts_in_order (r @ server_call_frames c) (server_perform c p)"
  by (cases c) (simp_all add: server_perform_defs accepts_asked accepts_close)

lemma server_frames_owned: "f \<in> set (server_call_frames c) \<Longrightarrow> \<not> automatic_frame f"
  by (cases c) (simp_all add: message_frames_owned)

section \<open>The calls of a step\<close>

text \<open>The references in use are below the next one.\<close>

definition sv_refs :: "'cb server \<Rightarrow> bool" where
  "sv_refs s \<longleftrightarrow> (\<forall>p. peer_info s p \<noteq> None \<or> probe_info s p \<noteq> None \<longrightarrow> p < sv_next_ref s)"

text \<open>From \<open>s\<close> to \<open>t\<close> nothing is started, and the references stay as they are.\<close>

definition sv_calm :: "'cb server \<Rightarrow> 'cb server \<Rightarrow> bool" where
  "sv_calm s t \<longleftrightarrow>
     calls_known server_ops s t \<and> sv_next_ref s \<le> sv_next_ref t"

definition sv_created :: "'cb server \<Rightarrow> 'cb server \<Rightarrow> bool" where
  "sv_created s t \<longleftrightarrow>
     calls_created server_ops s t \<and> sv_next_ref t = Suc (sv_next_ref s) \<and>
     (\<forall>p. knows server_ops t p \<longrightarrow> knows server_ops s p \<or> p = sv_next_ref s)"

lemma sv_calmI:
  assumes "peer_info t = peer_info s" and "probe_info t = probe_info s" and "sv_live t \<subseteq> sv_live s"
    and "snd ` set (peers t) \<subseteq> snd ` set (peers s)"
    and "health_peer t = health_peer s \<or> health_peer t = None"
    and "sv_calls t = sv_calls s @ cs" and "\<forall>p. (p, Call_start) \<notin> set cs"
    and "\<forall>x \<in> set cs. fst x \<in> snd ` set (peers s) \<or> health_peer s = Some (fst x)"
    and "sv_next_ref s \<le> sv_next_ref t"
  shows "sv_calm s t"
proof -
  have "starts_none server_ops cs" using assms(7) by (auto simp: starts_none_def)
  then show ?thesis
    using assms unfolding sv_calm_def calls_known_def by auto
qed

lemma sv_calm_trans: "sv_calm s t \<Longrightarrow> sv_calm t u \<Longrightarrow> sv_calm s u"
  by (auto simp: sv_calm_def intro: calls_known_trans)

lemma sv_calm_silent:
  assumes "peer_info t = peer_info s" and "probe_info t = probe_info s" and "sv_live t \<subseteq> sv_live s"
    and "snd ` set (peers t) \<subseteq> snd ` set (peers s)"
    and "health_peer t = health_peer s \<or> health_peer t = None" and "sv_calls t = sv_calls s"
    and "sv_next_ref s \<le> sv_next_ref t"
  shows "sv_calm s t"
  using assms by (intro sv_calmI [where cs = "[]"]) simp_all

lemma sv_calm_health: "sv_calm s (close_health_check_peer s)"
  by (rule sv_calmI [where cs = "case health_peer s of None \<Rightarrow> [] | Some p \<Rightarrow> [(p, Call_close)]"])
     (simp_all add: close_health_check_peer_eq split: option.split)

lemma sv_calm_close_all: "sv_calm s (close_all_peers s)"
  by (rule sv_calmI [where cs = "map (\<lambda>(_, p). (p, Call_close)) (peers s)"])
     (auto simp: close_all_peers_def sv_with_requests_def intro: rev_image_eqI)

lemma sv_calm_acceptor: "sv_calm s (close_acceptor rem s)"
  by (rule sv_calm_silent) (simp_all add: close_acceptor_eq)

lemma peer_held: "map_of (peers s) pid = Some p \<Longrightarrow> p \<in> snd ` set (peers s)"
  by (auto dest: map_of_SomeD intro: rev_image_eqI)

lemma sv_calm_close_peer: "sv_calm s (close_peer pid s)"
proof (cases "map_of (peers s) pid")
  case (Some p)
  then show ?thesis
    using peer_held [OF Some]
    by (intro sv_calmI [where cs = "[(p, Call_close)]"])
       (auto simp: close_peer_eq map_of_Some_keys remove_key_def)
qed (simp add: close_peer_def sv_calm_silent)

lemma sv_calm_call: "c \<noteq> Call_start \<Longrightarrow> sv_calm s (to_server_peer pid c s)"
proof (cases "map_of (peers s) pid")
  case (Some p)
  assume "c \<noteq> Call_start"
  then show ?thesis
    using peer_held [OF Some]
    by (intro sv_calmI [where cs = "[(p, c)]"]) (simp_all add: to_server_peer_def sv_call_def Some)
qed (simp add: to_server_peer_def sv_calm_silent)

lemma sv_calm_request: "sv_calm s (request_task pid data cb s)"
proof (cases "map_of (peers s) pid")
  case (Some p)
  have "sv_calm s (server_send_request pid p data cb s)"
    by (rule sv_calmI [where cs = "[(p, Call_send_request (fst (rm_add (Some pid) cb (Some pid) (sv_requests s))) data)]"])
       (simp_all add: server_send_request_eq Let_def peer_held [OF Some])
  then show ?thesis by (simp add: request_task_def Some)
qed (simp add: request_task_def sv_enqueue_def sv_calm_silent)

text \<open>A calm step before or after a silent one.\<close>

lemma sv_calm_stop: "sv_calm s (stop_task rem s)"
  unfolding stop_task_def
  by (rule sv_calm_trans [OF sv_calm_trans [OF sv_calm_acceptor sv_calm_close_all] sv_calm_health])

lemma sv_calm_shutdown: "sv_calm s (shutdown_task rem s)"
proof -
  let ?a = "close_acceptor rem s"
  let ?b = "?a\<lparr>sv_silenced := sv_silenced ?a \<union> snd ` set (peers ?a)\<rparr>"
  let ?c = "close_all_peers ?b"
  let ?d = "case health_peer ?c of None \<Rightarrow> ?c | Some p \<Rightarrow> ?c\<lparr>sv_silenced := insert p (sv_silenced ?c)\<rparr>"
  let ?e = "close_health_check_peer ?d"
  have "sv_calm ?a ?b" "sv_calm ?c ?d" "sv_calm ?e (sv_post St_nothing ?e)"
    by (intro sv_calm_silent; simp add: sv_post_def split: option.split)+
  then have "sv_calm s (sv_post St_nothing ?e)"
    by (meson sv_calm_trans sv_calm_acceptor sv_calm_close_all sv_calm_health)
  then show ?thesis by (simp add: shutdown_task_def Let_def)
qed

lemma sv_calm_failed: "sv_calm s (handle_health_check_failed rem ec t tm s)"
proof (cases "is_current_health_check t tm s")
  case True
  let ?v = "close_acceptor rem (close_health_check_peer s)"
  have "sv_calm ?v (sv_notify t Sn_closed ?v)"
    by (rule sv_calm_silent) (simp_all add: sv_notify_def)
  then have "sv_calm s (sv_notify t Sn_closed ?v)"
    by (meson sv_calm_trans sv_calm_acceptor sv_calm_health)
  with True show ?thesis by (simp add: handle_health_check_failed_def)
qed (simp add: handle_health_check_failed_def sv_calm_silent)

lemma sv_calm_notified: "sv_calm v (sv_notify t n (close_acceptor rem v))"
  by (rule sv_calm_trans [OF sv_calm_acceptor [of v rem] sv_calm_silent]) (simp_all add: sv_notify_def)

lemma sv_calm_bind: "sv_calm s (server_bind ep rem os t s)"
proof (cases rule: server_bind_cases [of ep rem os t s])
  case 1
  then show ?thesis by (simp add: sv_calm_silent)
next
  case (2 v ec)
  obtain n a b rt where
      v: "v = s\<lparr>sv_next_ref := sv_next_ref s + n, acceptor := a, bound_path := b, sv_runtime := rt\<rparr>"
    using 2(4) by blast
  have "sv_calm s v" by (rule sv_calm_silent) (simp_all add: v)
  then show ?thesis
    unfolding 2(1) handle_bind_failed_def by (rule sv_calm_trans [OF _ sv_calm_notified])
next
  case (3 k rt)
  show ?thesis
    unfolding 3(1) by (rule sv_calm_silent) (simp_all add: sv_continue_def sv_notify_def)
qed

lemma sv_calm_accepted: "sv_calm s (accept_handler rem t ec credentials s)"
  using sv_calm_notified [of s t Sn_closed rem]
  by (auto simp: accept_handler_def sv_continue_def intro!: sv_calm_silent)

text \<open>Two tasks make a connection, and its first call starts it.\<close>

lemma server_accepts:
  assumes "sv_refs s"
  shows "sv_calm s (handle_accepted_socket credentials t s) \<or> sv_created s (handle_accepted_socket credentials t s)"
proof (cases "is_current t (sv_scope s)")
  case True
  let ?t = "handle_accepted_socket credentials t s"
  have fresh: "peer_info s (sv_next_ref s) = None" "probe_info s (sv_next_ref s) = None"
    using assms by (force simp: sv_refs_def)+
  have "calls_created server_ops s ?t"
    unfolding calls_created_def
    by (intro exI [where x = "sv_next_ref s"] exI [where x = Call_start] exI [where x = "[]"])
       (use True fresh in \<open>auto simp: handle_accepted_socket_def sv_continue_def sv_call_def Let_def
          starts_none_def fun_eq_iff emplace_peer_def\<close>)
  moreover have "knows server_ops ?t p \<longrightarrow> knows server_ops s p \<or> p = sv_next_ref s" for p
    using True by (simp add: handle_accepted_socket_def sv_continue_def sv_call_def Let_def)
  moreover have "sv_next_ref ?t = Suc (sv_next_ref s)"
    using True by (simp add: handle_accepted_socket_def sv_continue_def sv_call_def Let_def)
  ultimately show ?thesis by (simp add: sv_created_def)
next
  case False
  then show ?thesis by (simp add: handle_accepted_socket_def sv_calm_silent)
qed

lemma server_probes:
  assumes "sv_refs s"
  shows "sv_calm s (probe_connect_handler tm t ec s) \<or> sv_created s (probe_connect_handler tm t ec s)"
proof (cases "is_current_health_check t tm s \<and> \<not> is_error ec")
  case True
  let ?t = "probe_connect_handler tm t ec s"
  have fresh: "peer_info s (sv_next_ref s) = None" "probe_info s (sv_next_ref s) = None"
    using assms by (force simp: sv_refs_def)+
  have "calls_created server_ops s ?t"
    unfolding calls_created_def
    by (intro exI [where x = "sv_next_ref s"] exI [where x = Call_start]
          exI [where x = "[(sv_next_ref s, Call_send_health_check)]"])
       (use True fresh in \<open>auto simp: probe_connect_handler_def sv_call_def Let_def starts_none_def fun_eq_iff\<close>)
  moreover have "knows server_ops ?t p \<longrightarrow> knows server_ops s p \<or> p = sv_next_ref s" for p
    using True by (simp add: probe_connect_handler_def sv_call_def Let_def)
  moreover have "sv_next_ref ?t = Suc (sv_next_ref s)"
    using True by (simp add: probe_connect_handler_def sv_call_def Let_def)
  ultimately show ?thesis by (simp add: sv_created_def)
next
  case False
  then have "sv_calm s (probe_connect_handler tm t ec s)"
    by (intro sv_calm_silent)
       (auto simp: probe_connect_handler_def close_probe_socket_def cancel_probe_timer_def sv_continue_def)
  then show ?thesis ..
qed

lemma server_task_calls:
  assumes "sv_refs s"
  shows "sv_calm s (run_task ep rem os u s) \<or> sv_created s (run_task ep rem os u s)"
proof (cases u)
  case (St_accepted credentials t)
  then show ?thesis using server_accepts [OF assms] by simp
next
  case (St_probe_connected tm t ec)
  then show ?thesis using server_probes [OF assms] by simp
next
  case (St_accept t)
  then show ?thesis by (auto simp: server_accept_def intro!: sv_calm_silent split: option.split)
next
  case (St_peer_close_done pid)
  then show ?thesis by (simp add: sv_enqueue_def sv_calm_silent)
next
  case (St_response_received pid p rid data)
  then show ?thesis by (simp add: response_received_task_def sv_with_requests_def sv_calm_silent)
next
  case (St_error_occurred pid ec)
  then show ?thesis by (simp add: error_occurred_task_def sv_with_requests_def sv_calm_silent)
next
  case (St_peer_closed pid)
  then show ?thesis
    by (intro disjI1 sv_calm_silent)
       (auto simp: peer_closed_task_def sv_with_requests_def Let_def remove_key_def)
next
  case (St_health_check t)
  then show ?thesis
    by (intro disjI1 sv_calm_silent) (auto simp: health_check_task_def sv_continue_def Let_def)
next
  case (St_probe_timer tm t ec)
  then show ?thesis
    by (intro disjI1 sv_calm_silent)
       (auto simp: probe_timer_handler_def close_probe_socket_def sv_continue_def Let_def)
next
  case (St_probe_response tm t)
  then show ?thesis by (simp add: probe_response_task_def sv_calm_health sv_calm_silent)
qed (simp_all add: sv_calm_bind sv_calm_accepted sv_calm_stop sv_calm_shutdown sv_calm_silent sv_calm_call
    sv_calm_request sv_calm_close_peer sv_calm_failed)

lemma sv_calm_shutting: "sv_calm s (server_async_shutdown on_thread s)"
  by (rule sv_calm_silent)
     (simp_all add: server_async_shutdown_def server_detach_def server_cleanup_def stop_health_check_timer_def
        sv_post_def Let_def split: option.split prod.split bool.split)

lemma sv_calm_request_timer: "sv_calm s (server_request_timer s)"
proof -
  obtain rm out tc where r: "run_expired (sv_requests s) = (rm, out, tc)" by (cases "run_expired (sv_requests s)") auto
  let ?v = "sv_with_requests (rm, out) s"
  have "sv_calm s ?v" by (rule sv_calm_silent) (simp_all add: sv_with_requests_def)
  moreover have "sv_calm ?v (server_request_timed_out pid ?v)" for pid
    by (simp add: server_request_timed_out_def sv_calm_close_peer sv_calm_silent)
  ultimately show ?thesis
    by (auto simp: server_request_timer_def r Let_def split: option.split intro: sv_calm_trans)
qed

lemma sv_calm_begin: "sv_calm s (begin_server_function now f (s\<lparr>sv_disp := d\<rparr>))"
  by (intro sv_calm_silent)
     (cases f; simp add: if_exposed_def split: option.split prod.split)+

lemma sv_calm_action: "sv_calm s (run_server_action verify now a (s\<lparr>sv_thread := as\<rparr>))"
  by (intro sv_calm_silent)
     (cases a; simp add: sv_post_def sv_enqueue_def stop_health_check_timer_def start_health_check_timer_def
        schedule_bind_retry_def split: prod.split)+

lemma sv_calm_slot: "sv_calm s (server_peer_slot p sig (s\<lparr>sv_signals := x\<rparr>))"
proof -
  have "sv_calm v (accepted_peer_slot p pid t c sig v)" for pid t c and v :: "'a server"
    by (intro sv_calm_silent) (cases sig; simp add: sv_ops)+
  moreover have "sv_calm v (probe_slot tm t sig v)" for tm t and v :: "'a server"
    by (intro sv_calm_silent) (cases sig; simp add: sv_ops)+
  moreover have "sv_calm s (s\<lparr>sv_signals := x\<rparr>)" by (rule sv_calm_silent) simp_all
  ultimately show ?thesis
    by (auto simp: server_peer_slot_def split: option.split prod.split intro: sv_calm_trans)
qed

lemma server_step_calls:
  assumes "server_step verify ep rem s t" and "sv_refs s"
  shows "sv_calm s t \<or> sv_created s t"
  using assms
proof (induction rule: server_step.induct)
  case (sv_take s d now e d' clock)
  have "sv_calm s (s\<lparr>sv_disp := Some d'\<rparr>)" by (rule sv_calm_silent) simp_all
  then show ?case using sv_calm_begin by (auto split: option.split)
next
  case (sv_run s u us os)
  have "sv_refs (s\<lparr>sv_io := us\<rparr>)" using sv_run(2) by (simp add: sv_refs_def)
  from server_task_calls [OF this] show ?case
    by (simp add: sv_calm_def sv_created_def calls_known_def calls_created_def)
qed (simp_all add: sv_calm_action sv_calm_slot sv_calm_shutting sv_calm_request_timer sv_calm_silent
    server_async_start_def server_async_stop_def server_async_send_def server_async_respond_def
    server_async_request_def server_async_close_peer_def sv_enqueue_def sv_post_def)

lemma sv_refs_step:
  assumes "sv_refs s" and "server_step verify ep rem s t"
  shows "sv_refs t"
  using server_step_calls [OF assms(2,1)]
proof
  assume "sv_calm s t"
  then have "knows server_ops t = knows server_ops s" "sv_next_ref s \<le> sv_next_ref t"
    by (simp_all add: sv_calm_def calls_known_def)
  then show ?thesis
    using assms(1) unfolding sv_refs_def by (simp add: fun_eq_iff) (meson order_less_le_trans)
next
  assume "sv_created s t"
  then have "sv_next_ref t = Suc (sv_next_ref s)"
      "\<And>p. knows server_ops t p \<Longrightarrow> knows server_ops s p \<or> p = sv_next_ref s"
    unfolding sv_created_def by blast+
  then show ?thesis
    using assms(1) unfolding sv_refs_def server_ops_fields by (metis less_Suc_eq)
qed

lemma sv_refs_initial: "server_initial s \<Longrightarrow> sv_refs s"
  by (auto simp: server_initial_def new_server_def sv_refs_def)

interpretation server_refs: event_machine server_initial "server_step verify ep rem" sv_refs
  by unfold_locales (auto intro: sv_refs_initial sv_refs_step)

interpretation server_system:
  connection_system server_initial "server_step verify ep rem" sv_refs server_ops
proof (intro connection_system.intro connection_system_axioms.intro)
  show "event_machine server_initial (server_step verify ep rem) sv_refs"
    by (rule server_refs.event_machine_axioms)
  fix s t :: "'a server" and p sig c pr
  show "server_step verify ep rem s (announce server_ops p sig s)"
    if "knows server_ops s p" "sig = Sig_closed \<Longrightarrow> p \<in> may_close server_ops s"
      "sig = Sig_ready \<Longrightarrow> p \<in> may_ready server_ops s"
    using that sv_peer_announces [of s p sig verify ep rem] by (simp add: server_ops_def)
  show "server_step verify ep rem s (destroy server_ops p s)" if "\<not> holds_ref server_ops s p"
    using that sv_peer_gone [of p s verify ep rem] by (simp add: server_ops_def)
  show "calls_known server_ops s t \<or> calls_created server_ops s t"
    if "sv_refs s" "server_step verify ep rem s t"
    using server_step_calls [OF that(2,1)] by (auto simp: sv_calm_def sv_created_def)
  show "\<not> knows server_ops s p" "may_close server_ops s = {}" "\<not> holds_ref server_ops s p"
      "calls_made server_ops s = []"
    if "server_initial s"
    using that by (auto simp: server_initial_def new_server_def)
  show "peer_step pr (perform server_ops c pr)" if "\<not> starts server_ops c"
    using that by (simp add: server_perform_steps)
  show "accepts_in_order (r @ call_frames server_ops c) (perform server_ops c pr)"
    if "\<not> starts server_ops c" "accepts_in_order r pr" for r
    using that by (simp add: server_perform_order)
  show "\<not> automatic_frame f" if "f \<in> set (call_frames server_ops c)" for f
    using that by (simp add: server_frames_owned)
  show "signals (perform server_ops c pr) = signals pr"
    by (simp add: server_perform_signals)
qed (auto simp: server_ops_def)

abbreviation composed_server ::
    "(peer_credentials \<Rightarrow> bool) \<Rightarrow> (path \<Rightarrow> error_code) \<Rightarrow> (path \<Rightarrow> filesystem \<Rightarrow> filesystem) \<Rightarrow>
     'cb server composed \<Rightarrow> bool" where
  "composed_server verify ep rem \<equiv>
     reachable_from (composed_initial server_initial) (composed_step server_ops (server_step verify ep rem))"

section \<open>A server with a connection\<close>

text \<open>
  \<open>started_server\<close> once it is bound: the rest of its thread, its executor and the outstanding accepts;
  the report that it is bound waits in the queue.
\<close>

definition bound_runtime :: runtime where
  "bound_runtime =
     \<lparr>socket_file_path_owners = [''/tmp/socket'' \<mapsto> 1],
      runtime_fs = example_filesystem\<lparr>socket_files := [''/tmp/socket'' \<mapsto> Some 1]\<rparr>\<rparr>"

definition bound_server :: "nat server_task list \<Rightarrow> (acceptor_ref \<times> token) list \<Rightarrow> nat server" where
  "bound_server us as =
     started_server\<lparr>sv_thread := [], sv_io := us, accepts := as, acceptor := Some 0, sv_next_ref := 1,
       bound_path := Some ''/tmp/socket'', sv_runtime := bound_runtime,
       sv_disp := Some ((snd (attach 1 (new_dispatcher 0)))\<lparr>queue :=
         [\<lparr>object_id_value = 1, entry_function = Sf_scoped 0 Sn_bound, entry_when = 1\<rparr>]\<rparr>)\<rparr>"

definition accepted_server :: "nat server" where
  "accepted_server =
     (bound_server [St_accept 0] [])
       \<lparr>next_peer_id := 1, sv_next_ref := 2, peers := [(1, 1)],
        peer_info := [1 \<mapsto> (1, 0, no_credentials)], sv_live := {1}, sv_unready := {1},
        sv_accepted := 1, sv_calls := [(1, Call_start)]\<rparr>"

definition accepted_composed :: "nat server composed" where
  "accepted_composed = \<lparr>owner = accepted_server, connections = [1 \<mapsto> fresh_peer]\<rparr>"

lemmas bound_server_defs = bound_server_def bound_runtime_def server_example_defs scope_defs
  new_notification_scope_def example_filesystem_def

lemma composed_server_quiet:
  assumes "composed_server verify ep rem \<lparr>owner = s, connections = (\<lambda>_. None)\<rparr>"
    and "server_step verify ep rem s t" and "sv_signals t = sv_signals s" and "sv_live s = sv_live t"
    and "peer_info t = peer_info s" and "probe_info t = probe_info s" and "sv_unready s \<subseteq> sv_unready t"
  shows "composed_server verify ep rem \<lparr>owner = t, connections = (\<lambda>_. None)\<rparr>"
proof -
  have "\<forall>p sig. t \<noteq> announce server_ops p sig s"
  proof (intro allI notI)
    fix p sig
    assume "t = announce server_ops p sig s"
    then have "sv_signals t = sv_signals s @ [(p, sig)]" by (simp add: server_ops_def)
    then show False using assms(3) by simp
  qed
  then show ?thesis
    using server_system.unconnected_step [OF assms(1,2)] assms(4-7) by simp
qed

lemma composed_server_started:
  "composed_server verify ep rem \<lparr>owner = started_server, connections = (\<lambda>_. None)\<rparr>"
proof -
  have "composed_server verify ep rem \<lparr>owner = example_server, connections = (\<lambda>_. None)\<rparr>"
    by (rule reach_init) (simp add: composed_initial_def example_server_initial)
  then have "composed_server verify ep rem \<lparr>owner = server_async_start example_server, connections = (\<lambda>_. None)\<rparr>"
    by (rule composed_server_quiet [OF _ sv_start]) (simp_all add: server_async_start_def sv_enqueue_def)
  then show ?thesis
    by (rule composed_server_quiet [OF _ started_server_step]) (simp_all add: server_example_defs)
qed

lemma composed_server_bound:
  "composed_server verify (\<lambda>_. No_error) plain_remove
     \<lparr>owner = bound_server [St_accept 0] [], connections = (\<lambda>_. None)\<rparr>"
proof -
  let ?step = "server_step verify (\<lambda>_. No_error) plain_remove"
  let ?s = "started_server\<lparr>sv_thread := [], sv_io := [St_bind 0]\<rparr>"
  let ?os = "\<lparr>open_error = No_error, bind_error = No_error, listen_error = No_error\<rparr>"
  have "?step started_server ?s"
    using sv_action [of started_server Sa_bind "[]" None verify "\<lambda>_. No_error" plain_remove]
    by (simp add: bound_server_defs sv_post_def clock_ok_def)
  then have s: "composed_server verify (\<lambda>_. No_error) plain_remove \<lparr>owner = ?s, connections = (\<lambda>_. None)\<rparr>"
    by (rule composed_server_quiet [OF composed_server_started]) simp_all
  have "?step ?s (bound_server [St_accept 0] [])"
    using sv_run [of ?s "St_bind 0" "[]" verify "\<lambda>_. No_error" plain_remove ?os]
    by (simp add: bound_server_defs server_bind_def is_error_def remove_socket_file_path_def plain_remove_def
        make_socket_file_path_key_def fs_bind_def set_socket_file_path_owner_def sv_notify_def sv_continue_def
        scope_enqueue_def Let_def)
  then show ?thesis
    by (rule composed_server_quiet [OF s]) (simp_all add: bound_server_def)
qed

lemma composed_server_accepting:
  "composed_server (\<lambda>_. True) (\<lambda>_. No_error) plain_remove
     \<lparr>owner = bound_server [St_accepted no_credentials 0] [], connections = (\<lambda>_. None)\<rparr>"
proof -
  let ?step = "server_step (\<lambda>_. True) (\<lambda>_. No_error) plain_remove"
  note run = sv_run [where verify = "\<lambda>_. True" and ep = "\<lambda>_. No_error" and rem = plain_remove]
  have quiet: "composed_server (\<lambda>_. True) (\<lambda>_. No_error) plain_remove
      \<lparr>owner = bound_server vs bs, connections = (\<lambda>_. None)\<rparr>"
    if "composed_server (\<lambda>_. True) (\<lambda>_. No_error) plain_remove
        \<lparr>owner = bound_server us as, connections = (\<lambda>_. None)\<rparr>"
      "?step (bound_server us as) (bound_server vs bs)" for us as vs bs
    by (rule composed_server_quiet [OF that]) (simp_all add: bound_server_def)
  have "?step (bound_server [St_accept 0] []) (bound_server [] [(0, 0)])"
    using run [of "bound_server [St_accept 0] []" "St_accept 0" "[]"]
    by (simp add: bound_server_defs server_accept_def)
  moreover have "?step (bound_server [] [(0, 0)]) (bound_server [St_accept_done 0 No_error no_credentials] [])"
    using sv_accept_done [of "bound_server [] [(0, 0)]" "[]" 0 0 "[]" No_error "\<lambda>_. True" "\<lambda>_. No_error"
        plain_remove no_credentials]
    by (simp add: bound_server_defs sv_post_def)
  moreover have "?step (bound_server [St_accept_done 0 No_error no_credentials] [])
      (bound_server [St_accepted no_credentials 0] [])"
    using run [of "bound_server [St_accept_done 0 No_error no_credentials] []"
        "St_accept_done 0 No_error no_credentials" "[]"]
    by (simp add: bound_server_defs accept_handler_def is_error_def sv_continue_def)
  ultimately show ?thesis
    by (rule quiet [OF quiet [OF quiet [OF composed_server_bound]]])
qed

lemma accepted_composed_reachable:
  "composed_server (\<lambda>_. True) (\<lambda>_. No_error) plain_remove accepted_composed"
proof -
  let ?s = "bound_server [St_accepted no_credentials 0] []"
  let ?step = "server_step (\<lambda>_. True) (\<lambda>_. No_error) plain_remove"
  have step: "?step ?s accepted_server"
    using sv_run [of ?s "St_accepted no_credentials 0" "[]" "\<lambda>_. True" "\<lambda>_. No_error" plain_remove]
    by (simp add: accepted_server_def bound_server_defs handle_accepted_socket_def emplace_peer_def map_keys_def
        sv_continue_def sv_call_def numeral_2_eq_2 Let_def)
  have made: "sv_calls accepted_server = [(1, Call_start)]" "sv_live accepted_server = {1}"
      "sv_unready accepted_server = {1}" "peer_info accepted_server = [1 \<mapsto> (1, 0, no_credentials)]"
      "probe_info accepted_server = (\<lambda>_. None)" "sv_signals accepted_server = []"
      "common_params (sv_opts accepted_server) = default_common_parameters"
    by (simp_all add: accepted_server_def bound_server_defs default_server_options_def)
  have before: "sv_calls ?s = []" "sv_live ?s = {}" "sv_unready ?s = {}" "peer_info ?s = (\<lambda>_. None)"
      "probe_info ?s = (\<lambda>_. None)" "sv_signals ?s = []"
    by (simp_all add: bound_server_defs)
  have "accepted_server \<noteq> announce server_ops p sig ?s" for p sig
  proof
    assume "accepted_server = announce server_ops p sig ?s"
    from arg_cong [OF this, of sv_signals] show False using made before by (simp add: server_ops_def)
  qed
  then have "composed_step server_ops ?step \<lparr>owner = ?s, connections = (\<lambda>_. None)\<rparr>
      \<lparr>owner = accepted_server, connections = owner_effect server_ops ?s accepted_server (\<lambda>_. None)\<rparr>"
    using co_owner [of ?step "\<lparr>owner = ?s, connections = (\<lambda>_. None)\<rparr>" accepted_server server_ops] step made before
    by simp
  moreover have "owner_effect server_ops ?s accepted_server (\<lambda>_. None) = [1 \<mapsto> fresh_peer]"
    using made before by (auto simp: owner_effect_def new_calls_def calls_on_def fresh_peer_def fun_eq_iff)
  ultimately show ?thesis
    using composed_server_accepting unfolding accepted_composed_def by (auto intro: reach_step)
qed

section \<open>The server on real connections\<close>

text \<open>C5: The server runs on real connections. Let the server run together with the connections it
  accepts and those of its health checks, its calls performed on them and their signals delivered to
  its slots, in any interleaving of its threads, its executor and theirs. Then the server and every
  connection are, at any time, in states their own machines reach. The connections of the peer map
  and of the health check exist, and a connection is open exactly as long as the server may still
  hear that it closed.\<close>

theorem server_runs_on_real_connections:
  assumes "reachable_from (composed_initial server_initial)
      (composed_step server_ops (server_step verify ep rem)) c"
  shows "reachable_from server_initial (server_step verify ep rem) (owner c) \<and>
    (p \<in> snd ` set (peers (owner c)) \<or> health_peer (owner c) = Some p \<longrightarrow>
       connections c p \<noteq> None) \<and>
    (\<forall>pr. connections c p = Some pr \<longrightarrow>
       reachable_from peer_started peer_step pr \<and>
       (peer_info (owner c) p \<noteq> None \<or> probe_info (owner c) p \<noteq> None) \<and>
       (socket_open pr \<longleftrightarrow> p \<in> sv_live (owner c)))"
  using server_system.runs_on_real_connections(1) [OF assms]
    server_system.runs_on_real_connections(2,3) [OF assms, of p]
  by auto

lemma server_runs_on_real_connections_witness:
  "connections accepted_composed 1 = Some fresh_peer \<and>
   socket_open fresh_peer = (1 \<in> sv_live (owner accepted_composed))"
  using server_runs_on_real_connections [OF accepted_composed_reachable, of 1]
  by (simp add: accepted_composed_def)



text \<open>C7: Messages leave in the order of the server's calls. Take the frames of all the messages,
  requests, responses and health checks that the server has sent on one of its connections, in the
  order of its calls. Those the connection accepted, apart from its own heartbeats and health check
  answers, are an initial part of them, and those written to the socket an initial part of the
  accepted ones. While the connection is open, the rest is queued on its executor.\<close>

theorem server_messages_leave_in_order:
  assumes "reachable_from (composed_initial server_initial)
      (composed_step server_ops (server_step verify ep rem)) c"
    and "connections c p = Some pr"
  defines "frames \<equiv> concat (map server_call_frames (map snd (filter (\<lambda>x. fst x = p) (sv_calls (owner c)))))"
  shows "prefix (owner_frames (accepted_frames pr)) frames \<and> prefix (sent_frames pr) (accepted_frames pr) \<and>
    (socket_open pr \<longrightarrow> frames = owner_frames (accepted_frames pr) @ concat (map pushed (handlers pr)))"
proof -
  have frames: "frames = frames_asked server_ops (owner c) p"
    by (simp add: frames_def frames_asked_def calls_on_def)
  have "reachable_peer pr"
    using server_system.runs_on_real_connections(2) [OF assms(1,2)] by simp
  then have "accepted_frames pr = sent_frames pr @ write_queue pr"
    using reachable_peer_facts(2) by (simp add: data_inv_def)
  then show ?thesis
    using server_system.accepted_in_order [OF assms(1,2)] by (simp add: frames)
qed

text \<open>The server of the example sends a message to its peer.\<close>

definition all_well :: bind_outcome where
  "all_well = \<lparr>open_error = No_error, bind_error = No_error, listen_error = No_error\<rparr>"

definition waiting_server :: "nat server" where
  "waiting_server = run_task (\<lambda>_. No_error) plain_remove all_well (St_accept 0) (accepted_server\<lparr>sv_io := []\<rparr>)"

definition sending_server :: "nat server" where
  "sending_server =
     run_task (\<lambda>_. No_error) plain_remove all_well (St_send 1 [65])
       ((server_async_send 1 [65] waiting_server)\<lparr>sv_io := []\<rparr>)"

definition sending_server_composed :: "nat server composed" where
  "sending_server_composed = \<lparr>owner = sending_server, connections = [1 \<mapsto> async_send [65] fresh_peer]\<rparr>"

lemma composed_server_step:
  assumes "composed_server verify ep rem \<lparr>owner = s, connections = conns\<rparr>"
    and "server_step verify ep rem s t" and "sv_signals t = sv_signals s" and "sv_live t = sv_live s"
    and "peer_info t = peer_info s" and "probe_info t = probe_info s" and "sv_unready t = sv_unready s"
    and "sv_calls t = sv_calls s @ cs"
    and "conns' = (\<lambda>p. map_option (fold server_perform (calls_on p cs)) (conns p))"
  shows "composed_server verify ep rem \<lparr>owner = t, connections = conns'\<rparr>"
proof -
  have "t \<noteq> announce server_ops p sig s" for p sig
  proof
    assume "t = announce server_ops p sig s"
    then have "sv_signals t = sv_signals s @ [(p, sig)]" by (simp add: server_ops_def)
    then show False using assms(3) by simp
  qed
  then have "composed_step server_ops (server_step verify ep rem) \<lparr>owner = s, connections = conns\<rparr>
      \<lparr>owner = t, connections = owner_effect server_ops s t conns\<rparr>"
    using co_owner [of "server_step verify ep rem" "\<lparr>owner = s, connections = conns\<rparr>" t server_ops] assms(2,4,7)
    by simp
  moreover have "owner_effect server_ops s t conns = conns'"
    using assms(5,6,8,9) by (auto simp: owner_effect_def new_calls_def fun_eq_iff)
  ultimately show ?thesis using assms(1) by (auto intro: reach_step)
qed

lemma sending_server_reachable:
  "composed_server (\<lambda>_. True) (\<lambda>_. No_error) plain_remove sending_server_composed"
proof -
  let ?composed = "composed_server (\<lambda>_. True) (\<lambda>_. No_error) plain_remove"
  have io: "sv_io accepted_server = [St_accept 0]"
      "sv_io (server_async_send 1 [65] waiting_server) = [St_send 1 [65]]"
    by (simp_all add: accepted_server_def bound_server_def waiting_server_def server_accept_def
        server_async_send_def sv_post_def split: option.split)
  have peers: "peers waiting_server = [(1, 1)]"
    by (simp add: accepted_server_def waiting_server_def server_accept_def split: option.split)
  have "?composed \<lparr>owner = accepted_server, connections = [1 \<mapsto> fresh_peer]\<rparr>"
    using accepted_composed_reachable by (simp add: accepted_composed_def)
  then have "?composed \<lparr>owner = waiting_server, connections = [1 \<mapsto> fresh_peer]\<rparr>"
    unfolding waiting_server_def
    by (rule composed_server_step [OF _ sv_run [OF io(1)], where cs = "[]"])
       (simp_all add: server_accept_def calls_on_def option.map_id fun_eq_iff split: option.split)
  then have "?composed \<lparr>owner = server_async_send 1 [65] waiting_server, connections = [1 \<mapsto> fresh_peer]\<rparr>"
    by (rule composed_server_step [OF _ sv_send, where cs = "[]"])
       (simp_all add: server_async_send_def sv_post_def calls_on_def option.map_id fun_eq_iff)
  then have "?composed \<lparr>owner = sending_server, connections = [1 \<mapsto> async_send [65] fresh_peer]\<rparr>"
    unfolding sending_server_def
    by (rule composed_server_step [OF _ sv_run [OF io(2)], where cs = "[(1, Call_send [65])]"])
       (simp_all add: to_server_peer_def server_async_send_def sv_post_def sv_call_def calls_on_def peers fun_eq_iff)
  then show ?thesis by (simp add: sending_server_composed_def)
qed

lemma server_messages_leave_in_order_witness:
  "[make_user_data_frame [65]] =
     owner_frames (accepted_frames (async_send [65] fresh_peer)) @
       concat (map pushed (handlers (async_send [65] fresh_peer)))"
proof -
  have "peers waiting_server = [(1, 1)]" "sv_calls waiting_server = [(1, Call_start)]"
    by (simp_all add: accepted_server_def waiting_server_def server_accept_def split: option.split)
  then have "sv_calls (owner sending_server_composed) = [(1, Call_start), (1, Call_send [65])]"
    by (simp add: sending_server_composed_def sending_server_def to_server_peer_def server_async_send_def
        sv_post_def sv_call_def)
  moreover have "connections sending_server_composed 1 = Some (async_send [65] fresh_peer)"
      "socket_open (async_send [65] fresh_peer)"
    by (simp_all add: sending_server_composed_def async_send_def async_push_frame_def post_def fresh_peer_def
        async_start_def new_peer_def)
  ultimately show ?thesis
    using server_messages_leave_in_order [OF sending_server_reachable, of 1] by simp
qed

end
