(* ===== verification/Server_Probe.thy ===== *)
theory Server_Probe
  imports Server_Composition
begin

text \<open>
  The health check of the server's own socket path always ends. A running check is known by the timer
  in \<^verbatim>\<open>socket_path_health_check_timeout_\<close>, and no other one starts before it is gone; so if its timer
  were lost, the server would never check its path again.
\<close>

section \<open>What is under way for a check\<close>

fun probe_task :: "'cb server_task \<Rightarrow> (probe_ref \<times> token) set" where
  "probe_task (St_probe_timer tm t _) = {(tm, t)}"
| "probe_task (St_probe_connected tm t _) = {(tm, t)}"
| "probe_task (St_probe_failing tm t _) = {(tm, t)}"
| "probe_task _ = {}"

text \<open>The tasks that end a check: its expired timer, and a failure that is being handled.\<close>

fun ending_task :: "'cb server_task \<Rightarrow> (probe_ref \<times> token) set" where
  "ending_task (St_probe_timer tm t ec) = (if is_error ec then {} else {(tm, t)})"
| "ending_task (St_probe_failing tm t _) = {(tm, t)}"
| "ending_task _ = {}"

definition probe_names :: "'cb server \<Rightarrow> (probe_ref \<times> token) set" where
  "probe_names s = set (probe_waits s) \<union> set (probe_connects s) \<union> (\<Union>u \<in> set (sv_io s). probe_task u)"

definition probe_endings :: "'cb server \<Rightarrow> (probe_ref \<times> token) set" where
  "probe_endings s = set (probe_waits s) \<union> (\<Union>u \<in> set (sv_io s). ending_task u)"

lemmas probe_sets = probe_names_def probe_endings_def

text \<open>
  References of checks are not used again, and everything under way for the running check carries
  the token of the session, unless a close of everything is pending; then something will end it.
\<close>

definition probe_inv :: "'cb server \<Rightarrow> bool" where
  "probe_inv s \<longleftrightarrow>
     (\<forall>tm t. (tm, t) \<in> probe_names s \<longrightarrow> tm < sv_next_ref s) \<and>
     (\<forall>tm. health_timeout s = Some tm \<longrightarrow> sv_closing s \<or>
        (tm, generation (sv_scope s)) \<in> probe_endings s \<and>
        (\<forall>t. (tm, t) \<in> probe_names s \<longrightarrow> t = generation (sv_scope s)))"

text \<open>A step that adds nothing for a check and takes away nothing that ends the running one.\<close>

lemma probe_frame:
  assumes "probe_inv s" and "probe_names t \<subseteq> probe_names s" and "sv_next_ref s \<le> sv_next_ref t"
    and "health_timeout t = health_timeout s \<or> health_timeout t = None"
    and "sv_closing t \<or> \<not> sv_closing s \<and> generation (sv_scope t) = generation (sv_scope s)"
    and "\<And>tm. health_timeout t = Some tm \<Longrightarrow> \<not> sv_closing t \<Longrightarrow>
      (tm, generation (sv_scope s)) \<in> probe_endings s \<Longrightarrow> (tm, generation (sv_scope s)) \<in> probe_endings t"
  shows "probe_inv t"
proof -
  have "tm < sv_next_ref t" if "(tm, tok) \<in> probe_names t" for tm tok
    using that assms(1-3) unfolding probe_inv_def by (meson less_le_trans subsetD)
  moreover have "sv_closing t \<or> (tm, generation (sv_scope t)) \<in> probe_endings t \<and>
      (\<forall>tok. (tm, tok) \<in> probe_names t \<longrightarrow> tok = generation (sv_scope t))" if "health_timeout t = Some tm" for tm
  proof -
    have h: "health_timeout s = Some tm" using assms(4) that by auto
    show ?thesis
    proof (cases "sv_closing t")
      case False
      then have "\<not> sv_closing s" "generation (sv_scope t) = generation (sv_scope s)" using assms(5) by auto
      moreover have "(tm, generation (sv_scope s)) \<in> probe_endings s"
          "\<forall>tok. (tm, tok) \<in> probe_names s \<longrightarrow> tok = generation (sv_scope s)"
        using assms(1) h calculation(1) unfolding probe_inv_def by blast+
      ultimately show ?thesis using assms(2) assms(6) [OF that False] by auto
    qed simp
  qed
  ultimately show ?thesis unfolding probe_inv_def by blast
qed

lemma probe_same:
  assumes "probe_inv s" and "probe_names t \<subseteq> probe_names s" and "probe_endings s \<subseteq> probe_endings t"
    and "sv_next_ref s \<le> sv_next_ref t" and "health_timeout t = health_timeout s"
    and "sv_closing s \<Longrightarrow> sv_closing t" and "generation (sv_scope t) = generation (sv_scope s)"
  shows "probe_inv t"
  by (rule probe_frame [OF assms(1)]) (use assms in auto)

text \<open>What a task that is no probe's does: nothing for a check.\<close>

lemma aborted_accepts_tasks [simp]:
  "(\<Union>u \<in> set (aborted_accepts s). probe_task u) = {}" "(\<Union>u \<in> set (aborted_accepts s). ending_task u) = {}"
  by (auto simp: aborted_accepts_def split: option.splits)

lemma aborted_waits_tasks:
  "(\<Union>u \<in> set (aborted_waits s). probe_task u) \<subseteq> set (probe_waits s)"
  "(\<Union>u \<in> set (aborted_waits s). ending_task u) = {}"
  by (auto simp: aborted_waits_def is_error_def split: option.splits)

lemma probe_close_health: "probe_names (close_health_check_peer s) \<subseteq> probe_names s"
  using aborted_waits_tasks(1) [of s]
  by (auto simp: probe_names_def close_health_check_peer_eq split: option.splits)

text \<open>Tasks that have nothing to do with a check.\<close>

fun about_checks :: "'cb server_task \<Rightarrow> bool" where
  "about_checks St_stop = True"
| "about_checks St_shutdown = True"
| "about_checks (St_health_check _) = True"
| "about_checks (St_probe_timer _ _ _) = True"
| "about_checks (St_probe_connected _ _ _) = True"
| "about_checks (St_probe_response _ _) = True"
| "about_checks (St_probe_failed _ _ _) = True"
| "about_checks (St_probe_failing _ _ _) = True"
| "about_checks _ = False"

lemma unrelated_task:
  assumes "\<not> about_checks u"
  shows "probe_names (run_task ep rem os u s) = probe_names s \<and>
    probe_endings (run_task ep rem os u s) = probe_endings s \<and>
    health_timeout (run_task ep rem os u s) = health_timeout s \<and>
    sv_next_ref s \<le> sv_next_ref (run_task ep rem os u s)"
proof (cases u)
  case (St_bind t)
  have "probe_names (server_bind ep rem os t s) = probe_names s \<and>
    probe_endings (server_bind ep rem os t s) = probe_endings s \<and>
    health_timeout (server_bind ep rem os t s) = health_timeout s \<and>
    sv_next_ref s \<le> sv_next_ref (server_bind ep rem os t s)"
  proof (cases rule: server_bind_cases [of ep rem os t s])
    case (2 v ec)
    then obtain n a b rt where
        v: "v = s\<lparr>sv_next_ref := sv_next_ref s + n, acceptor := a, bound_path := b, sv_runtime := rt\<rparr>"
      by blast
    show ?thesis unfolding 2(1) v by (simp add: probe_sets handle_bind_failed_def close_acceptor_eq sv_notify_def)
  qed (simp_all add: probe_sets sv_continue_def sv_notify_def)
  then show ?thesis using St_bind by simp
qed (use assms in \<open>simp_all add: probe_sets sv_bodies handle_accepted_socket_def split: option.split\<close>)

section \<open>The tasks\<close>

lemma probe_none:
  assumes "probe_inv s" and "probe_names t \<subseteq> probe_names s" and "sv_next_ref s \<le> sv_next_ref t"
    and "health_timeout t = None"
  shows "probe_inv t"
  using assms unfolding probe_inv_def by (metis less_le_trans option.distinct(1) subsetD)

lemma probe_stops:
  "probe_names (stop_task rem s) \<subseteq> probe_names s" "sv_next_ref (stop_task rem s) = sv_next_ref s"
  "health_timeout (stop_task rem s) = None"
  "probe_names (shutdown_task rem s) \<subseteq> probe_names s" "sv_next_ref (shutdown_task rem s) = sv_next_ref s"
  "health_timeout (shutdown_task rem s) = None"
proof -
  have same: "probe_names (close_all_peers v) = probe_names v" "probe_names (close_acceptor rem v) = probe_names v"
      "probe_names (sv_post St_nothing v) = probe_names v" "probe_names (v\<lparr>sv_silenced := x\<rparr>) = probe_names v"
    for v :: "'a server" and x
    by (simp_all add: probe_names_def close_all_peers_def close_acceptor_eq sv_ops)
  show "probe_names (stop_task rem s) \<subseteq> probe_names s"
    unfolding stop_task_def by (rule order_trans [OF probe_close_health]) (simp add: same)
  show "probe_names (shutdown_task rem s) \<subseteq> probe_names s"
    unfolding shutdown_task_def Let_def same
    by (rule order_trans [OF probe_close_health]) (simp add: same split: option.split)
qed (simp_all add: stop_task_def shutdown_task_def sv_closings sv_ops split: option.split)

text \<open>A running check that is not being closed belongs to the current session.\<close>

lemma running_check:
  assumes "stopped_inv s" and "health_timeout s = Some tm" and "\<not> sv_closing s"
  shows "is_current_health_check (generation (sv_scope s)) tm s"
  using assms by (auto simp: stopped_inv_def sv_holds_def is_current_health_check_def is_current_def)

lemma probe_failed:
  assumes "probe_inv s" and "stopped_inv s"
    and v: "probe_names v \<subseteq> probe_names s" "sv_next_ref v = sv_next_ref s" "sv_closing v = sv_closing s"
      "health_timeout v = health_timeout s" "sv_scope v = sv_scope s"
    and less: "probe_endings s \<subseteq> insert (tm, t) (probe_endings v)"
  shows "probe_inv (handle_health_check_failed rem ec t tm v)"
proof (cases "is_current_health_check t tm v")
  case True
  let ?w = "handle_health_check_failed rem ec t tm v"
  have "probe_names ?w = probe_names (close_health_check_peer v)"
    using True by (simp add: handle_health_check_failed_def probe_names_def close_acceptor_eq sv_notify_def)
  then have "probe_names ?w \<subseteq> probe_names s" using probe_close_health [of v] v(1) by blast
  then show ?thesis
    using True v(2)
    by (intro probe_none [OF assms(1)])
       (simp_all add: handle_health_check_failed_def close_acceptor_eq close_health_check_peer_eq sv_notify_def)
next
  case False
  have other: "(tm', generation (sv_scope s)) \<noteq> (tm, t)" if "health_timeout s = Some tm'" "\<not> sv_closing s" for tm'
    using running_check [OF assms(2) that] False v(4,5) by (auto simp: is_current_health_check_def)
  have "probe_inv v"
  proof (rule probe_frame [OF assms(1)])
    fix tm'
    assume "health_timeout v = Some tm'" "\<not> sv_closing v" "(tm', generation (sv_scope s)) \<in> probe_endings s"
    then show "(tm', generation (sv_scope s)) \<in> probe_endings v"
      using other [of tm'] less v by auto
  qed (use v in simp_all)
  then show ?thesis using False by (simp add: handle_health_check_failed_def)
qed

lemma probe_timer:
  assumes "probe_inv s" and "sv_io s = St_probe_timer tm t ec # us"
  shows "probe_inv (probe_timer_handler tm t ec (s\<lparr>sv_io := us\<rparr>))" (is "probe_inv ?t")
proof (rule probe_same [OF assms(1)])
  show "probe_names ?t \<subseteq> probe_names s"
    using assms(2) by (auto simp: probe_names_def probe_timer_handler_def close_probe_socket_def sv_continue_def Let_def)
  show "probe_endings s \<subseteq> probe_endings ?t"
    using assms(2) by (auto simp: probe_endings_def probe_timer_handler_def close_probe_socket_def sv_continue_def Let_def)
  show "sv_closing ?t" if "sv_closing s"
    using that assms(2) by (auto simp: sv_closing_def probe_timer_handler_def close_probe_socket_def sv_continue_def Let_def)
qed (simp_all add: probe_timer_handler_def close_probe_socket_def sv_continue_def Let_def)

lemma probe_connected:
  assumes "probe_inv s" and "stopped_inv s" and io: "sv_io s = St_probe_connected tm t ec # us"
  shows "probe_inv (probe_connect_handler tm t ec (s\<lparr>sv_io := us\<rparr>))" (is "probe_inv ?t")
proof (rule probe_frame [OF assms(1)])
  let ?v = "s\<lparr>sv_io := us\<rparr>"
  have current: "is_current_health_check t' tm' ?v = is_current_health_check t' tm' s" for t' tm'
    by (simp add: is_current_health_check_def)
  have scope: "sv_scope ?t = sv_scope s"
    by (simp add: probe_connect_handler_def close_probe_socket_def cancel_probe_timer_def sv_continue_def
        sv_call_def Let_def)
  have closing: "sv_closing ?t = sv_closing s"
    using io by (auto simp: sv_closing_def probe_connect_handler_def close_probe_socket_def cancel_probe_timer_def
        sv_continue_def sv_call_def Let_def)
  show "sv_closing ?t \<or> \<not> sv_closing s \<and> generation (sv_scope ?t) = generation (sv_scope s)"
    using closing scope by simp
  show "probe_names ?t \<subseteq> probe_names s"
    using io by (auto simp: probe_names_def probe_connect_handler_def close_probe_socket_def cancel_probe_timer_def
        sv_continue_def sv_call_def Let_def)
  show "sv_next_ref s \<le> sv_next_ref ?t" "health_timeout ?t = health_timeout s \<or> health_timeout ?t = None"
    by (simp_all add: probe_connect_handler_def close_probe_socket_def cancel_probe_timer_def sv_continue_def
        sv_call_def Let_def)
  fix tm'
  assume "health_timeout ?t = Some tm'" and "\<not> sv_closing ?t"
    and ends: "(tm', generation (sv_scope s)) \<in> probe_endings s"
  then have h: "health_timeout s = Some tm'" "\<not> sv_closing s"
    using closing by (simp_all add: probe_connect_handler_def close_probe_socket_def cancel_probe_timer_def
        sv_continue_def sv_call_def Let_def split: if_splits)
  have token: "t = generation (sv_scope s)" if "tm' = tm"
    using assms(1) h io that unfolding probe_inv_def by (auto simp: probe_names_def)
  have running: "is_current_health_check (generation (sv_scope s)) tm' s"
    using running_check [OF assms(2) h] .
  show "(tm', generation (sv_scope s)) \<in> probe_endings ?t"
  proof (cases "tm' = tm")
    case True
    then have "is_current_health_check t tm s" using running token by simp
    then show ?thesis
      using ends io True token
      by (auto simp: probe_endings_def probe_connect_handler_def current cancel_probe_timer_def sv_continue_def
          sv_call_def Let_def)
  next
    case False
    then show ?thesis
      using ends io
      by (auto simp: probe_endings_def probe_connect_handler_def close_probe_socket_def cancel_probe_timer_def
          sv_continue_def sv_call_def Let_def)
  qed
qed

lemma probe_starts:
  assumes "probe_inv s" and io: "sv_io s = St_health_check t # us"
  shows "probe_inv (health_check_task ep t (s\<lparr>sv_io := us\<rparr>))" (is "probe_inv ?t")
proof (cases "\<not> is_current t (sv_scope s) \<or> acceptor s = None \<or> health_timeout s \<noteq> None")
  case True
  show ?thesis
    by (rule probe_same [OF assms(1)])
       (use True io in \<open>auto simp: health_check_task_def probe_sets sv_closing_def\<close>)
next
  case False
  let ?tm = "sv_next_ref s"
  have below: "\<And>tm tok. (tm, tok) \<in> probe_names s \<Longrightarrow> tm < ?tm"
    using assms(1) unfolding probe_inv_def by blast
  have t: "t = generation (sv_scope s)" using False by (simp add: is_current_def)
  have facts: "sv_next_ref ?t = Suc ?tm" "health_timeout ?t = Some ?tm" "sv_scope ?t = sv_scope s"
      "probe_names ?t = insert (?tm, t) (probe_names s)" "(?tm, t) \<in> probe_endings ?t"
    using False io by (auto simp: health_check_task_def probe_sets sv_continue_def Let_def)
  have "tok = t" if "(?tm, tok) \<in> probe_names ?t" for tok
    using that below [of ?tm tok] facts(4) by auto
  then show ?thesis
    using facts below t unfolding probe_inv_def by (auto simp: less_Suc_eq)
qed

lemma probe_run:
  assumes "probe_inv s" and "stopped_inv s" and io: "sv_io s = u # us"
  shows "probe_inv (run_task ep rem os u (s\<lparr>sv_io := us\<rparr>))"
proof (cases "about_checks u")
  case False
  let ?v = "s\<lparr>sv_io := us\<rparr>" and ?t = "run_task ep rem os u (s\<lparr>sv_io := us\<rparr>)"
  note t = unrelated_task [OF False, of ep rem os ?v]
  have v: "probe_names ?v = probe_names s" "probe_endings ?v = probe_endings s"
    using False io by (cases u; simp add: probe_sets)+
  have "sv_closing ?t" if "sv_closing s"
    using that False io task_io [of ?v ep rem os u] quiet_task [of ?v ep rem os u]
    by (auto simp: sv_closing_def quiet_view_def)
  then show ?thesis
    using t v task_scope [of ep rem os u ?v] by (intro probe_same [OF assms(1)]) simp_all
next
  case True
  let ?v = "s\<lparr>sv_io := us\<rparr>"
  have less: "probe_names ?v \<subseteq> probe_names s" using io by (auto simp: probe_names_def)
  show ?thesis
  proof (cases u)
    case St_stop
    then show ?thesis
      using probe_stops(1-3) [of rem ?v] less by (intro probe_none [OF assms(1)]) auto
  next
    case St_shutdown
    then show ?thesis
      using probe_stops(4-6) [of rem ?v] less by (intro probe_none [OF assms(1)]) auto
  next
    case (St_health_check t)
    then show ?thesis using probe_starts [OF assms(1)] io by simp
  next
    case (St_probe_timer tm t ec)
    then show ?thesis using probe_timer [OF assms(1)] io by simp
  next
    case (St_probe_connected tm t ec)
    then show ?thesis using probe_connected [OF assms(1,2)] io by simp
  next
    case (St_probe_response tm t)
    have "probe_inv ?v"
      by (rule probe_same [OF assms(1) less]) (use io St_probe_response in \<open>auto simp: probe_sets sv_closing_def\<close>)
    moreover have "probe_inv (close_health_check_peer ?v)"
      using probe_close_health [of ?v] less
      by (intro probe_none [OF assms(1)]) (auto simp: close_health_check_peer_eq)
    ultimately show ?thesis using St_probe_response by (simp add: probe_response_task_def)
  next
    case (St_probe_failed tm t ec)
    then show ?thesis
      using io less by (simp, intro probe_failed [OF assms(1,2)]) (auto simp: sv_closing_def probe_endings_def)
  next
    case (St_probe_failing tm t ec)
    then show ?thesis
      using io less by (simp, intro probe_failed [OF assms(1,2)]) (auto simp: sv_closing_def probe_endings_def)
  qed (use True in simp_all)
qed

section \<open>The invariant\<close>

lemma probe_same_sets:
  assumes "probe_inv s" and "probe_waits t = probe_waits s" and "probe_connects t = probe_connects s"
    and "sv_io t = sv_io s @ us" and "\<forall>u \<in> set us. probe_task u = {}" and "sv_next_ref t = sv_next_ref s"
    and "health_timeout t = health_timeout s" and "sv_closing s \<Longrightarrow> sv_closing t"
    and "generation (sv_scope t) = generation (sv_scope s)"
  shows "probe_inv t"
proof (rule probe_same [OF assms(1)])
  show "probe_names t \<subseteq> probe_names s" using assms(2-5) by (auto simp: probe_names_def)
  show "probe_endings s \<subseteq> probe_endings t" using assms(2,4) by (auto simp: probe_endings_def)
qed (use assms(6-9) in simp_all)

lemma probe_begin:
  assumes "probe_inv s" and "sv_thread s = []"
  shows "probe_inv (begin_server_function now f (s\<lparr>sv_disp := d\<rparr>))" (is "probe_inv ?t")
proof (cases "f = Sf_stop")
  case True
  have "sv_closing ?t" using True by (simp add: sv_closing_def)
  moreover have "probe_names ?t = probe_names s" "sv_next_ref ?t = sv_next_ref s"
    using True by (simp_all add: probe_names_def)
  ultimately show ?thesis using assms(1) by (simp add: probe_inv_def)
next
  case False
  have "sv_closing ?t" if "sv_closing s"
    using that assms(2) by (cases f) (auto simp: sv_closing_def if_exposed_def split: option.split prod.split)
  then show ?thesis
    using False
    by (intro probe_same_sets [OF assms(1), where us = "[]"])
       (cases f; simp add: if_exposed_def scope_start_def split: option.split prod.split)+
qed

lemma probe_action:
  assumes "probe_inv s" and thread: "sv_thread s = a # as"
  shows "probe_inv (run_server_action verify now a (s\<lparr>sv_thread := as\<rparr>))" (is "probe_inv ?t")
proof -
  have "sv_closing ?t" if "sv_closing s"
    using that thread
    by (cases a) (auto simp: sv_closing_def sv_ops schedule_bind_retry_def stop_health_check_timer_def
        start_health_check_timer_def split: prod.splits)
  moreover have "\<exists>us. sv_io ?t = sv_io s @ us \<and> (\<forall>u \<in> set us. probe_task u = {})"
    by (cases a) (auto simp: sv_ops schedule_bind_retry_def stop_health_check_timer_def
        start_health_check_timer_def split: prod.splits)
  then obtain us where "sv_io ?t = sv_io s @ us" "\<forall>u \<in> set us. probe_task u = {}" by blast
  ultimately show ?thesis
    by (intro probe_same_sets [OF assms(1), where us = us])
       (cases a; simp add: sv_ops schedule_bind_retry_def stop_health_check_timer_def
          start_health_check_timer_def split: prod.splits)+
qed

lemma probe_request_timer:
  assumes "probe_inv s"
  shows "probe_inv (server_request_timer s)"
proof -
  have io: "\<exists>us. sv_io (server_request_timer s) = sv_io s @ us \<and> (\<forall>u \<in> set us. probe_task u = {})"
    by (auto simp: server_request_timer_def server_request_timed_out_def sv_bodies split: prod.split option.split)
  then obtain us where us: "sv_io (server_request_timer s) = sv_io s @ us" "\<forall>u \<in> set us. probe_task u = {}"
    by blast
  show ?thesis
  proof (rule probe_same_sets [OF assms _ _ us])
    show "sv_closing (server_request_timer s)" if "sv_closing s"
      using request_timer_opens [of s] that by (simp add: opens_nothing_def)
  qed (simp_all add: server_request_timer_def server_request_timed_out_def sv_bodies split: prod.split option.split)
qed

text \<open>The slots post tasks that start nothing.\<close>

definition posts_plain :: "'cb server \<Rightarrow> 'cb server \<Rightarrow> bool" where
  "posts_plain s t \<longleftrightarrow>
     probe_waits t = probe_waits s \<and> probe_connects t = probe_connects s \<and> sv_next_ref t = sv_next_ref s \<and>
     health_timeout t = health_timeout s \<and> sv_scope t = sv_scope s \<and> (sv_closing s \<longrightarrow> sv_closing t) \<and>
     (\<exists>us. sv_io t = sv_io s @ us \<and> (\<forall>u \<in> set us. probe_task u = {}))"

lemma posts_plain_inv: "posts_plain s t \<Longrightarrow> probe_inv s \<Longrightarrow> probe_inv t"
  unfolding posts_plain_def using probe_same_sets by metis

lemma slots_plain:
  "sv_thread s = [] \<Longrightarrow> posts_plain s (accepted_peer_slot p pid t c sig s)"
  "sv_thread s = [] \<Longrightarrow> posts_plain s (probe_slot tm t sig s)"
  by (cases sig; simp add: posts_plain_def sv_ops sv_closing_def)
     (cases sig; simp add: posts_plain_def sv_ops sv_closing_def)

lemma probe_step:
  assumes "server_step verify ep rem s t" and "stopped_inv s" and "probe_inv s"
  shows "probe_inv t"
  using assms
proof (induction rule: server_step.induct)
  case (sv_shutdown s b)
  show ?case
  proof (cases rule: shutdown_cases [of s b])
    case 1
    then show ?thesis using sv_shutdown.prems by simp
  next
    case 2
    show ?thesis
      unfolding 2(1)
      by (rule probe_same_sets [OF \<open>probe_inv s\<close>, where us = "[St_shutdown]"]) (auto simp: sv_post_def sv_closing_def)
  next
    case (3 d)
    show ?thesis
      unfolding 3(1)
      by (rule probe_same_sets [OF \<open>probe_inv s\<close>, where us = "[St_shutdown]"]) (auto simp: sv_post_def sv_closing_def)
  next
    case (4 d)
    let ?t = "server_async_shutdown b s"
    have "sv_closing ?t" "probe_names ?t = probe_names s" "sv_next_ref ?t = sv_next_ref s"
      unfolding 4(1) by (simp_all add: sv_post_def sv_closing_def probe_names_def)
    then show ?thesis using sv_shutdown.prems(2) by (simp add: probe_inv_def)
  qed
next
  case (sv_take s d now e d' clock)
  have "probe_inv (s\<lparr>sv_disp := Some d'\<rparr>)"
    by (rule probe_same_sets [OF \<open>probe_inv s\<close>, where us = "[]"]) (simp_all add: sv_closing_def)
  then show ?case using probe_begin [OF \<open>probe_inv s\<close> sv_take(1)] by (simp split: option.split)
next
  case (sv_action s a as clock)
  then show ?case by (intro probe_action)
next
  case (sv_run s u us os)
  then show ?case by (intro probe_run)
next
  case (sv_accept_done s xs a t ys ec credentials)
  show ?case
    by (rule probe_same_sets [OF \<open>probe_inv s\<close>, where us = "[St_accept_done t ec credentials]"])
       (auto simp: sv_post_def sv_closing_def)
next
  case (sv_probe_expires s xs tm t ys)
  show ?case
    by (rule probe_same [OF \<open>probe_inv s\<close>])
       (auto simp: sv_post_def sv_closing_def probe_sets sv_probe_expires(1) is_error_def)
next
  case (sv_probe_connect_done s xs tm t ys ec)
  show ?case
    by (rule probe_same [OF \<open>probe_inv s\<close>])
       (auto simp: sv_post_def sv_closing_def probe_sets sv_probe_connect_done(1))
next
  case (sv_request_timer s)
  then show ?case by (intro probe_request_timer)
next
  case (sv_peer_slot s xs p sig ys)
  let ?v = "s\<lparr>sv_signals := xs @ ys\<rparr>"
  have v: "probe_inv ?v"
    by (rule probe_same_sets [OF \<open>probe_inv s\<close>, where us = "[]"]) (simp_all add: sv_closing_def)
  have "sv_thread ?v = []" using sv_peer_slot(1) by simp
  from posts_plain_inv [OF slots_plain(1) [OF this] v] posts_plain_inv [OF slots_plain(2) [OF this] v] v
  show ?case by (simp add: server_peer_slot_def split: option.split)
qed (erule posts_plain_inv [rotated],
    simp add: posts_plain_def server_async_start_def server_async_stop_def server_async_send_def
      server_async_respond_def server_async_request_def server_async_close_peer_def sv_ops sv_closing_def)+

definition check_inv :: "'cb server \<Rightarrow> bool" where
  "check_inv s \<longleftrightarrow> stopped_inv s \<and> probe_inv s"

interpretation server_checks: event_machine server_initial "server_step verify ep rem" check_inv
proof unfold_locales
  show "check_inv s" if "server_initial s" for s :: "'a server"
    using that stopped_initial [OF that]
    by (auto simp: server_initial_def new_server_def check_inv_def probe_inv_def probe_names_def)
  show "check_inv t" if "check_inv s" "server_step verify ep rem s t" for s t :: "'a server"
    using that stopped_step probe_step by (auto simp: check_inv_def)
qed

section \<open>A server that checks its path\<close>

text \<open>
  The bound server of the example reports that it is bound, starts its timer, whose function then runs
  at once, and the check begins. First the rest of its thread, the queue and the timer.
\<close>

definition checking_at ::
    "nat server_action list \<Rightarrow> nat server_task list \<Rightarrow> nat server_function entry list \<Rightarrow>
     unit dispatcher_timer \<Rightarrow> nat server" where
  "checking_at as us q tm =
     (bound_server us [])\<lparr>sv_thread := as, health_timer := tm, sv_log := [Ss_bound],
       sv_disp := Some ((snd (attach 1 (new_dispatcher 0)))\<lparr>queue := q\<rparr>)\<rparr>"

definition running_timer :: "unit dispatcher_timer" where
  "running_timer = \<lparr>current_function_id = 1, timer_function = Some (), timer_interval = 3000, timer_enabled = True\<rparr>"

definition sf_entry :: "int \<Rightarrow> nat server_function \<Rightarrow> nat server_function entry" where
  "sf_entry w f = \<lparr>object_id_value = 1, entry_function = f, entry_when = w\<rparr>"

definition checking_server :: "nat server" where
  "checking_server =
     run_task (\<lambda>_. No_error) plain_remove all_well (St_health_check 0)
       ((run_task (\<lambda>_. No_error) plain_remove all_well (St_accept 0)
          (checking_at [] [St_health_check 0] [sf_entry 3001 (Sf_timer (Call_function 1))] running_timer))
         \<lparr>sv_io := []\<rparr>)"

lemma checking_steps:
  defines "step \<equiv> server_step (\<lambda>_. True) (\<lambda>_. No_error) plain_remove"
  shows "step (bound_server [St_accept 0] [])
      ((bound_server [St_accept 0] [])\<lparr>sv_thread := [Sa_signal Ss_bound, Sa_start_timer],
         sv_disp := Some (snd (attach 1 (new_dispatcher 0)))\<rparr>)"
    and "step ((bound_server [St_accept 0] [])\<lparr>sv_thread := [Sa_signal Ss_bound, Sa_start_timer],
         sv_disp := Some (snd (attach 1 (new_dispatcher 0)))\<rparr>)
      (checking_at [Sa_start_timer] [St_accept 0] [] new_timer)"
    and "step (checking_at [Sa_start_timer] [St_accept 0] [] new_timer)
      (checking_at [] [St_accept 0] [sf_entry 1 (Sf_timer (Timer_start () 3000))] (new_timer\<lparr>timer_enabled := True\<rparr>))"
    and "step (checking_at [] [St_accept 0] [sf_entry 1 (Sf_timer (Timer_start () 3000))] (new_timer\<lparr>timer_enabled := True\<rparr>))
      (checking_at [] [St_accept 0] [sf_entry 1 (Sf_timer (Timer_user_call ())), sf_entry 3001 (Sf_timer (Call_function 1))]
         running_timer)"
    and "step (checking_at [] [St_accept 0]
         [sf_entry 1 (Sf_timer (Timer_user_call ())), sf_entry 3001 (Sf_timer (Call_function 1))] running_timer)
      (checking_at [Sa_health_check] [St_accept 0] [sf_entry 3001 (Sf_timer (Call_function 1))] running_timer)"
    and "step (checking_at [Sa_health_check] [St_accept 0] [sf_entry 3001 (Sf_timer (Call_function 1))] running_timer)
      (checking_at [] [St_accept 0, St_health_check 0] [sf_entry 3001 (Sf_timer (Call_function 1))] running_timer)"
proof -
  let ?rest = "[sf_entry 3001 (Sf_timer (Call_function 1))]"
  let ?bound = "(bound_server [St_accept 0] [])\<lparr>sv_thread := [Sa_signal Ss_bound, Sa_start_timer],
      sv_disp := Some (snd (attach 1 (new_dispatcher 0)))\<rparr>"
  note act = sv_action [where clock = None and verify = "\<lambda>_. True" and ep = "\<lambda>_. No_error" and rem = plain_remove]
  note take = sv_take [where now = None and clock = None and verify = "\<lambda>_. True" and ep = "\<lambda>_. No_error"
      and rem = plain_remove]
  note defs = step_def checking_at_def bound_server_defs sf_entry_def running_timer_def clock_ok_def
  note worker = worker_iteration_def calculate_duration_def call_function_def
  show "step (bound_server [St_accept 0] []) ?bound"
    using take [of "bound_server [St_accept 0] []" "the (sv_disp (bound_server [St_accept 0] []))"
        "sf_entry 1 (Sf_scoped 0 Sn_bound)" "snd (attach 1 (new_dispatcher 0))"]
    by (simp add: defs worker run_scoped_def)
  show "step ?bound (checking_at [Sa_start_timer] [St_accept 0] [] new_timer)"
    using act [of ?bound "Sa_signal Ss_bound" "[Sa_start_timer]"] by (simp add: defs)
  show "step (checking_at [Sa_start_timer] [St_accept 0] [] new_timer)
      (checking_at [] [St_accept 0] [sf_entry 1 (Sf_timer (Timer_start () 3000))] (new_timer\<lparr>timer_enabled := True\<rparr>))"
    using act [of "checking_at [Sa_start_timer] [St_accept 0] [] new_timer" Sa_start_timer "[]"]
    by (simp add: defs start_health_check_timer_def timer_start_def default_server_options_def
        default_server_parameters_def normalize_scheduling_interval_def)
  show "step (checking_at [] [St_accept 0] [sf_entry 1 (Sf_timer (Timer_start () 3000))] (new_timer\<lparr>timer_enabled := True\<rparr>))
      (checking_at [] [St_accept 0] (sf_entry 1 (Sf_timer (Timer_user_call ())) # ?rest) running_timer)"
    using take [of "checking_at [] [St_accept 0] [sf_entry 1 (Sf_timer (Timer_start () 3000))]
          (new_timer\<lparr>timer_enabled := True\<rparr>)"
        "(snd (attach 1 (new_dispatcher 0)))\<lparr>queue := [sf_entry 1 (Sf_timer (Timer_start () 3000))]\<rparr>"
        "sf_entry 1 (Sf_timer (Timer_start () 3000))" "snd (attach 1 (new_dispatcher 0))"]
    by (simp add: defs worker call_timer_function_def timer_enqueue_def when_now_def new_timer_def)
  show "step (checking_at [] [St_accept 0] (sf_entry 1 (Sf_timer (Timer_user_call ())) # ?rest) running_timer)
      (checking_at [Sa_health_check] [St_accept 0] ?rest running_timer)"
    using take [of "checking_at [] [St_accept 0] (sf_entry 1 (Sf_timer (Timer_user_call ())) # ?rest) running_timer"
        "(snd (attach 1 (new_dispatcher 0)))\<lparr>queue := sf_entry 1 (Sf_timer (Timer_user_call ())) # ?rest\<rparr>"
        "sf_entry 1 (Sf_timer (Timer_user_call ()))" "(snd (attach 1 (new_dispatcher 0)))\<lparr>queue := ?rest\<rparr>"]
    by (simp add: defs worker)
  show "step (checking_at [Sa_health_check] [St_accept 0] ?rest running_timer)
      (checking_at [] [St_accept 0, St_health_check 0] ?rest running_timer)"
    using act [of "checking_at [Sa_health_check] [St_accept 0] ?rest running_timer" Sa_health_check "[]"]
    by (simp add: defs sv_post_def)
qed

lemma checking_server_reachable:
  "reachable_from server_initial (server_step (\<lambda>_. True) (\<lambda>_. No_error) plain_remove) checking_server"
proof -
  let ?step = "server_step (\<lambda>_. True) (\<lambda>_. No_error) plain_remove"
  let ?rest = "[sf_entry 3001 (Sf_timer (Call_function 1))]"
  let ?s = "checking_at [] [St_accept 0, St_health_check 0] ?rest running_timer"
  let ?t = "run_task (\<lambda>_. No_error) plain_remove all_well (St_accept 0)
      (checking_at [] [St_health_check 0] ?rest running_timer)"
  note go = reach_step [where step = ?step and init = server_initial]
  have "reachable_from server_initial ?step (bound_server [St_accept 0] [])"
    using server_system.runs_on_real_connections(1) [OF composed_server_bound] by simp
  then have s: "reachable_from server_initial ?step ?s"
    by (rule go [OF go [OF go [OF go [OF go [OF go [OF _ checking_steps(1)] checking_steps(2)]
          checking_steps(3)] checking_steps(4)] checking_steps(5)] checking_steps(6)])
  have io: "sv_io ?s = [St_accept 0, St_health_check 0]"
    and eq: "?s\<lparr>sv_io := [St_health_check 0]\<rparr> = checking_at [] [St_health_check 0] ?rest running_timer"
    by (simp_all add: checking_at_def bound_server_defs)
  have "?step ?s ?t"
    using sv_run [OF io, of "\<lambda>_. True" "\<lambda>_. No_error" plain_remove all_well] by (simp only: eq)
  with s have t: "reachable_from server_initial ?step ?t" by (rule reach_step)
  have "sv_io ?t = [St_health_check 0]"
    by (simp add: checking_at_def bound_server_def server_accept_def is_current_def split: option.split)
  from sv_run [OF this, of "\<lambda>_. True" "\<lambda>_. No_error" plain_remove all_well]
  have "?step ?t checking_server" by (simp add: checking_server_def)
  with t show ?thesis by (rule reach_step)
qed

lemma checking_server_facts:
  "health_timeout checking_server = Some 1" "\<not> sv_closing checking_server"
  by (simp_all add: checking_server_def checking_at_def bound_server_defs server_accept_def health_check_task_def
      is_error_def sv_closing_def Let_def)

section \<open>The check ends\<close>

text \<open>C22: A health check always ends. In every reachable state in which the server runs a check of its own
  socket path, either a close of everything is already pending, or the server is running and something
  will end this very check: its timer is pending, has expired and waits to be handled, or a failure is
  being handled. Whichever it is carries the token of the current session, so that it is not ignored:
  when it is handled, the check is over, and the acceptor the server has then is closed. No order of
  responses, failed and late connects, stops, restarts and failing binds loses the timer; so the
  check, which never starts while another one runs, is always made again.\<close>

theorem server_health_check_ends:
  assumes "reachable_from server_initial (server_step verify ep rem) s" and "health_timeout s = Some tm"
    and "\<not> sv_closing s"
  defines "tok \<equiv> generation (sv_scope s)"
  shows "scope_running (sv_scope s) \<and>
    ((tm, tok) \<in> set (probe_waits s) \<or> St_probe_timer tm tok No_error \<in> set (sv_io s) \<or>
     (\<exists>ec. St_probe_failing tm tok ec \<in> set (sv_io s))) \<and>
    health_timeout (handle_health_check_failed rem ec tok tm s) = None \<and>
    acceptor (handle_health_check_failed rem ec tok tm s) = None"
proof -
  have inv: "stopped_inv s" "probe_inv s"
    using server_checks.reachable_inv [OF assms(1)] by (simp_all add: check_inv_def)
  have current: "is_current_health_check tok tm s"
    using running_check [OF inv(1) assms(2,3)] by (simp add: tok_def)
  have ends: "(tm, tok) \<in> probe_endings s"
    using inv(2) assms(2,3) by (simp add: probe_inv_def tok_def)
  have "u = St_probe_timer tm tok No_error \<or> (\<exists>ec. u = St_probe_failing tm tok ec)"
    if "(tm, tok) \<in> ending_task u" for u :: "'a server_task"
    using that by (cases u) (auto simp: is_error_def split: if_splits)
  then have "(tm, tok) \<in> set (probe_waits s) \<or> St_probe_timer tm tok No_error \<in> set (sv_io s) \<or>
     (\<exists>ec. St_probe_failing tm tok ec \<in> set (sv_io s))"
    using ends unfolding probe_endings_def by blast
  moreover have "scope_running (sv_scope s)"
    using current by (simp add: is_current_health_check_def is_current_def)
  ultimately show ?thesis
    using current
    by (simp add: handle_health_check_failed_def close_acceptor_eq close_health_check_peer_eq sv_notify_def)
qed

lemma server_health_check_ends_witness:
  "scope_running (sv_scope checking_server) \<and>
   acceptor (handle_health_check_failed plain_remove Timed_out (generation (sv_scope checking_server)) 1 checking_server)
     = None"
  using server_health_check_ends [OF checking_server_reachable checking_server_facts] by simp

end
