(* ===== verification/Asio_Helper.thy ===== *)
theory Asio_Helper
  imports Runtime
begin

text \<open>
  \<^verbatim>\<open>make_endpoint\<close> of \<^verbatim>\<open>impl/asio_helper.hpp\<close>: the constructor of the endpoint (of asio, \<open>construct\<close>)
  throws when the path is too long; the helper turns that into an error code. The client and the
  server take the error code as their parameter \<open>ep\<close>.
\<close>

definition make_endpoint :: "(path \<Rightarrow> error_code + 'e) \<Rightarrow> 'e \<Rightarrow> path \<Rightarrow> 'e \<times> error_code" where
  "make_endpoint construct default_endpoint p =
     (case construct p of
        Inr endpoint \<Rightarrow> (endpoint, No_error)
      | Inl ec \<Rightarrow> (default_endpoint, ec))"

definition endpoint_error :: "(path \<Rightarrow> error_code + 'e) \<Rightarrow> 'e \<Rightarrow> path \<Rightarrow> error_code" where
  "endpoint_error construct default_endpoint p = snd (make_endpoint construct default_endpoint p)"

text \<open>
  When the constructor's errors are errors, the code reports an error exactly when it throws; and
  any parameter \<open>ep\<close> is the error code of some constructor.
\<close>

lemma endpoint_error_iff:
  assumes "\<And>ec. construct p = Inl ec \<Longrightarrow> is_error ec"
  shows "is_error (endpoint_error construct e p) \<longleftrightarrow> isl (construct p)"
  using assms by (auto simp: endpoint_error_def make_endpoint_def split: sum.split)

lemma endpoint_error_any: "\<exists>construct. endpoint_error construct e = ep"
  by (rule exI [of _ "\<lambda>p. Inl (ep p)"]) (simp add: endpoint_error_def make_endpoint_def fun_eq_iff)

end
