(* ===== verification/Facades.thy ===== *)
theory Facades
  imports Client_Properties Server_Properties Asio_Helper
begin

text \<open>
  The public classes \<^verbatim>\<open>client\<close> and \<^verbatim>\<open>server\<close>: each is a dispatcher client of its own (its id is
  attached before the state's) that forwards every call to its \<^verbatim>\<open>client_state\<close> or \<^verbatim>\<open>server_state\<close>,
  and shuts it down from a function that its destructor detaches with. The state may live on: the
  functions in flight own it too.
\<close>

section \<open>client\<close>

record 'cb client_facade =
  client_facade_id :: u64
  client_state :: "'cb client"

definition new_client_facade ::
    "path \<Rightarrow> client_options \<Rightarrow> u64 \<Rightarrow> u64 \<Rightarrow> 'cb client_function dispatcher \<Rightarrow> 'cb client_facade" where
  "new_client_facade p options facade_id state_id d =
     \<lparr>client_facade_id = facade_id, client_state = new_client p options state_id (snd (attach facade_id d))\<rparr>"

text \<open>
  The destructor. The function runs on the dispatcher thread: at once when the destructor does
  (\<open>on_thread\<close>), else when the worker takes it, for which the destructor waits; and not at all
  when the dispatcher is gone or terminated, or the facade could not be attached.
\<close>

definition destroy_client :: "bool \<Rightarrow> 'cb client_facade \<Rightarrow> 'cb client" where
  "destroy_client on_thread f =
     (let s = client_state f
      in case disp s of
           None \<Rightarrow> s
         | Some d \<Rightarrow>
             (case detach (client_facade_id f) d of
                (False, _) \<Rightarrow> s
              | (True, d) \<Rightarrow>
                  let s = s\<lparr>disp := Some d\<rparr>
                  in if on_thread \<or> \<not> exit_flag d then client_async_shutdown True s else s))"

definition client_start :: "'cb client_facade \<Rightarrow> 'cb client_facade" where
  "client_start f = f\<lparr>client_state := client_async_start (client_state f)\<rparr>"

definition client_stop :: "'cb client_facade \<Rightarrow> 'cb client_facade" where
  "client_stop f = f\<lparr>client_state := client_async_stop (client_state f)\<rparr>"

definition client_invalidate_connection :: "'cb client_facade \<Rightarrow> 'cb client_facade" where
  "client_invalidate_connection f =
     f\<lparr>client_state := client_async_invalidate_connection (client_state f)\<rparr>"

definition client_send :: "bytes \<Rightarrow> 'cb client_facade \<Rightarrow> 'cb client_facade" where
  "client_send data f = f\<lparr>client_state := client_async_send data (client_state f)\<rparr>"

definition client_respond :: "request_id \<Rightarrow> bytes \<Rightarrow> 'cb client_facade \<Rightarrow> 'cb client_facade" where
  "client_respond rid data f = f\<lparr>client_state := client_async_respond rid data (client_state f)\<rparr>"

definition client_request :: "bytes \<Rightarrow> 'cb \<Rightarrow> 'cb client_facade \<Rightarrow> 'cb client_facade" where
  "client_request data cb f = f\<lparr>client_state := client_async_request data cb (client_state f)\<rparr>"

text \<open>After the destruction of a client on a working dispatcher its state is silent for ever.\<close>

lemma destroyed_client_silent:
  assumes d: "disp (client_state f) = Some d" "client_facade_id f \<in> object_ids d" "\<not> exit_flag d"
    and new: "\<not> shutdown_started (client_state f)"
    and quiet: "list_all quiet_action (thread (client_state f))"
    and run: "(client_step verify ep)\<^sup>*\<^sup>* (destroy_client on_thread f) t"
  shows "client_log t = client_log (client_state f) \<and> delivered t = delivered (client_state f)"
proof -
  obtain d' where d': "detach (client_facade_id f) d = (True, d')" "\<not> exit_flag d'"
    using d(2,3) by (auto simp: detach_def)
  let ?s = "(client_state f)\<lparr>disp := Some d'\<rparr>"
  have s: "destroy_client on_thread f = client_async_shutdown True ?s"
    using d(1) d' by (simp add: destroy_client_def Let_def)
  have "quiet_from (client_log ?s) (delivered ?s) (client_async_shutdown True ?s)"
    using shutdown_dead [of ?s] new quiet by (simp add: quiet_from_def)
  from run [unfolded s] this have "quiet_from (client_log ?s) (delivered ?s) t"
    by (induction rule: rtranclp_induct) (blast intro: quiet_step)+
  then show ?thesis by (simp add: quiet_from_def)
qed

section \<open>server\<close>

record 'cb server_facade =
  server_facade_id :: u64
  server_state :: "'cb server"

definition new_server_facade ::
    "path \<Rightarrow> server_options \<Rightarrow> server_ref \<Rightarrow> u64 \<Rightarrow> u64 \<Rightarrow> 'cb server_function dispatcher \<Rightarrow> runtime \<Rightarrow>
     'cb server_facade" where
  "new_server_facade p options self facade_id state_id d rt =
     \<lparr>server_facade_id = facade_id,
      server_state = new_server p options self state_id (snd (attach facade_id d)) rt\<rparr>"

definition destroy_server :: "bool \<Rightarrow> 'cb server_facade \<Rightarrow> 'cb server" where
  "destroy_server on_thread f =
     (let s = server_state f
      in case sv_disp s of
           None \<Rightarrow> s
         | Some d \<Rightarrow>
             (case detach (server_facade_id f) d of
                (False, _) \<Rightarrow> s
              | (True, d) \<Rightarrow>
                  let s = s\<lparr>sv_disp := Some d\<rparr>
                  in if on_thread \<or> \<not> exit_flag d then server_async_shutdown True s else s))"

definition server_start :: "'cb server_facade \<Rightarrow> 'cb server_facade" where
  "server_start f = f\<lparr>server_state := server_async_start (server_state f)\<rparr>"

definition server_stop :: "'cb server_facade \<Rightarrow> 'cb server_facade" where
  "server_stop f = f\<lparr>server_state := server_async_stop (server_state f)\<rparr>"

definition server_send :: "peer_id \<Rightarrow> bytes \<Rightarrow> 'cb server_facade \<Rightarrow> 'cb server_facade" where
  "server_send pid data f = f\<lparr>server_state := server_async_send pid data (server_state f)\<rparr>"

definition server_respond ::
    "peer_id \<Rightarrow> request_id \<Rightarrow> bytes \<Rightarrow> 'cb server_facade \<Rightarrow> 'cb server_facade" where
  "server_respond pid rid data f = f\<lparr>server_state := server_async_respond pid rid data (server_state f)\<rparr>"

definition server_request :: "peer_id \<Rightarrow> bytes \<Rightarrow> 'cb \<Rightarrow> 'cb server_facade \<Rightarrow> 'cb server_facade" where
  "server_request pid data cb f = f\<lparr>server_state := server_async_request pid data cb (server_state f)\<rparr>"

definition server_close_peer :: "peer_id \<Rightarrow> 'cb server_facade \<Rightarrow> 'cb server_facade" where
  "server_close_peer pid f = f\<lparr>server_state := server_async_close_peer pid (server_state f)\<rparr>"

lemma destroyed_server_silent:
  assumes d: "sv_disp (server_state f) = Some d" "server_facade_id f \<in> object_ids d" "\<not> exit_flag d"
    "server_facade_id f \<noteq> sv_oid (server_state f)"
    and reachable: "reachable_from server_initial (server_step verify ep rem) (server_state f)"
    and new: "\<not> sv_shutdown_started (server_state f)" and code: "user_code (sv_thread (server_state f))"
    and run: "(server_step verify ep rem)\<^sup>*\<^sup>* (destroy_server on_thread f) t"
  shows "sv_log t = sv_log (server_state f) \<and> sv_delivered t = sv_delivered (server_state f)"
proof -
  obtain d' where d': "detach (server_facade_id f) d = (True, d')" "\<not> exit_flag d'"
    "object_ids d' = object_ids d - {server_facade_id f}"
    using d(2,3) by (auto simp: detach_def)
  let ?s = "(server_state f)\<lparr>sv_disp := Some d'\<rparr>"
  have s: "destroy_server on_thread f = server_async_shutdown True ?s"
    using d(1) d'(1,2) by (simp add: destroy_server_def Let_def)
  have "attached_inv ?s"
    using server_attachment.reachable_inv [OF reachable] d(1,4) d'(3)
    by (auto simp: attached_inv_def server_attached_def)
  then have "silent_from (sv_log ?s) (sv_delivered ?s) (server_async_shutdown True ?s)"
    using new code by (intro silent_after_shutdown) simp_all
  from run [unfolded s] this have "silent_from (sv_log ?s) (sv_delivered ?s) t"
    by (induction rule: rtranclp_induct) (blast intro: silent_step)+
  then show ?thesis by (simp add: silent_from_def)
qed

end
