(* ===== verification/Spec2Isabelle.thy ===== *)
theory Spec2Isabelle
  imports Protocol Options Dispatcher_Extra Notification_Scope Request_Manager Peer_Properties Runtime
    Runtime_Worker
    Client_Composition Server_Composition Server_Probe Asio_Helper Facades
begin

text \<open>
  cpp-unix_domain_stream: a header-only C++ library for framed messages and requests over Unix
  domain sockets. This development models its code (\<^verbatim>\<open>include/pqrs/unix_domain_stream\<close>) and the
  vendored dispatcher it schedules on, and proves what makes it correct.

  \<^bold>\<open>The program.\<close> Two threads matter. The user's signals and callbacks run on a dispatcher
  (\<^verbatim>\<open>pqrs::dispatcher\<close>): a worker that takes functions from a queue sorted by time. Sockets, timers
  and all bookkeeping run on one I/O thread (\<^verbatim>\<open>impl/runtime.hpp\<close>), an \<^verbatim>\<open>asio::io_context\<close> whose
  handlers run one at a time. A connection (\<^verbatim>\<open>impl/peer.hpp\<close>) reads and writes frames
  (\<^verbatim>\<open>impl/protocol.hpp\<close>); the client (\<^verbatim>\<open>client.hpp\<close>) owns one and reconnects; the server
  (\<^verbatim>\<open>server.hpp\<close>) owns an acceptor and many, rebinds, and probes its own socket path. Both keep their
  requests in a request manager (\<^verbatim>\<open>impl/request_manager.hpp\<close>) and drop notifications of old sessions
  with a notification scope (\<^verbatim>\<open>impl/notification_scope.hpp\<close>).

  \<^bold>\<open>The theories\<close>, in the order they build on each other:
  \<^item> \<open>Prelude\<close>: machine types, keyed lists, and the two interfaces every stateful part is
    checked against: \<open>event_machine\<close> (an inductive invariant) and \<open>simulation\<close> (a refinement).
  \<^item> \<open>Types\<close>, \<open>Options\<close>: error codes, credentials (\<^verbatim>\<open>impl/credentials.hpp\<close>), parameters and
    their defaults.
  \<^item> \<open>Protocol\<close>: encoding and decoding of frames on \<open>8 word\<close> lists; round trips, sizes.
  \<^item> \<open>Peer\<close> models every member function and handler of \<^verbatim>\<open>impl/peer.hpp\<close>; \<open>Peer_Invariant\<close> its
    invariant, \<open>Peer_Contract\<close> the abstract connection it simulates, \<open>Peer_Reader\<close> and
    \<open>Peer_Frames\<close> the reader against a reference parser, \<open>Peer_Deadlines\<close> its timers,
    \<open>Peer_Properties\<close> what it promises, \<open>Peer_Order\<close> what it makes of the frames it is asked to send.
  \<^item> \<open>Dispatcher\<close>: the queue, the worker, attach and detach with its waiting
    (\<^verbatim>\<open>dispatcher/dispatcher.hpp\<close>); \<open>Dispatcher_Extra\<close>: object ids, the debounced task and the
    timer (\<^verbatim>\<open>dispatcher/extra\<close>); \<open>Owner_Queue\<close>: the queue as one of its objects sees it, and the
    interface \<open>retry_task\<close> of a debounced task that retries, interpreted for the client's
    reconnect and the server's rebind; \<open>Queue_Frames\<close>: what an operation leaves alone in that queue,
    and the interface \<open>owned_timer\<close> of a timer that disturbs nothing, interpreted for the server's
    health check timer.
  \<^item> \<open>Notification_Scope\<close>, \<open>Request_Manager\<close>, \<open>Runtime\<close>: session tokens; pending requests with
    their timers; which server of the process owns which socket file. \<open>Runtime_Worker\<close>: the I/O
    thread, its work guard and the destructor that joins it.
  \<^item> \<open>Client\<close> models \<open>client_state\<close>; \<open>Client_Invariant\<close>, \<open>Client_Steps\<close>, \<open>Client_Io\<close> and
    \<open>Client_Machine\<close> prove its invariant for the two threads, \<open>Client_Signals\<close> what is announced
    and answered, \<open>Client_Properties\<close> what it promises.
  \<^item> \<open>Server\<close> models \<open>server_state\<close>; \<open>Server_Steps\<close> has normal forms of its operations,
    \<open>Server_Log\<close> the reports about each peer, \<open>Server_Requests\<close> the well-formedness of what it
    holds, \<open>Server_Callbacks\<close> the conservation of request callbacks and the silence after a
    shutdown, \<open>Server_Progress\<close> and \<open>Server_Machine\<close> that it holds nothing once stopped and keeps
    accepting or trying to bind, over all interleavings, \<open>Server_Properties\<close> what it promises.
  \<^item> \<open>Composition\<close>: an owner of connections together with the modelled peers it owns, and the
    interface \<open>connection_system\<close> of such an owner: under its laws the composed machine simulates the
    owner's and each connection runs its own. \<open>Client_Composition\<close> and \<open>Server_Composition\<close> interpret it
    for the client and the server and state what holds end to end. \<open>Server_Probe\<close>: that a health check
    of the server's own path always ends.
  \<^item> \<open>Asio_Helper\<close>: \<^verbatim>\<open>make_endpoint\<close>; \<open>Facades\<close>: the public classes \<^verbatim>\<open>client\<close> and \<^verbatim>\<open>server\<close>, their
    constructors, forwarding calls and destructors, and that a destroyed one is silent.

  \<^bold>\<open>How the code is modelled.\<close> A class is a record of its members, together with what is queued
  for it: functions on the dispatcher, tasks on the executor, outstanding asynchronous operations.
  A closure is a constructor of a datatype with the values it captures. A member function is a
  definition on the record; a function that runs while the other thread may interleave is a list of
  atomic actions (dispatcher) or continued by a task at the front of the queue (I/O thread), split
  where it reads or writes what the other thread uses. A step relation (\<open>peer_step\<close>,
  \<open>client_step\<close>, \<open>server_step\<close>, \<open>dispatcher_step\<close>) then allows every order of user calls,
  handlers, timers and environment. Closing a socket, acceptor or timer ends its outstanding
  operations with \<open>Operation_aborted\<close>, as asio documents; other completions carry any result.
  The client and the server see a peer through its contract only: its identity, the calls made on
  it, and its signals, in order, \<open>ready\<close> and \<open>closed\<close> at most once; theory \<open>Peer_Contract\<close> proves
  that the modelled peer keeps it, and the compositions bind the references to modelled peers: a call
  is performed on the peer, what a peer announces reaches the slots, and a connection that nothing holds
  is destroyed. Each peer has its own queue of handlers there, interleaved with the owner's in any
  order, of which the one order of the shared executor is an instance.

  \<^bold>\<open>Bounds.\<close> Sizes, ids, tokens and generations are words of their C++ width; claims that need a
  counter not to have wrapped around say so (fewer than \<open>2 ^ 64\<close> sessions, requests or accepted
  peers). The function id of a timer is a 32-bit \<^verbatim>\<open>int\<close>; that a timer never schedules twice is stated
  for runs with fewer than \<open>2 ^ 31 - 1\<close> increments of it, and nothing proved of the server's timer
  rests on its ids being distinct. The search for a free object id has any fuel from \<open>2 ^ 64\<close> on, the
  number of its values. Times and durations are unbounded integers of milliseconds: the code only adds
  and compares them. The reader's
  driver has one step per byte and message. Loops over containers are structural.

  \<^bold>\<open>Parameters.\<close> The user's verifier, asio's endpoint constructor (through the error of
  \<^verbatim>\<open>asio_helper::make_endpoint\<close> for a path, \<open>ep\<close> in the step relations),
  \<^verbatim>\<open>filesystem::remove\<close> with its documented effect, and the results of system calls.

  \<^bold>\<open>Not modelled.\<close> asio, nod, gsl and boost.ut (third party); memory management (a lock of a weak
  pointer succeeds while the model's object exists) and exceptions of allocation; the length of
  timeouts of requests and probes (they may expire at any time); the tests and \<^verbatim>\<open>example/main.cpp\<close>.
\<close>

end
